(* ===== verification/Prelude.thy ===== *)
theory Prelude
  imports Main
begin

text \<open>
  What the components share and the source takes from its language: numbers with
  the two infinities (used by the comparators of \<^verbatim>\<open>treeState.ts\<close> and
  \<^verbatim>\<open>lib/reduce.ts\<close>), the stable \<^verbatim>\<open>Array.prototype.sort\<close>, the array operations
  \<^verbatim>\<open>includes\<close>, \<^verbatim>\<open>indexOf\<close>, \<^verbatim>\<open>slice\<close> and \<^verbatim>\<open>splice\<close>, ASCII case folding and trimming, JSON values
  as \<^verbatim>\<open>JSON.parse\<close> yields them, and the interface of a component whose operations all
  keep an invariant, with the lemmas about runs proved once.
\<close>

named_theorems keyed \<open>laws of insertion-ordered maps\<close>
named_theorems step_inv \<open>operations that keep their component's invariant\<close>
named_theorems frame \<open>parts of the state an operation does not touch\<close>

section \<open>Numbers with infinities, comparators and the stable sort\<close>

datatype ext_num = NegInf | Fin int | PosInf

instantiation ext_num :: linorder
begin

fun less_eq_ext_num :: "ext_num \<Rightarrow> ext_num \<Rightarrow> bool" where
  "less_eq_ext_num NegInf _ = True"
| "less_eq_ext_num _ PosInf = True"
| "less_eq_ext_num (Fin a) (Fin b) = (a \<le> b)"
| "less_eq_ext_num _ _ = False"

definition less_ext_num :: "ext_num \<Rightarrow> ext_num \<Rightarrow> bool" where
  "less_ext_num a b \<longleftrightarrow> a \<le> b \<and> \<not> b \<le> a"

instance
proof
  fix x y z :: ext_num
  show "(x < y) = (x \<le> y \<and> \<not> y \<le> x)" by (rule less_ext_num_def)
  show "x \<le> x" by (cases x) auto
  show "x \<le> y \<Longrightarrow> y \<le> z \<Longrightarrow> x \<le> z" by (cases x; cases y; cases z) auto
  show "x \<le> y \<Longrightarrow> y \<le> x \<Longrightarrow> x = y" by (cases x; cases y) auto
  show "x \<le> y \<or> y \<le> x" by (cases x; cases y) auto
qed

end

lemma ext_num_less_simps [simp]:
  "Fin a < Fin b \<longleftrightarrow> a < b" "NegInf < Fin a" "Fin a < PosInf" "NegInf < PosInf"
  "\<not> x < NegInf" "\<not> PosInf < x"
  by (auto simp: less_ext_num_def) (cases x; simp)+

text \<open>
  The sign of \<^verbatim>\<open>x - y\<close>, which is all a sort looks at. The difference of two equal
  infinities is NaN, which \<^verbatim>\<open>sort\<close> reads as 0.
\<close>

definition cmp_num :: "ext_num \<Rightarrow> ext_num \<Rightarrow> int" where
  "cmp_num x y = (if x < y then -1 else if x = y then 0 else 1)"

lemma cmp_num_le [simp]: "cmp_num x y \<le> 0 \<longleftrightarrow> x \<le> y"
  by (auto simp: cmp_num_def less_le)

text \<open>
  \<^verbatim>\<open>Array.prototype.sort\<close> is stable, so its result under a consistent comparator is the
  one an insertion sort computes.
\<close>

fun js_insert :: "('a \<Rightarrow> 'a \<Rightarrow> int) \<Rightarrow> 'a \<Rightarrow> 'a list \<Rightarrow> 'a list" where
  "js_insert cmp x [] = [x]"
| "js_insert cmp x (y # ys) = (if cmp x y \<le> 0 then x # y # ys else y # js_insert cmp x ys)"

definition js_sort :: "('a \<Rightarrow> 'a \<Rightarrow> int) \<Rightarrow> 'a list \<Rightarrow> 'a list" where
  "js_sort cmp xs = foldr (js_insert cmp) xs []"

lemma js_insert_insort:
  "(\<And>a b. cmp a b \<le> 0 \<longleftrightarrow> key a \<le> key b) \<Longrightarrow> js_insert cmp x ys = insort_key key x ys"
  by (induction ys) auto

lemma js_sort_sort_key:
  assumes "\<And>a b. cmp a b \<le> 0 \<longleftrightarrow> key a \<le> (key b :: 'k :: linorder)"
  shows "js_sort cmp xs = sort_key key xs"
proof -
  have "js_insert cmp = insort_key key"
    by (intro ext js_insert_insort assms)
  then show ?thesis by (simp add: js_sort_def sort_key_def)
qed

lemma js_sort_Nil [simp]: "js_sort cmp [] = []"
  by (simp add: js_sort_def)

lemma js_sort_Cons [simp]: "js_sort cmp (x # xs) = js_insert cmp x (js_sort cmp xs)"
  by (simp add: js_sort_def)

lemma set_js_insert [simp]: "set (js_insert cmp x xs) = insert x (set xs)"
  by (induction xs) auto

lemma set_js_sort [simp]: "set (js_sort cmp xs) = set xs"
  by (induction xs) auto

lemma length_js_insert [simp]: "length (js_insert cmp x xs) = Suc (length xs)"
  by (induction xs) auto

lemma length_js_sort [simp]: "length (js_sort cmp xs) = length xs"
  by (induction xs) auto

lemma distinct_js_insert: "distinct (js_insert cmp x xs) \<longleftrightarrow> x \<notin> set xs \<and> distinct xs"
  by (induction xs) auto

lemma distinct_js_sort [simp]: "distinct (js_sort cmp xs) = distinct xs"
  by (induction xs) (auto simp: distinct_js_insert)

lemma js_insert_eq_Nil [simp]: "js_insert cmp x xs \<noteq> []"
  by (cases xs) auto

section \<open>Arrays\<close>

text \<open>\<^verbatim>\<open>indexOf\<close>, with \<^verbatim>\<open>-1\<close> for an absent element.\<close>

fun index_from :: "int \<Rightarrow> 'a list \<Rightarrow> 'a \<Rightarrow> int" where
  "index_from i [] x = -1"
| "index_from i (y # ys) x = (if y = x then i else index_from (i + 1) ys x)"

definition index_of :: "'a list \<Rightarrow> 'a \<Rightarrow> int" where
  "index_of xs x = index_from 0 xs x"

text \<open>Reading \<^verbatim>\<open>xs[i]\<close>: undefined out of range.\<close>

definition array_get :: "'a list \<Rightarrow> int \<Rightarrow> 'a option" where
  "array_get xs i = (if 0 \<le> i \<and> i < int (length xs) then Some (xs ! nat i) else None)"

lemma index_from_bounds:
  "x \<in> set xs \<Longrightarrow> i \<le> index_from i xs x \<and> index_from i xs x < i + int (length xs)"
proof (induction xs arbitrary: i)
  case (Cons y ys)
  show ?case
  proof (cases "y = x")
    case False
    with Cons.prems have "i + 1 \<le> index_from (i + 1) ys x"
      and "index_from (i + 1) ys x < i + 1 + int (length ys)"
      using Cons.IH [of "i + 1"] by auto
    with False show ?thesis by simp
  qed simp
qed simp

lemma index_from_nth:
  "x \<in> set xs \<Longrightarrow> xs ! nat (index_from i xs x - i) = x"
proof (induction xs arbitrary: i)
  case (Cons y ys)
  show ?case
  proof (cases "y = x")
    case False
    with Cons.prems have "x \<in> set ys" by simp
    then have "i + 1 \<le> index_from (i + 1) ys x" and "ys ! nat (index_from (i + 1) ys x - (i + 1)) = x"
      using index_from_bounds [of x ys "i + 1"] Cons.IH [of "i + 1"] by auto
    moreover from this have "nat (index_from (i + 1) ys x - i) = Suc (nat (index_from (i + 1) ys x - (i + 1)))"
      by simp
    ultimately show ?thesis using False by simp
  qed simp
qed simp

lemma index_from_absent: "x \<notin> set xs \<Longrightarrow> index_from i xs x = -1"
  by (induction xs arbitrary: i) auto

lemma index_of_present: "x \<in> set xs \<Longrightarrow> 0 \<le> index_of xs x \<and> index_of xs x < int (length xs)"
  using index_from_bounds [of x xs 0] by (simp add: index_of_def)

lemma nth_index_of: "x \<in> set xs \<Longrightarrow> xs ! nat (index_of xs x) = x"
  using index_from_nth [of x xs 0] by (simp add: index_of_def)

lemma index_of_absent: "x \<notin> set xs \<Longrightarrow> index_of xs x = -1"
  by (simp add: index_of_def index_from_absent)

lemma index_of_neg [simp]: "index_of xs x < 0 \<longleftrightarrow> x \<notin> set xs"
  using index_of_present [of x xs] index_of_absent [of x xs] by (cases "x \<in> set xs") auto

lemma filter_neq_absent [simp]: "x \<notin> set xs \<Longrightarrow> filter (\<lambda>y. y \<noteq> x) xs = xs"
  by (induction xs) auto

text \<open>\<^verbatim>\<open>[...new Set(xs)]\<close>: the first occurrence of each element stays.\<close>

definition dedupe :: "'a list \<Rightarrow> 'a list" where
  "dedupe xs = fold (\<lambda>x acc. if x \<in> set acc then acc else acc @ [x]) xs []"

lemma dedupe_acc:
  "distinct acc \<Longrightarrow>
    distinct (fold (\<lambda>x acc. if x \<in> set acc then acc else acc @ [x]) xs acc) \<and>
    set (fold (\<lambda>x acc. if x \<in> set acc then acc else acc @ [x]) xs acc) = set acc \<union> set xs"
  by (induction xs arbitrary: acc) auto

lemma distinct_dedupe [simp]: "distinct (dedupe xs)"
  and set_dedupe [simp]: "set (dedupe xs) = set xs"
  using dedupe_acc [of "[]" xs] by (auto simp: dedupe_def)

lemma dedupe_acc_distinct:
  "distinct (acc @ xs) \<Longrightarrow> fold (\<lambda>x acc. if x \<in> set acc then acc else acc @ [x]) xs acc = acc @ xs"
  by (induction xs arbitrary: acc) auto

lemma dedupe_distinct [simp]: "distinct xs \<Longrightarrow> dedupe xs = xs"
  using dedupe_acc_distinct [of "[]" xs] by (simp add: dedupe_def)

lemma distinct_concat_map:
  assumes "distinct xs" and "\<And>x. x \<in> set xs \<Longrightarrow> distinct (f x)"
    and "\<And>x y. x \<in> set xs \<Longrightarrow> y \<in> set xs \<Longrightarrow> x \<noteq> y \<Longrightarrow> set (f x) \<inter> set (f y) = {}"
  shows "distinct (concat (map f xs))"
  using assms
proof (induction xs)
  case (Cons x xs)
  have "set (f x) \<inter> set (f y) = {}" if "y \<in> set xs" for y
    using Cons.prems(1) Cons.prems(3) [of x y] that by auto
  moreover have "distinct (concat (map f xs))"
    using Cons.prems by (intro Cons.IH) auto
  ultimately show ?case using Cons.prems(2) by auto
qed simp

section \<open>Strings\<close>

text \<open>
  \<^verbatim>\<open>toLowerCase\<close>, \<^verbatim>\<open>trim\<close> and \<^verbatim>\<open>includes\<close> on ASCII text (a \<open>char\<close> is one byte).
\<close>

definition char_lower :: "char \<Rightarrow> char" where
  "char_lower c = (if 65 \<le> (of_char c :: nat) \<and> (of_char c :: nat) \<le> 90 then char_of (of_char c + 32 :: nat) else c)"

definition to_lower :: "string \<Rightarrow> string" where
  "to_lower s = map char_lower s"

definition is_space :: "char \<Rightarrow> bool" where
  "is_space c \<longleftrightarrow> (of_char c :: nat) \<in> {9, 10, 11, 12, 13, 32}"

definition trim :: "string \<Rightarrow> string" where
  "trim s = rev (dropWhile is_space (rev (dropWhile is_space s)))"

fun starts_with :: "'a list \<Rightarrow> 'a list \<Rightarrow> bool" where
  "starts_with xs [] = True"
| "starts_with [] (p # ps) = False"
| "starts_with (x # xs) (p # ps) = (x = p \<and> starts_with xs ps)"

fun str_includes :: "'a list \<Rightarrow> 'a list \<Rightarrow> bool" where
  "str_includes [] p = (p = [])"
| "str_includes (x # xs) p = (starts_with (x # xs) p \<or> str_includes xs p)"

lemma starts_with_iff: "starts_with xs p \<longleftrightarrow> (\<exists>t. xs = p @ t)"
  by (induction xs p rule: starts_with.induct) auto

lemma str_includes_iff: "str_includes xs p \<longleftrightarrow> (\<exists>a b. xs = a @ p @ b)"
proof (induction xs)
  case (Cons x xs)
  have "(\<exists>a b. x # xs = a @ p @ b) \<longleftrightarrow> (\<exists>b. x # xs = p @ b) \<or> (\<exists>a b. xs = a @ p @ b)"
    by (auto simp: Cons_eq_append_conv)
  then show ?case using Cons.IH by (simp add: starts_with_iff)
qed simp

section \<open>JSON values\<close>

text \<open>
  Numbers on this wire are integers (counts, revisions, millisecond times, byte
  offsets). An object keeps its entries in order, each key once.
\<close>

datatype json = JNull | JBool bool | JNum int | JStr string | JArr "json list"
  | JObj "(string \<times> json) list"

text \<open>\<^verbatim>\<open>obj.key\<close> on a value that passed \<^verbatim>\<open>!o || typeof o !== "object"\<close>; \<open>None\<close> is undefined.\<close>

fun json_field :: "json \<Rightarrow> string \<Rightarrow> json option" where
  "json_field (JObj kvs) k = map_of kvs k"
| "json_field _ k = None"

definition is_object :: "json \<Rightarrow> bool" where
  "is_object j = (case j of JObj _ \<Rightarrow> True | JArr _ \<Rightarrow> True | _ \<Rightarrow> False)"

definition truthy :: "json \<Rightarrow> bool" where
  "truthy j = (case j of JNull \<Rightarrow> False | JBool b \<Rightarrow> b | JNum n \<Rightarrow> n \<noteq> 0 | JStr s \<Rightarrow> s \<noteq> [] | _ \<Rightarrow> True)"

fun as_string :: "json option \<Rightarrow> string option" where
  "as_string (Some (JStr s)) = Some s"
| "as_string _ = None"

fun as_number :: "json option \<Rightarrow> int option" where
  "as_number (Some (JNum n)) = Some n"
| "as_number _ = None"

fun as_bool :: "json option \<Rightarrow> bool option" where
  "as_bool (Some (JBool b)) = Some b"
| "as_bool _ = None"

fun as_array :: "json option \<Rightarrow> json list option" where
  "as_array (Some (JArr xs)) = Some xs"
| "as_array _ = None"

text \<open>\<^verbatim>\<open>Array.isArray(x) ? x.filter((v) => typeof v === "string") : []\<close>\<close>

definition string_array :: "json option \<Rightarrow> string list" where
  "string_array j = (case as_array j of None \<Rightarrow> [] | Some xs \<Rightarrow> List.map_filter (\<lambda>v. as_string (Some v)) xs)"

lemma map_filter_JStr [simp]: "List.map_filter (\<lambda>v. as_string (Some v)) (map JStr xs) = xs"
  by (induction xs) (simp_all add: List.map_filter_simps)

lemma string_array_JStr [simp]: "string_array (Some (JArr (map JStr xs))) = xs"
  by (simp add: string_array_def)

section \<open>Components whose operations keep an invariant\<close>

text \<open>
  The interface of an event-driven component: one step per event, an invariant every
  step keeps. A run is the left fold of its events.
\<close>

locale invariant_machine =
  fixes step :: "'s \<Rightarrow> 'e \<Rightarrow> 's"
    and inv :: "'s \<Rightarrow> bool"
  assumes step_preserves: "inv s \<Longrightarrow> inv (step s e)"
begin

lemma run_preserves: "inv s \<Longrightarrow> inv (foldl step s es)"
  by (induction es arbitrary: s) (auto intro: step_preserves)

lemma every_prefix_preserves: "inv s \<Longrightarrow> inv (foldl step s (take n es))"
  by (rule run_preserves)

end

text \<open>
  The same for a component some of whose operations may not return: \<open>None\<close> is a call
  that runs forever, and a run stops there.
\<close>

fun run_opt :: "('s \<Rightarrow> 'e \<Rightarrow> 's option) \<Rightarrow> 's \<Rightarrow> 'e list \<Rightarrow> 's option" where
  "run_opt step s [] = Some s"
| "run_opt step s (e # es) = (case step s e of None \<Rightarrow> None | Some s' \<Rightarrow> run_opt step s' es)"

locale partial_machine =
  fixes step :: "'s \<Rightarrow> 'e \<Rightarrow> 's option"
    and inv :: "'s \<Rightarrow> bool"
  assumes step_preserves: "inv s \<Longrightarrow> step s e = Some s' \<Longrightarrow> inv s'"
begin

lemma run_preserves: "inv s \<Longrightarrow> run_opt step s es = Some s' \<Longrightarrow> inv s'"
  by (induction es arbitrary: s) (auto intro: step_preserves split: option.splits)

end

end
