(* ===== verification/JsMap.thy ===== *)
theory JsMap
  imports Prelude "HOL-Library.AList"
begin

text \<open>
  The JavaScript \<^verbatim>\<open>Map\<close> and the plain object used as a dictionary: an association list
  in insertion order with every key once. \<^verbatim>\<open>set\<close> on a present key keeps its position, on
  an absent key appends; \<^verbatim>\<open>delete\<close> removes the entry. Object keys of this program are
  session, message and part ids (never integer-like), so an object's keys also come in
  insertion order.

  The interface \<open>keyed_store\<close> is what the components use of such a map; its lemmas
  about filling a map from a list and clearing a list of keys are proved once.
\<close>

type_synonym ('k, 'v) jsmap = "('k \<times> 'v) list"

abbreviation js_get :: "('k, 'v) jsmap \<Rightarrow> 'k \<Rightarrow> 'v option" where
  "js_get \<equiv> map_of"

definition js_keys :: "('k, 'v) jsmap \<Rightarrow> 'k list" where
  "js_keys m = map fst m"

definition js_values :: "('k, 'v) jsmap \<Rightarrow> 'v list" where
  "js_values m = map snd m"

definition js_has :: "('k, 'v) jsmap \<Rightarrow> 'k \<Rightarrow> bool" where
  "js_has m k \<longleftrightarrow> map_of m k \<noteq> None"

definition js_set :: "'k \<Rightarrow> 'v \<Rightarrow> ('k, 'v) jsmap \<Rightarrow> ('k, 'v) jsmap" where
  "js_set k v m = AList.update k v m"

definition js_delete :: "'k \<Rightarrow> ('k, 'v) jsmap \<Rightarrow> ('k, 'v) jsmap" where
  "js_delete k m = AList.delete k m"

definition js_wf :: "('k, 'v) jsmap \<Rightarrow> bool" where
  "js_wf m \<longleftrightarrow> distinct (map fst m)"

text \<open>\<^verbatim>\<open>{ ...a, ...b }\<close> and filling a map from a list of entries.\<close>

definition js_set_all :: "('k \<times> 'v) list \<Rightarrow> ('k, 'v) jsmap \<Rightarrow> ('k, 'v) jsmap" where
  "js_set_all kvs m = fold (\<lambda>(k, v). js_set k v) kvs m"

definition js_delete_all :: "'k list \<Rightarrow> ('k, 'v) jsmap \<Rightarrow> ('k, 'v) jsmap" where
  "js_delete_all ks m = fold js_delete ks m"

section \<open>The interface\<close>

locale keyed_store =
  fixes get :: "'m \<Rightarrow> 'k \<Rightarrow> 'v option"
    and put :: "'k \<Rightarrow> 'v \<Rightarrow> 'm \<Rightarrow> 'm"
    and del :: "'k \<Rightarrow> 'm \<Rightarrow> 'm"
    and keys :: "'m \<Rightarrow> 'k list"
    and wf :: "'m \<Rightarrow> bool"
  assumes get_put: "get (put k v m) j = (if j = k then Some v else get m j)"
    and get_del: "get (del k m) j = (if j = k then None else get m j)"
    and keys_iff: "k \<in> set (keys m) \<longleftrightarrow> get m k \<noteq> None"
    and wf_put: "wf m \<Longrightarrow> wf (put k v m)"
    and wf_del: "wf m \<Longrightarrow> wf (del k m)"
    and put_order: "keys (put k v m) = (if k \<in> set (keys m) then keys m else keys m @ [k])"
    and del_order: "keys (del k m) = filter (\<lambda>j. j \<noteq> k) (keys m)"
begin

lemma get_put_all:
  "get (fold (\<lambda>(k, v). put k v) kvs m) j = (case map_of (rev kvs) j of Some v \<Rightarrow> Some v | None \<Rightarrow> get m j)"
  by (induction kvs arbitrary: m) (auto simp: get_put map_add_def split: option.splits)

lemma wf_put_all: "wf m \<Longrightarrow> wf (fold (\<lambda>(k, v). put k v) kvs m)"
  by (induction kvs arbitrary: m) (auto intro: wf_put)

lemma keys_put_all: "set (keys (fold (\<lambda>(k, v). put k v) kvs m)) = set (keys m) \<union> fst ` set kvs"
  by (induction kvs arbitrary: m) (auto simp: put_order split: if_splits)

lemma get_del_all: "get (fold del ks m) j = (if j \<in> set ks then None else get m j)"
  by (induction ks arbitrary: m) (auto simp: get_del)

lemma wf_del_all: "wf m \<Longrightarrow> wf (fold del ks m)"
  by (induction ks arbitrary: m) (auto intro: wf_del)

lemma keys_del_all: "keys (fold del ks m) = filter (\<lambda>j. j \<notin> set ks) (keys m)"
  by (induction ks arbitrary: m) (auto simp: del_order intro: filter_cong)

end

section \<open>The association list provides it\<close>

lemma js_get_set [simp, keyed]: "js_get (js_set k v m) j = (if j = k then Some v else js_get m j)"
  by (simp add: js_set_def update_conv')

lemma js_get_delete [simp, keyed]: "js_get (js_delete k m) j = (if j = k then None else js_get m j)"
  by (simp add: js_delete_def AList.delete_conv')

lemma js_keys_set: "js_keys (js_set k v m) = (if k \<in> set (js_keys m) then js_keys m else js_keys m @ [k])"
  by (simp add: js_keys_def js_set_def update_keys)

lemma js_keys_delete: "js_keys (js_delete k m) = filter (\<lambda>j. j \<noteq> k) (js_keys m)"
  unfolding js_keys_def js_delete_def by (induction m) (auto simp: AList.delete_eq)

lemma js_keys_iff: "k \<in> set (js_keys m) \<longleftrightarrow> js_get m k \<noteq> None"
  by (induction m) (auto simp: js_keys_def)

lemma js_wf_set [simp, intro, keyed]: "js_wf m \<Longrightarrow> js_wf (js_set k v m)"
  by (simp add: js_wf_def js_set_def distinct_update)

lemma js_wf_delete [simp, intro, keyed]: "js_wf m \<Longrightarrow> js_wf (js_delete k m)"
  by (simp add: js_wf_def js_delete_def distinct_delete)

lemma js_wf_Nil [simp, intro]: "js_wf []"
  by (simp add: js_wf_def)

interpretation jsm: keyed_store js_get js_set js_delete js_keys js_wf
  by unfold_locales (auto simp: js_keys_set js_keys_delete js_keys_iff)

lemmas js_get_set_all [keyed] = jsm.get_put_all [folded js_set_all_def]
lemmas js_wf_set_all [intro, keyed] = jsm.wf_put_all [folded js_set_all_def]
lemmas js_keys_set_all [keyed] = jsm.keys_put_all [folded js_set_all_def]
lemmas js_get_delete_all [simp, keyed] = jsm.get_del_all [folded js_delete_all_def]
lemmas js_wf_delete_all [intro, simp, keyed] = jsm.wf_del_all [folded js_delete_all_def]
lemmas js_keys_delete_all [keyed] = jsm.keys_del_all [folded js_delete_all_def]

section \<open>Entries, values and extensional reasoning\<close>

lemma js_has_iff [simp]: "js_has m k \<longleftrightarrow> js_get m k \<noteq> None"
  by (simp add: js_has_def)

lemma js_keys_Nil [simp]: "js_keys [] = []" and js_values_Nil [simp]: "js_values [] = []"
  by (simp_all add: js_keys_def js_values_def)

lemma js_entry_iff: "js_wf m \<Longrightarrow> (k, v) \<in> set m \<longleftrightarrow> js_get m k = Some v"
  by (simp add: js_wf_def)

lemma js_values_iff: "js_wf m \<Longrightarrow> v \<in> set (js_values m) \<longleftrightarrow> (\<exists>k. js_get m k = Some v)"
  by (auto simp: js_values_def js_entry_iff [symmetric] image_iff simp del: js_get_set) force+

lemma js_wf_keys: "js_wf m \<longleftrightarrow> distinct (js_keys m)"
  by (simp add: js_wf_def js_keys_def)

lemma js_get_mem: "js_get m k = Some v \<Longrightarrow> (k, v) \<in> set m"
  by (rule map_of_SomeD)

lemma js_set_same: "js_get m k = Some v \<Longrightarrow> js_set k v m = m"
  unfolding js_set_def by (induction m) auto

lemma js_set_idem [simp]: "js_set k v (js_set k w m) = js_set k v m"
  unfolding js_set_def by (induction m) auto

lemma js_delete_absent: "js_get m k = None \<Longrightarrow> js_delete k m = m"
  by (simp add: js_delete_def delete_id map_of_eq_None_iff)

lemma js_delete_all_filter: "js_delete_all ks m = filter (\<lambda>(k, v). k \<notin> set ks) m"
  unfolding js_delete_all_def
  by (induction ks arbitrary: m)
    (auto simp: js_delete_def AList.delete_eq case_prod_beta intro: filter_cong)

lemma js_keys_set_present: "js_get m k \<noteq> None \<Longrightarrow> js_keys (js_set k v m) = js_keys m"
  by (simp add: js_keys_set js_keys_iff)

lemma js_values_delete_all:
  "js_values (js_delete_all ks m) = map snd (filter (\<lambda>(k, v). k \<notin> set ks) m)"
  by (simp add: js_values_def js_delete_all_filter)

section \<open>Grouping: the bucket idiom\<close>

text \<open>
  \<^verbatim>\<open>const bucket = m.get(key); if (bucket) bucket.push(v); else m.set(key, [v]);\<close>
\<close>

definition bucket_push :: "'k \<Rightarrow> 'v \<Rightarrow> ('k, 'v list) jsmap \<Rightarrow> ('k, 'v list) jsmap" where
  "bucket_push k v m = (case js_get m k of Some b \<Rightarrow> js_set k (b @ [v]) m | None \<Rightarrow> js_set k [v] m)"

definition bucket :: "('k, 'v list) jsmap \<Rightarrow> 'k \<Rightarrow> 'v list" where
  "bucket m k = (case js_get m k of Some b \<Rightarrow> b | None \<Rightarrow> [])"

lemma bucket_push [simp]: "bucket (bucket_push k v m) j = (if j = k then bucket m k @ [v] else bucket m j)"
  by (auto simp: bucket_def bucket_push_def split: option.splits)

lemma bucket_Nil [simp]: "bucket [] k = []"
  by (simp add: bucket_def)

lemma bucket_fold_push:
  "bucket (fold (\<lambda>x. bucket_push (f x) (g x)) xs m) k = bucket m k @ map g (filter (\<lambda>x. f x = k) xs)"
  by (induction xs arbitrary: m) auto

lemma bucket_push_nonempty:
  "\<forall>k b. js_get m k = Some b \<longrightarrow> b \<noteq> [] \<Longrightarrow> js_get (bucket_push j v m) k = Some b \<Longrightarrow> b \<noteq> []"
  by (auto simp: bucket_push_def split: option.splits if_splits)

end
