(* ===== verification/TreeMap.thy ===== *)
theory TreeMap
  imports JsMap
begin

text \<open>
  \<^verbatim>\<open>web/src/sync/treeMap.ts\<close>: the client's flat map of the server-owned session tree and
  the verbatim application of the five server operations to it, the breadth-first walk
  of the loaded subtree, the client-only collapse and the grouping by parent.

  A call of \<^verbatim>\<open>loadedDescendants\<close> walks the parent pointers without a visited set, so it
  does not return when its node lies on a parent cycle; the model keeps this as
  \<open>None\<close>, and the lemmas say exactly when it happens.
\<close>

section \<open>The node schema and the operations\<close>

text \<open>
  \<open>ActUnset\<close> is the empty string of a never-seeded activity. \<open>ActOther\<close> carries any other
  JSON value: the facet decoder does not check the activity it passes through.
\<close>

datatype activity = ActUnset | ActIdle | ActBusy | ActRetry | ActError | ActOther json

record tree_flags =
  pendingInput :: bool
  subtreeNeedsInput :: bool
  subtreeBusy :: "bool option"
  permission :: bool
  archived :: bool
  orphan :: bool

record tree_node =
  nid :: string
  parentId :: "string option"
  title :: string
  agent :: "string option"
  verb :: "json option"
  activity :: activity
  childCount :: int
  descendantCount :: "int option"
  loaded :: bool
  flags :: tree_flags
  updatedMs :: int

text \<open>\<^verbatim>\<open>Partial<TreeNodeFlags>\<close>: \<open>None\<close> is an absent field.\<close>

record partial_flags =
  p_pendingInput :: "bool option"
  p_subtreeNeedsInput :: "bool option"
  p_subtreeBusy :: "bool option"
  p_permission :: "bool option"
  p_archived :: "bool option"
  p_orphan :: "bool option"

record facet_data =
  f_activity :: "activity option"
  f_verb :: "json option"
  f_flags :: "partial_flags option"

datatype tree_op =
    NodeUpsert tree_node
  | NodeRemove string
  | NodeMove string "string option"
  | NodeChildren string "tree_node list" bool "string option"
  | NodeFacet string facet_data

type_synonym tree_flat_map = "(string, tree_node) jsmap"

section \<open>Seeding, the walk of the loaded subtree, the operations\<close>

definition seedTree :: "tree_node list \<Rightarrow> tree_flat_map" where
  "seedTree nodes = fold (\<lambda>n m. js_set (nid n) n m) nodes []"

definition children_of :: "tree_flat_map \<Rightarrow> (string, string list) jsmap" where
  "children_of m =
     fold (\<lambda>n acc. case parentId n of None \<Rightarrow> acc | Some p \<Rightarrow> bucket_push p (nid n) acc)
       (js_values m) []"

partial_function (option) bfs ::
  "(string, string list) jsmap \<Rightarrow> string list \<Rightarrow> string list \<Rightarrow> string list option" where
  "bfs ch queue out =
     (case queue of
        [] \<Rightarrow> Some out
      | cur # rest \<Rightarrow>
          bfs ch (case js_get ch cur of Some kids \<Rightarrow> rest @ kids | None \<Rightarrow> rest) (out @ [cur]))"

definition loadedDescendants :: "tree_flat_map \<Rightarrow> string \<Rightarrow> string list option" where
  "loadedDescendants m i = (if \<not> js_has m i then Some [] else bfs (children_of m) [i] [])"

definition merge_flags :: "tree_flags \<Rightarrow> partial_flags \<Rightarrow> tree_flags" where
  "merge_flags f p = f\<lparr>
     pendingInput := (case p_pendingInput p of Some b \<Rightarrow> b | None \<Rightarrow> pendingInput f),
     subtreeNeedsInput := (case p_subtreeNeedsInput p of Some b \<Rightarrow> b | None \<Rightarrow> subtreeNeedsInput f),
     subtreeBusy := (case p_subtreeBusy p of Some b \<Rightarrow> Some b | None \<Rightarrow> subtreeBusy f),
     permission := (case p_permission p of Some b \<Rightarrow> b | None \<Rightarrow> permission f),
     archived := (case p_archived p of Some b \<Rightarrow> b | None \<Rightarrow> archived f),
     orphan := (case p_orphan p of Some b \<Rightarrow> b | None \<Rightarrow> orphan f)\<rparr>"

definition merge_facet :: "tree_node \<Rightarrow> facet_data \<Rightarrow> tree_node" where
  "merge_facet n d = n\<lparr>
     activity := (case f_activity d of Some a \<Rightarrow> a | None \<Rightarrow> activity n),
     verb := (case f_verb d of Some v \<Rightarrow> Some v | None \<Rightarrow> verb n),
     flags := (case f_flags d of Some p \<Rightarrow> merge_flags (flags n) p | None \<Rightarrow> flags n)\<rparr>"

fun applyOp :: "tree_flat_map \<Rightarrow> tree_op \<Rightarrow> tree_flat_map option" where
  "applyOp m (NodeUpsert n) = Some (js_set (nid n) n m)"
| "applyOp m (NodeRemove i) =
     (case loadedDescendants m i of
        None \<Rightarrow> None
      | Some ids \<Rightarrow> Some (js_delete i (js_delete_all ids m)))"
| "applyOp m (NodeMove i np) =
     (case js_get m i of
        None \<Rightarrow> Some m
      | Some n \<Rightarrow> Some (js_set i (n\<lparr>parentId := np\<rparr>) m))"
| "applyOp m (NodeChildren p nodes hasMore cursor) =
     (let m' = fold (\<lambda>c acc. js_set (nid c) c acc) nodes m
      in case js_get m' p of
           Some parent \<Rightarrow> Some (if \<not> hasMore then js_set p (parent\<lparr>loaded := True\<rparr>) m' else m')
         | None \<Rightarrow> Some m')"
| "applyOp m (NodeFacet i d) =
     (case js_get m i of
        None \<Rightarrow> Some m
      | Some n \<Rightarrow> Some (js_set i (merge_facet n d) m))"

definition applyOps :: "tree_flat_map \<Rightarrow> tree_op list \<Rightarrow> tree_flat_map option" where
  "applyOps m ops = run_opt applyOp m ops"

text \<open>\<open>prot\<close> is the optional set of protected ids; the first walked id is the node itself.\<close>

definition collapseNode :: "tree_flat_map \<Rightarrow> string \<Rightarrow> string list option \<Rightarrow> tree_flat_map option" where
  "collapseNode m i prot =
     (case js_get m i of
        None \<Rightarrow> Some m
      | Some node \<Rightarrow>
          (case loadedDescendants m i of
             None \<Rightarrow> None
           | Some ids \<Rightarrow>
               Some (js_set i (node\<lparr>loaded := False\<rparr>)
                 (fold (\<lambda>d acc. if (case prot of Some ps \<Rightarrow> d \<in> set ps | None \<Rightarrow> False) then acc
                                else js_delete d acc) (drop 1 ids) m))))"

definition childrenIndex :: "tree_flat_map \<Rightarrow> (string option, tree_node list) jsmap" where
  "childrenIndex m = fold (\<lambda>n. bucket_push (parentId n) n) (js_values m) []"

definition rootNodes :: "tree_flat_map \<Rightarrow> tree_node list" where
  "rootNodes m = filter (\<lambda>n. parentId n = None) (js_values m)"

section \<open>Well-formed maps\<close>

text \<open>Every entry sits under its own id, and every id occurs once.\<close>

definition tm_wf :: "tree_flat_map \<Rightarrow> bool" where
  "tm_wf m \<longleftrightarrow> js_wf m \<and> (\<forall>k n. js_get m k = Some n \<longrightarrow> nid n = k)"

lemma tm_wf_js_wf [dest]: "tm_wf m \<Longrightarrow> js_wf m"
  by (simp add: tm_wf_def)

lemma tm_wf_nid [dest]: "tm_wf m \<Longrightarrow> js_get m k = Some n \<Longrightarrow> nid n = k"
  by (simp add: tm_wf_def)

lemma tm_wf_Nil [simp, intro]: "tm_wf []"
  by (simp add: tm_wf_def)

lemma tm_wf_set [intro, step_inv]: "tm_wf m \<Longrightarrow> nid n = k \<Longrightarrow> tm_wf (js_set k n m)"
  by (auto simp: tm_wf_def)

lemma tm_wf_delete [intro, step_inv]: "tm_wf m \<Longrightarrow> tm_wf (js_delete k m)"
  by (auto simp: tm_wf_def split: if_splits)

lemma tm_wf_delete_all [intro, step_inv]: "tm_wf m \<Longrightarrow> tm_wf (js_delete_all ks m)"
  by (auto simp: tm_wf_def split: if_splits)

lemma tm_wf_fold_set [intro, step_inv]: "tm_wf m \<Longrightarrow> tm_wf (fold (\<lambda>c. js_set (nid c) c) cs m)"
  by (induction cs arbitrary: m) auto

lemma tm_wf_seedTree [intro]: "tm_wf (seedTree nodes)"
  by (simp add: seedTree_def tm_wf_fold_set)

lemma tm_values_iff: "tm_wf m \<Longrightarrow> n \<in> set (js_values m) \<longleftrightarrow> js_get m (nid n) = Some n"
  by (auto simp: js_values_iff tm_wf_js_wf dest: tm_wf_nid)

lemma map_nid_values: "tm_wf m \<Longrightarrow> map nid (js_values m) = js_keys m"
proof -
  assume wf: "tm_wf m"
  then have "\<forall>(k, n) \<in> set m. nid n = k"
    by (auto simp: js_entry_iff tm_wf_js_wf)
  then show ?thesis by (induction m) (auto simp: js_values_def js_keys_def)
qed

lemma distinct_nid_values: "tm_wf m \<Longrightarrow> distinct (map nid (js_values m))"
  by (simp add: map_nid_values js_wf_keys [symmetric] tm_wf_js_wf)

lemma distinct_values: "tm_wf m \<Longrightarrow> distinct (js_values m)"
  using distinct_nid_values distinct_map by blast

lemma get_fold_set_absent:
  "k \<notin> nid ` set cs \<Longrightarrow> js_get (fold (\<lambda>c. js_set (nid c) c) cs m) k = js_get m k"
  by (induction cs arbitrary: m) auto

lemma get_fold_set_present:
  "distinct (map nid cs) \<Longrightarrow> c \<in> set cs \<Longrightarrow>
    js_get (fold (\<lambda>c. js_set (nid c) c) cs m) (nid c) = Some c"
  by (induction cs arbitrary: m) (auto simp: get_fold_set_absent)

lemma get_fold_set_cases:
  "js_get (fold (\<lambda>c. js_set (nid c) c) cs m) k = Some n \<Longrightarrow>
    n \<in> set cs \<and> nid n = k \<or> k \<notin> nid ` set cs \<and> js_get m k = Some n"
proof (induction cs arbitrary: m)
  case (Cons c cs)
  then show ?case by (fastforce split: if_splits)
qed simp

lemma get_fold_set_ids:
  "js_get (fold (\<lambda>c. js_set (nid c) c) cs m) k \<noteq> None \<longleftrightarrow> k \<in> nid ` set cs \<or> js_get m k \<noteq> None"
  by (induction cs arbitrary: m) auto

section \<open>The breadth-first walk, level by level\<close>

text \<open>
  One round of the queue replaces the queued ids by all their children, so the walk is
  the concatenation of the levels below its start: it returns as soon as one level is
  empty, and never if none is.
\<close>

fun level :: "('a \<Rightarrow> 'a list) \<Rightarrow> nat \<Rightarrow> 'a list \<Rightarrow> 'a list" where
  "level k 0 xs = xs"
| "level k (Suc n) xs = level k n (concat (map k xs))"

lemma level_Nil [simp]: "level k n [] = []"
  by (induction n) auto

lemma level_append: "level k n (xs @ ys) = level k n xs @ level k n ys"
  by (induction n arbitrary: xs ys) auto

lemma level_Suc_right: "level k (Suc n) xs = concat (map k (level k n xs))"
  by (induction n arbitrary: xs) auto

lemma set_level: "x \<in> set (level k n ys) \<longleftrightarrow> (\<exists>y \<in> set ys. (x, y) \<in> {(c, p). c \<in> set (k p)} ^^ n)"
proof (induction n arbitrary: x)
  case (Suc n)
  have "x \<in> set (level k (Suc n) ys) \<longleftrightarrow> (\<exists>z \<in> set (level k n ys). x \<in> set (k z))"
    by (auto simp only: level_Suc_right set_concat set_map)
  also have "\<dots> \<longleftrightarrow> (\<exists>y \<in> set ys. (x, y) \<in> {(c, p). c \<in> set (k p)} O {(c, p). c \<in> set (k p)} ^^ n)"
    by (force simp: Suc.IH relcomp_unfold)
  finally show ?case by (simp only: relpow.simps relpow_commute [symmetric])
qed auto

lemma bfs_queue:
  "bfs ch (xs @ ys) out = bfs ch (ys @ concat (map (bucket ch) xs)) (out @ xs)"
proof (induction xs arbitrary: ys out)
  case (Cons x xs)
  have "bfs ch ((x # xs) @ ys) out = bfs ch (xs @ (ys @ bucket ch x)) (out @ [x])"
    by (simp add: bfs.simps [of ch "x # _"] bucket_def split: option.splits)
  also have "\<dots> = bfs ch ((ys @ bucket ch x) @ concat (map (bucket ch) xs)) ((out @ [x]) @ xs)"
    by (rule Cons.IH)
  finally show ?case by simp
qed simp

lemma bfs_levels:
  "bfs ch xs out = bfs ch (level (bucket ch) n xs)
     (out @ concat (map (\<lambda>i. level (bucket ch) i xs) [0..<n]))"
proof (induction n arbitrary: xs out)
  case (Suc n)
  have upt: "[0..<Suc n] = 0 # map Suc [0..<n]"
    by (simp only: map_Suc_upt upt_conv_Cons [OF zero_less_Suc])
  have "bfs ch xs out = bfs ch (concat (map (bucket ch) xs)) (out @ xs)"
    using bfs_queue [of ch xs "[]" out] by simp
  also have "\<dots> = bfs ch (level (bucket ch) (Suc n) xs)
      ((out @ xs) @ concat (map (\<lambda>i. level (bucket ch) i (concat (map (bucket ch) xs))) [0..<n]))"
    using Suc.IH [of "concat (map (bucket ch) xs)" "out @ xs"] by simp
  finally show ?case unfolding upt by (simp add: comp_def)
qed simp

lemma bfs_returns:
  "level (bucket ch) n xs = [] \<Longrightarrow>
    bfs ch xs out = Some (out @ concat (map (\<lambda>i. level (bucket ch) i xs) [0..<n]))"
  by (subst bfs_levels [of _ _ _ n]) (simp add: bfs.simps)

lemma bfs_some_level_empty:
  assumes ret: "bfs ch q out = Some r"
  shows "\<exists>n. level (bucket ch) n q = []"
proof (rule bfs.raw_induct [where P = "\<lambda>ch q out r. \<exists>n. level (bucket ch) n q = []", OF _ ret])
  fix f ch q out r
  assume IH: "\<And>ch q out r. f ch q out = Some r \<Longrightarrow> \<exists>n. level (bucket ch) n q = []"
    and eq: "(case q of [] \<Rightarrow> Some out
      | cur # rest \<Rightarrow> f ch (case js_get ch cur of Some kids \<Rightarrow> rest @ kids | None \<Rightarrow> rest) (out @ [cur])) = Some r"
  show "\<exists>n. level (bucket ch) n q = []"
  proof (cases q)
    case Nil
    then show ?thesis by (intro exI [of _ 0]) simp
  next
    case (Cons cur rest)
    have "(case js_get ch cur of Some kids \<Rightarrow> rest @ kids | None \<Rightarrow> rest) = rest @ bucket ch cur"
      by (simp add: bucket_def split: option.splits)
    with eq Cons have "f ch (rest @ bucket ch cur) (out @ [cur]) = Some r"
      by simp
    then obtain n where "level (bucket ch) n (rest @ bucket ch cur) = []"
      using IH by blast
    then have "level (bucket ch) (Suc n) rest = []" and "level (bucket ch) n (bucket ch cur) = []"
      by (simp_all only: level_append level_Suc_right append_is_Nil_conv) simp_all
    then have "level (bucket ch) (Suc n) q = []"
      using Cons by (simp add: level_append)
    then show ?thesis ..
  qed
qed

lemma bfs_returns_iff: "bfs ch q out \<noteq> None \<longleftrightarrow> (\<exists>n. level (bucket ch) n q = [])"
  using bfs_returns bfs_some_level_empty by fastforce

section \<open>The parent relation\<close>

definition parent_rel :: "tree_flat_map \<Rightarrow> (string \<times> string) set" where
  "parent_rel m = {(c, p). \<exists>n. js_get m c = Some n \<and> parentId n = Some p}"

lemma parent_relI: "js_get m c = Some n \<Longrightarrow> parentId n = Some p \<Longrightarrow> (c, p) \<in> parent_rel m"
  by (auto simp: parent_rel_def)

lemma single_valued_parent_rel: "single_valued (parent_rel m)"
  by (auto simp: single_valued_def parent_rel_def)

lemma parent_rel_resident: "(c, p) \<in> parent_rel m \<Longrightarrow> c \<in> set (js_keys m)"
  by (auto simp: parent_rel_def js_keys_iff)

lemma bucket_children_of:
  "bucket (children_of m) p = map nid (filter (\<lambda>n. parentId n = Some p) (js_values m))"
proof -
  have "bucket (fold (\<lambda>n acc. case parentId n of None \<Rightarrow> acc | Some p \<Rightarrow> bucket_push p (nid n) acc) xs acc) p
      = bucket acc p @ map nid (filter (\<lambda>n. parentId n = Some p) xs)"
    for xs :: "tree_node list" and acc
    by (induction xs arbitrary: acc) (auto split: option.splits)
  then show ?thesis by (simp add: children_of_def)
qed

lemma children_rel: "tm_wf m \<Longrightarrow> {(c, p). c \<in> set (bucket (children_of m) p)} = parent_rel m"
  by (force simp: bucket_children_of parent_rel_def tm_values_iff)

lemma set_level_children:
  "tm_wf m \<Longrightarrow> x \<in> set (level (bucket (children_of m)) n [i]) \<longleftrightarrow> (x, i) \<in> parent_rel m ^^ n"
  by (simp add: set_level children_rel)

lemma single_valued_relpow_split:
  assumes "single_valued R" and "(y, a) \<in> R ^^ p" and "(y, b) \<in> R ^^ (p + q)"
  shows "(a, b) \<in> R ^^ q"
  using assms(2,3)
proof (induction p arbitrary: y)
  case (Suc p)
  from Suc.prems obtain z w where "(y, z) \<in> R" "(z, a) \<in> R ^^ p" "(y, w) \<in> R" "(w, b) \<in> R ^^ (p + q)"
    by (metis add_Suc relpow_Suc_E2)
  then show ?case using Suc.IH assms(1) by (auto dest: single_valuedD)
qed simp

lemma on_cycle_iff: "(i, i) \<in> R\<^sup>+ \<longleftrightarrow> (\<exists>n. (i, i) \<in> R ^^ Suc n)"
  unfolding trancl_power by (metis gr0_conv_Suc zero_less_Suc)

lemma level_index_unique:
  assumes acyc: "(i, i) \<notin> R\<^sup>+" and sv: "single_valued R"
    and x: "(x, i) \<in> R ^^ a" "(x, i) \<in> R ^^ b"
  shows "a = b"
proof -
  have "\<not> a < b" if "(x, i) \<in> R ^^ a" "(x, i) \<in> R ^^ b" for a b
  proof
    assume "a < b"
    then obtain d where "b = Suc (a + d)" using less_imp_Suc_add by blast
    then have b: "b = a + Suc d" by simp
    from that have "(x, i) \<in> R ^^ a" "(x, i) \<in> R ^^ (a + Suc d)" unfolding b .
    then have "(i, i) \<in> R ^^ Suc d"
      by (rule single_valued_relpow_split [OF sv])
    then have "(i, i) \<in> R\<^sup>+" unfolding on_cycle_iff ..
    with acyc show False ..
  qed
  from this [OF x] this [OF x(2,1)] show ?thesis by simp
qed

text \<open>A walk off the cycles runs out of levels: the levels are disjoint sets of resident ids.\<close>

lemma off_cycle_level_empty:
  assumes wf: "tm_wf m" and acyc: "(i, i) \<notin> (parent_rel m)\<^sup>+"
  shows "\<exists>n. level (bucket (children_of m)) n [i] = []"
proof (rule ccontr)
  assume "\<not> ?thesis"
  then have "\<forall>n. \<exists>x. (x, i) \<in> parent_rel m ^^ n"
    using set_level_children [OF wf] by (metis list.set_intros(1) neq_Nil_conv)
  then obtain x where x: "\<And>n. (x n, i) \<in> parent_rel m ^^ n" by metis
  have "inj x"
    by (rule injI) (metis level_index_unique [OF acyc single_valued_parent_rel] x)
  moreover have "range (\<lambda>n. x (Suc n)) \<subseteq> set (js_keys m)"
    using x by (fastforce elim: relpow_Suc_E2 dest: parent_rel_resident)
  moreover have "inj (\<lambda>n. x (Suc n))"
    using \<open>inj x\<close> by (auto simp: inj_def)
  ultimately show False
    using finite_subset [of "range (\<lambda>n. x (Suc n))" "set (js_keys m)"]
      finite_imageD [of "\<lambda>n. x (Suc n)" UNIV] by auto
qed

lemma on_cycle_level_nonempty:
  assumes wf: "tm_wf m" and cyc: "(i, i) \<in> (parent_rel m)\<^sup>+"
  shows "level (bucket (children_of m)) n [i] \<noteq> []"
proof -
  have "\<exists>z. (z, i) \<in> parent_rel m ^^ n \<and> (i, z) \<in> (parent_rel m)\<^sup>*"
  proof (induction n)
    case (Suc n)
    then obtain z where z: "(z, i) \<in> parent_rel m ^^ n" "(i, z) \<in> (parent_rel m)\<^sup>*" by blast
    with cyc have "(i, z) \<in> (parent_rel m)\<^sup>+" by simp
    then obtain w where "(i, w) \<in> (parent_rel m)\<^sup>*" "(w, z) \<in> parent_rel m"
      by (blast dest: tranclD2)
    with z(1) show ?case by (blast intro: relpow_Suc_I2)
  qed auto
  then obtain z where "(z, i) \<in> parent_rel m ^^ n" by blast
  with set_level_children [OF wf, of z n i] show ?thesis by auto
qed

section \<open>What \<open>loadedDescendants\<close> returns, and when\<close>

text \<open>The loaded subtree of \<open>i\<close>: the ids whose chain of resident parents leads to \<open>i\<close>.\<close>

definition subtree :: "tree_flat_map \<Rightarrow> string \<Rightarrow> string set" where
  "subtree m i = {d. (d, i) \<in> (parent_rel m)\<^sup>*}"

definition on_cycle :: "tree_flat_map \<Rightarrow> string \<Rightarrow> bool" where
  "on_cycle m i \<longleftrightarrow> (i, i) \<in> (parent_rel m)\<^sup>+"

lemma on_cycle_resident: "on_cycle m i \<Longrightarrow> js_get m i \<noteq> None"
  unfolding on_cycle_def by (auto dest!: tranclD parent_rel_resident simp: js_keys_iff)

lemma loadedDescendants_returns:
  assumes wf: "tm_wf m"
  shows "loadedDescendants m i = None \<longleftrightarrow> on_cycle m i"
proof (cases "js_get m i")
  case None
  then show ?thesis using on_cycle_resident [of m i] by (auto simp: loadedDescendants_def)
next
  case (Some n)
  then show ?thesis
    using off_cycle_level_empty [OF wf] on_cycle_level_nonempty [OF wf]
      bfs_returns_iff [of "children_of m" "[i]" "[]"]
    by (auto simp: loadedDescendants_def on_cycle_def)
qed

lemma distinct_level:
  assumes wf: "tm_wf m"
  shows "distinct (level (bucket (children_of m)) n [i])"
proof (induction n)
  case (Suc n)
  have "distinct (bucket (children_of m) p)" for p
    using distinct_nid_values [OF wf]
    by (auto simp: bucket_children_of distinct_map intro: inj_on_subset)
  moreover have "set (bucket (children_of m) p) \<inter> set (bucket (children_of m) q) = {}" if "p \<noteq> q" for p q
    using children_rel [OF wf] single_valued_parent_rel [of m] that
    by (auto simp: single_valued_def)
  ultimately show ?case
    unfolding level_Suc_right by (intro distinct_concat_map Suc.IH) auto
qed simp

lemma loadedDescendants_correct:
  assumes wf: "tm_wf m" and res: "js_get m i \<noteq> None" and ret: "loadedDescendants m i = Some ids"
  shows "distinct ids" and "set ids = subtree m i" and "ids \<noteq> []" and "hd ids = i"
proof -
  let ?lev = "\<lambda>n. level (bucket (children_of m)) n [i]"
  have acyc: "(i, i) \<notin> (parent_rel m)\<^sup>+"
    using loadedDescendants_returns [OF wf, of i] ret by (auto simp: on_cycle_def)
  then obtain n where n: "?lev n = []" using off_cycle_level_empty [OF wf] by blast
  then have ids: "ids = concat (map ?lev [0..<n])"
    using bfs_returns [of "children_of m" n "[i]" "[]"] res ret by (simp add: loadedDescendants_def)
  have lev: "x \<in> set (?lev k) \<longleftrightarrow> (x, i) \<in> parent_rel m ^^ k" for x k
    by (rule set_level_children [OF wf])
  show "distinct ids"
    unfolding ids
    by (rule distinct_concat_map)
      (use distinct_level [OF wf] lev level_index_unique [OF acyc single_valued_parent_rel] in \<open>auto\<close>)
  have beyond: "?lev k = []" if "n \<le> k" for k
    using that n by (induction k rule: dec_induct) (simp_all only: level_Suc_right, simp_all)
  have "set ids = (\<Union>k. set (?lev k))"
    unfolding ids by (auto simp: Bex_def) (metis beyond empty_iff list.set(1) not_less)
  then show "set ids = subtree m i"
    by (auto simp: lev subtree_def rtrancl_power)
  have "n \<noteq> 0" using n by (cases n) auto
  then have "ids = i # concat (map ?lev [1..<n])"
    unfolding ids by (simp add: upt_conv_Cons)
  then show "ids \<noteq> []" and "hd ids = i" by auto
qed

lemma loadedDescendants_absent [simp]: "js_get m i = None \<Longrightarrow> loadedDescendants m i = Some []"
  by (simp add: loadedDescendants_def)

lemma subtree_self [simp]: "i \<in> subtree m i"
  by (simp add: subtree_def)

section \<open>Every operation keeps the map well formed\<close>

lemma applyOp_wf [step_inv]: "tm_wf m \<Longrightarrow> applyOp m op = Some m' \<Longrightarrow> tm_wf m'"
proof (cases op)
  case (NodeChildren p ns more c)
  assume wf: "tm_wf m" and ret: "applyOp m op = Some m'"
  have "tm_wf (fold (\<lambda>c. js_set (nid c) c) ns m)" using wf by (rule tm_wf_fold_set)
  with ret NodeChildren show ?thesis
    by (auto simp: Let_def split: option.splits if_splits intro!: tm_wf_set dest: tm_wf_nid)
qed (auto simp: merge_facet_def split: option.splits intro!: tm_wf_set tm_wf_delete tm_wf_delete_all dest: tm_wf_nid)

interpretation tree_ops: partial_machine applyOp tm_wf
  by unfold_locales (rule applyOp_wf)

lemma applyOps_wf: "tm_wf m \<Longrightarrow> applyOps m ops = Some m' \<Longrightarrow> tm_wf m'"
  unfolding applyOps_def by (rule tree_ops.run_preserves)

section \<open>The contract: operations on an unordered view\<close>

text \<open>
  What the operations promise (the design's section 7.2), said of the resident nodes as a
  partial function, with no order, no adjacency and no queue.
\<close>

type_synonym tree_view = "string \<rightharpoonup> tree_node"

definition view_rel :: "tree_view \<Rightarrow> (string \<times> string) set" where
  "view_rel M = {(c, p). \<exists>n. M c = Some n \<and> parentId n = Some p}"

definition mark_loaded :: "string \<Rightarrow> tree_view \<Rightarrow> tree_view" where
  "mark_loaded p M = M(p := map_option (\<lambda>n. n\<lparr>loaded := True\<rparr>) (M p))"

fun spec_op :: "tree_view \<Rightarrow> tree_op \<Rightarrow> tree_view option" where
  "spec_op M (NodeUpsert n) = Some (M(nid n \<mapsto> n))"
| "spec_op M (NodeRemove i) =
     (if M i = None then Some M
      else if (i, i) \<in> (view_rel M)\<^sup>+ then None
      else Some (M |` (- {d. (d, i) \<in> (view_rel M)\<^sup>*})))"
| "spec_op M (NodeMove i np) = Some (M(i := map_option (\<lambda>n. n\<lparr>parentId := np\<rparr>) (M i)))"
| "spec_op M (NodeChildren p nodes hasMore cursor) =
     (let M' = M ++ map_of (rev (map (\<lambda>n. (nid n, n)) nodes))
      in Some (if hasMore then M' else mark_loaded p M'))"
| "spec_op M (NodeFacet i d) = Some (M(i := map_option (\<lambda>n. merge_facet n d) (M i)))"

lemma parent_rel_view: "parent_rel m = view_rel (js_get m)"
  by (simp add: parent_rel_def view_rel_def)

lemma get_fold_set:
  "js_get (fold (\<lambda>c. js_set (nid c) c) ns m) = js_get m ++ map_of (rev (map (\<lambda>n. (nid n, n)) ns))"
proof -
  have "fold (\<lambda>c. js_set (nid c) c) ns m = js_set_all (map (\<lambda>n. (nid n, n)) ns) m"
    by (simp add: js_set_all_def fold_map comp_def)
  then show ?thesis by (auto simp: js_get_set_all map_add_def split: option.splits)
qed

lemma applyOp_refines:
  assumes wf: "tm_wf m"
  shows "map_option js_get (applyOp m op) = spec_op (js_get m) op"
proof (cases op)
  case (NodeRemove i)
  show ?thesis
  proof (cases "js_get m i = None \<or> loadedDescendants m i = None")
    case True
    then show ?thesis
      using NodeRemove loadedDescendants_returns [OF wf, of i] on_cycle_resident [of m i]
      by (auto simp: on_cycle_def parent_rel_view js_delete_all_def js_delete_absent)
  next
    case False
    then obtain ids where ids: "loadedDescendants m i = Some ids" "js_get m i \<noteq> None" by auto
    then have "set ids = {d. (d, i) \<in> (view_rel (js_get m))\<^sup>*}"
      using loadedDescendants_correct(2) [OF wf] by (simp add: subtree_def parent_rel_view)
    moreover have "(i, i) \<notin> (view_rel (js_get m))\<^sup>+"
      using loadedDescendants_returns [OF wf, of i] ids by (simp add: on_cycle_def parent_rel_view)
    ultimately show ?thesis
      using NodeRemove ids by (auto simp: restrict_map_def fun_eq_iff)
  qed
next
  case (NodeChildren p ns more c)
  then show ?thesis
    by (auto simp: Let_def get_fold_set mark_loaded_def fun_eq_iff map_add_def split: option.splits)
qed (auto simp: fun_eq_iff split: option.splits)

lemma applyOps_refines_run:
  "tm_wf m \<Longrightarrow> map_option js_get (run_opt applyOp m ops) = run_opt spec_op (js_get m) ops"
proof (induction ops arbitrary: m)
  case (Cons op ops)
  then show ?case
    using applyOp_refines [OF Cons.prems, of op]
    by (cases "applyOp m op") (auto split: option.splits dest: applyOp_wf)
qed simp

section \<open>Collapse and grouping\<close>

lemma fold_delete_unprotected:
  "js_get (fold (\<lambda>d acc. if P d then acc else js_delete d acc) ds m) k =
     (if k \<in> set ds \<and> \<not> P k then None else js_get m k)"
  by (induction ds arbitrary: m) auto

lemma wf_fold_delete_unprotected:
  "tm_wf m \<Longrightarrow> tm_wf (fold (\<lambda>d acc. if P d then acc else js_delete d acc) ds m)"
  by (induction ds arbitrary: m) (auto intro: tm_wf_delete)

definition is_protected :: "string list option \<Rightarrow> string \<Rightarrow> bool" where
  "is_protected prot d = (case prot of Some ps \<Rightarrow> d \<in> set ps | None \<Rightarrow> False)"

lemma collapseNode_wf [step_inv]: "tm_wf m \<Longrightarrow> collapseNode m i prot = Some m' \<Longrightarrow> tm_wf m'"
  by (auto simp: collapseNode_def split: option.splits intro!: tm_wf_set wf_fold_delete_unprotected dest: tm_wf_nid)

lemma collapseNode_get:
  assumes wf: "tm_wf m" and node: "js_get m i = Some node" and ret: "collapseNode m i prot = Some m'"
  shows "js_get m' k =
    (if k = i then Some (node\<lparr>loaded := False\<rparr>)
     else if k \<in> subtree m i \<and> \<not> is_protected prot k then None else js_get m k)"
proof -
  from node ret obtain ids where ids: "loadedDescendants m i = Some ids"
    by (auto simp: collapseNode_def split: option.splits)
  note c = loadedDescendants_correct [OF wf _ ids]
  then obtain rest where "ids = i # rest" using node by (cases ids) auto
  with c node have "set (drop 1 ids) = subtree m i - {i}" by auto
  moreover have "m' = js_set i (node\<lparr>loaded := False\<rparr>)
      (fold (\<lambda>d acc. if is_protected prot d then acc else js_delete d acc) (drop 1 ids) m)"
    using node ret ids by (simp add: collapseNode_def is_protected_def)
  ultimately show ?thesis
    by (simp add: fold_delete_unprotected)
qed

lemma collapseNode_returns:
  "tm_wf m \<Longrightarrow> collapseNode m i prot = None \<longleftrightarrow> on_cycle m i"
  using on_cycle_resident [of m i]
  by (cases "js_get m i")
    (auto simp: collapseNode_def loadedDescendants_returns [symmetric] split: option.splits)

lemma bucket_childrenIndex:
  "bucket (childrenIndex m) p = filter (\<lambda>n. parentId n = p) (js_values m)"
  using bucket_fold_push [of parentId "\<lambda>n. n" "js_values m" "[]" p] by (simp add: childrenIndex_def)

lemma rootNodes_bucket: "rootNodes m = bucket (childrenIndex m) None"
  by (simp add: rootNodes_def bucket_childrenIndex)

end
