(* ===== verification/TreeSelectors.thy ===== *)
theory TreeSelectors
  imports TreeMap "HOL-Library.Product_Lexorder"
begin

text \<open>
  \<^verbatim>\<open>web/src/sync/treeSelectors.ts\<close>, the selectors over the flat map: the pinned group with
  its removal of nested pins, search, the path to the selected session, the \<open>working\<close>
  predicate with the two automatic mode transitions, the display mode and the children a
  display mode shows. Its label selectors are in \<open>LabelSelectors\<close>.

  The upward walks are capped at 10000 steps. The lemmas show that the cap is never
  observed on a map of at most 10000 nodes, whether or not it has parent cycles.
\<close>

section \<open>Upward walks\<close>

definition up :: "tree_flat_map \<Rightarrow> string \<Rightarrow> string option" where
  "up m c = (case js_get m c of Some n \<Rightarrow> parentId n | None \<Rightarrow> None)"

definition depth_cap :: nat where
  "depth_cap = 10000"

function pinned_walk :: "tree_flat_map \<Rightarrow> string list \<Rightarrow> nat \<Rightarrow> string option \<Rightarrow> bool" where
  "pinned_walk m pins i cur =
     (if i < depth_cap
      then (case cur of
              None \<Rightarrow> False
            | Some c \<Rightarrow> if c \<in> set pins then True else pinned_walk m pins (i + 1) (up m c))
      else False)"
  by pat_completeness auto
termination
  by (relation "measure (\<lambda>(m, pins, i, cur). depth_cap - i)") auto

declare pinned_walk.simps [simp del]

definition hasPinnedAncestor :: "tree_flat_map \<Rightarrow> string \<Rightarrow> string list \<Rightarrow> bool" where
  "hasPinnedAncestor m i pins = pinned_walk m pins 0 (up m i)"

definition selectPinnedNodes :: "tree_flat_map \<Rightarrow> string list \<Rightarrow> tree_node list" where
  "selectPinnedNodes m order =
     List.map_filter (\<lambda>i. case js_get m i of
         None \<Rightarrow> None
       | Some n \<Rightarrow> if hasPinnedAncestor m i order then None else Some n) order"

function path_walk :: "tree_flat_map \<Rightarrow> nat \<Rightarrow> string option \<Rightarrow> string list \<Rightarrow> string list" where
  "path_walk m i cur out =
     (if i < depth_cap
      then (case cur of
              None \<Rightarrow> out
            | Some c \<Rightarrow> path_walk m (i + 1) (up m c) (if c \<in> set out then out else out @ [c]))
      else out)"
  by pat_completeness auto
termination
  by (relation "measure (\<lambda>(m, i, cur, out). depth_cap - i)") auto

declare path_walk.simps [simp del]

text \<open>The selection is \<open>None\<close> for null; the empty id selects nothing either.\<close>

definition selectedPathIds :: "tree_flat_map \<Rightarrow> string option \<Rightarrow> string list" where
  "selectedPathIds m sel =
     (case sel of
        None \<Rightarrow> []
      | Some i \<Rightarrow> if i = [] then [] else if \<not> js_has m i then [] else path_walk m 0 (Some i) [])"

definition strictAncestors :: "tree_flat_map \<Rightarrow> string option \<Rightarrow> string list" where
  "strictAncestors m sel =
     (case sel of
        None \<Rightarrow> selectedPathIds m sel
      | Some i \<Rightarrow> if i = [] then selectedPathIds m sel
                  else filter (\<lambda>x. x \<noteq> i) (selectedPathIds m sel))"

section \<open>Search\<close>

text \<open>\<^verbatim>\<open>`${n.title || n.id}\u{0}${n.id}\u{0}${n.agent ?? ""}`\<close>, in lower case\<close>

definition search_hay :: "tree_node \<Rightarrow> string" where
  "search_hay n = to_lower
     ((if title n \<noteq> [] then title n else nid n) @ [CHR 0x00] @ nid n @ [CHR 0x00] @
      (case agent n of Some a \<Rightarrow> a | None \<Rightarrow> []))"

definition search_cmp :: "(string \<Rightarrow> bool) \<Rightarrow> tree_node \<Rightarrow> tree_node \<Rightarrow> int" where
  "search_cmp isPinned a b =
     (let pa = (if isPinned (nid a) then 0 else 1); pb = (if isPinned (nid b) then 0 else 1)
      in if pa \<noteq> pb then pa - pb else updatedMs b - updatedMs a)"

definition selectSearchResults ::
  "tree_flat_map \<Rightarrow> string \<Rightarrow> (string \<Rightarrow> bool) \<Rightarrow> tree_node list option" where
  "selectSearchResults m query isPinned =
     (let q = to_lower (trim query)
      in if q = [] then None
         else Some (js_sort (search_cmp isPinned)
           (filter (\<lambda>n. str_includes (search_hay n) q) (js_values m))))"

section \<open>Working nodes and display modes\<close>

definition working :: "tree_node \<Rightarrow> bool" where
  "working n \<longleftrightarrow> activity n = ActBusy \<or> activity n = ActRetry \<or>
     subtreeBusy (flags n) = Some True \<or> subtreeNeedsInput (flags n)"

definition activityEstablished :: "tree_node \<Rightarrow> bool" where
  "activityEstablished n \<longleftrightarrow> activity n \<noteq> ActUnset"

datatype tree_mode = Collapsed | Filtered | Expanded

datatype effective_mode = Persisted tree_mode | Temp

definition autoTreeModeForWorkingTransition :: "bool \<Rightarrow> bool \<Rightarrow> tree_mode \<Rightarrow> tree_mode option" where
  "autoTreeModeForWorkingTransition prev cur mode =
     (if \<not> prev \<and> cur \<and> mode = Collapsed then Some Filtered
      else if prev \<and> \<not> cur \<and> mode = Filtered then Some Collapsed
      else None)"

definition effectiveTreeMode ::
  "string \<Rightarrow> tree_mode \<Rightarrow> string list \<Rightarrow> string list \<Rightarrow> effective_mode" where
  "effectiveTreeMode i mode selectedAncestors toggled =
     (if mode \<noteq> Expanded \<and> i \<in> set selectedAncestors \<and> i \<notin> set toggled then Temp
      else Persisted mode)"

fun childrenForState ::
  "effective_mode \<Rightarrow> tree_node list \<Rightarrow> (tree_node \<Rightarrow> bool) \<Rightarrow> string list \<Rightarrow> tree_node list" where
  "childrenForState (Persisted Collapsed) kids w path = []"
| "childrenForState (Persisted Filtered) kids w path = filter w kids"
| "childrenForState Temp kids w path =
     (case List.find (\<lambda>k. nid k \<in> set path) kids of Some c \<Rightarrow> [c] | None \<Rightarrow> [])"
| "childrenForState (Persisted Expanded) kids w path =
     (let (active, idle) = foldl (\<lambda>(act, idl) c. if w c then (act @ [c], idl) else (act, idl @ [c])) ([], []) kids
      in active @ idle)"

text \<open>
  The reference test \<^verbatim>\<open>a === b\<close> only shortcuts a comparison the rest decides the same way.
\<close>

definition sameChildIds :: "tree_node list \<Rightarrow> tree_node list \<Rightarrow> bool" where
  "sameChildIds a b \<longleftrightarrow> length a = length b \<and> list_all (\<lambda>n. nid n \<in> set (map nid a)) b"

definition hasKnownDescendants :: "tree_node \<Rightarrow> bool" where
  "hasKnownDescendants n \<longleftrightarrow>
     childCount n > 0 \<or> (case descendantCount n of Some d \<Rightarrow> d | None \<Rightarrow> 0) > 0"

section \<open>The cap on the upward walks\<close>

lemma up_iff: "up m c = Some p \<longleftrightarrow> (c, p) \<in> parent_rel m"
  by (auto simp: up_def parent_rel_def split: option.splits)

lemma up_relpow: "up m c = Some p \<Longrightarrow> (c, a) \<in> parent_rel m ^^ Suc k \<longleftrightarrow> (p, a) \<in> parent_rel m ^^ k"
  using single_valued_parent_rel [of m]
  by (auto simp: up_iff simp del: relpow.simps intro: relpow_Suc_I2 dest!: relpow_Suc_D2 dest: single_valuedD)

lemma up_None_relpow: "up m c = None \<Longrightarrow> (c, a) \<in> parent_rel m ^^ k \<longleftrightarrow> k = 0 \<and> a = c"
  by (cases k) (auto simp: up_iff [symmetric] simp del: relpow.simps(2) dest!: relpow_Suc_D2)

lemma pinned_walk_iff:
  "pinned_walk m pins i cur \<longleftrightarrow>
     (\<exists>c k a. cur = Some c \<and> i + k < depth_cap \<and> (c, a) \<in> parent_rel m ^^ k \<and> a \<in> set pins)"
proof (induction m pins i cur rule: pinned_walk.induct)
  case (1 m pins i cur)
  show ?case
  proof (cases "i < depth_cap \<and> cur \<noteq> None \<and> the cur \<notin> set pins")
    case False
    then consider "i \<ge> depth_cap" | "cur = None" | c where "i < depth_cap" "cur = Some c" "c \<in> set pins"
      by fastforce
    then show ?thesis
    proof cases
      case (3 c)
      then have "\<exists>k a. i + k < depth_cap \<and> (c, a) \<in> parent_rel m ^^ k \<and> a \<in> set pins"
        by (intro exI [of _ 0] exI [of _ c]) simp
      with 3 show ?thesis by (subst pinned_walk.simps) simp
    qed (subst pinned_walk.simps; simp)+
  next
    case True
    then obtain c where c: "cur = Some c" "i < depth_cap" "c \<notin> set pins" by auto
    have "pinned_walk m pins i cur \<longleftrightarrow> pinned_walk m pins (i + 1) (up m c)"
      using c by (subst pinned_walk.simps) simp
    also have "\<dots> \<longleftrightarrow> (\<exists>p k a. up m c = Some p \<and> i + 1 + k < depth_cap \<and> (p, a) \<in> parent_rel m ^^ k \<and> a \<in> set pins)"
      by (rule "1.IH") (use c in auto)
    also have "\<dots> \<longleftrightarrow> (\<exists>k a. i + Suc k < depth_cap \<and> (c, a) \<in> parent_rel m ^^ Suc k \<and> a \<in> set pins)"
      by (cases "up m c") (simp_all add: up_relpow up_None_relpow del: relpow.simps)
    also have "\<dots> \<longleftrightarrow> (\<exists>k a. i + k < depth_cap \<and> (c, a) \<in> parent_rel m ^^ k \<and> a \<in> set pins)"
      using c(3) by (metis (no_types, lifting) not0_implies_Suc relpow_0_E)
    finally show ?thesis using c by simp
  qed
qed

lemma hasPinnedAncestor_capped:
  "hasPinnedAncestor m i pins \<longleftrightarrow>
     (\<exists>k a. 0 < k \<and> k \<le> depth_cap \<and> (i, a) \<in> parent_rel m ^^ k \<and> a \<in> set pins)"
proof (cases "up m i")
  case None
  then show ?thesis
    by (auto simp: hasPinnedAncestor_def pinned_walk_iff up_None_relpow)
next
  case (Some p)
  have "(\<exists>k a. 0 < k \<and> k \<le> depth_cap \<and> (i, a) \<in> parent_rel m ^^ k \<and> a \<in> set pins)
      \<longleftrightarrow> (\<exists>k a. k < depth_cap \<and> (i, a) \<in> parent_rel m ^^ Suc k \<and> a \<in> set pins)"
    by (metis Suc_le_eq gr0_conv_Suc)
  then show ?thesis
    by (simp add: hasPinnedAncestor_def pinned_walk_iff Some up_relpow [OF Some] del: relpow.simps)
qed

lemma parent_rel_inj: "parent_rel m \<subseteq> (\<lambda>c. (c, the (up m c))) ` set (js_keys m)"
proof
  fix e
  assume "e \<in> parent_rel m"
  moreover obtain c p where "e = (c, p)" by (cases e)
  ultimately have "c \<in> set (js_keys m)" and "e = (c, the (up m c))"
    using parent_rel_resident up_iff [of m c p] by auto
  then show "e \<in> (\<lambda>c. (c, the (up m c))) ` set (js_keys m)" by blast
qed

lemma finite_parent_rel [simp]: "finite (parent_rel m)"
  by (rule finite_subset [OF parent_rel_inj]) simp

lemma card_parent_rel: "card (parent_rel m) \<le> length m"
proof -
  have "card (parent_rel m) \<le> card ((\<lambda>c. (c, the (up m c))) ` set (js_keys m))"
    by (rule card_mono [OF _ parent_rel_inj]) simp
  also have "\<dots> \<le> card (set (js_keys m))" by (rule card_image_le) simp
  also have "\<dots> \<le> length m" by (metis card_length js_keys_def length_map)
  finally show ?thesis .
qed

lemma parent_trancl_bounded:
  assumes "length m \<le> depth_cap"
  shows "(i, a) \<in> (parent_rel m)\<^sup>+ \<longleftrightarrow> (\<exists>k. 0 < k \<and> k \<le> depth_cap \<and> (i, a) \<in> parent_rel m ^^ k)"
proof
  assume "(i, a) \<in> (parent_rel m)\<^sup>+"
  then obtain k where "0 < k" "k \<le> card (parent_rel m)" "(i, a) \<in> parent_rel m ^^ k"
    unfolding trancl_finite_eq_relpow [OF finite_parent_rel] by blast
  moreover have "card (parent_rel m) \<le> depth_cap"
    using card_parent_rel assms by (rule le_trans)
  ultimately show "\<exists>k. 0 < k \<and> k \<le> depth_cap \<and> (i, a) \<in> parent_rel m ^^ k"
    using le_trans by blast
qed (auto simp: trancl_power)

lemma hasPinnedAncestor_iff:
  "length m \<le> depth_cap \<Longrightarrow>
    hasPinnedAncestor m i pins \<longleftrightarrow> (\<exists>a \<in> set pins. (i, a) \<in> (parent_rel m)\<^sup>+)"
  by (auto simp: hasPinnedAncestor_capped parent_trancl_bounded)

section \<open>The pinned group\<close>

lemma set_map_filter: "set (List.map_filter f xs) = {y. \<exists>x \<in> set xs. f x = Some y}"
  by (induction xs) (auto simp: List.map_filter_simps split: option.splits)

lemma selectPinnedNodes_mem:
  assumes "tm_wf m"
  shows "n \<in> set (selectPinnedNodes m order) \<longleftrightarrow>
    nid n \<in> set order \<and> js_get m (nid n) = Some n \<and> \<not> hasPinnedAncestor m (nid n) order"
proof -
  have "(\<exists>i \<in> set order. js_get m i = Some n \<and> \<not> hasPinnedAncestor m i order) \<longleftrightarrow>
      nid n \<in> set order \<and> js_get m (nid n) = Some n \<and> \<not> hasPinnedAncestor m (nid n) order"
    using assms by (metis tm_wf_nid)
  moreover have "(case js_get m i of None \<Rightarrow> None | Some n \<Rightarrow> if hasPinnedAncestor m i order then None else Some n) = Some n
      \<longleftrightarrow> js_get m i = Some n \<and> \<not> hasPinnedAncestor m i order" for i
    by (simp split: option.split)
  ultimately show ?thesis
    by (simp only: selectPinnedNodes_def set_map_filter mem_Collect_eq)
qed

lemma selectPinnedNodes_ids:
  assumes "tm_wf m"
  shows "map nid (selectPinnedNodes m order) =
    filter (\<lambda>i. js_get m i \<noteq> None \<and> \<not> hasPinnedAncestor m i order) order"
proof -
  have "map nid (List.map_filter (\<lambda>i. case js_get m i of None \<Rightarrow> None
          | Some n \<Rightarrow> if hasPinnedAncestor m i order then None else Some n) xs)
      = filter (\<lambda>i. js_get m i \<noteq> None \<and> \<not> hasPinnedAncestor m i order) xs" for xs
    using assms by (induction xs) (auto simp: List.map_filter_simps split: option.splits)
  then show ?thesis by (simp add: selectPinnedNodes_def)
qed

lemma distinct_selectPinnedNodes:
  "tm_wf m \<Longrightarrow> distinct order \<Longrightarrow> distinct (map nid (selectPinnedNodes m order))"
  by (simp add: selectPinnedNodes_ids)

text \<open>
  Off the cycles every resident pin is shown once: either it is selected, or a selected
  node lies above it. The parents must be resident: a pin below a pinned id that is not in
  the map is dropped without being shown anywhere.
\<close>

definition parents_resident :: "tree_flat_map \<Rightarrow> bool" where
  "parents_resident m \<longleftrightarrow> (\<forall>c p. (c, p) \<in> parent_rel m \<longrightarrow> js_get m p \<noteq> None)"

lemma trancl_resident:
  "parents_resident m \<Longrightarrow> (c, p) \<in> (parent_rel m)\<^sup>+ \<Longrightarrow> js_get m p \<noteq> None"
  by (auto simp: parents_resident_def dest!: tranclD2)

lemma pin_covered:
  assumes wf: "tm_wf m" and small: "length m \<le> depth_cap" and acyc: "acyclic (parent_rel m)"
    and closed: "parents_resident m" and pin: "i \<in> set order" and res: "js_get m i \<noteq> None"
  shows "\<exists>n \<in> set (selectPinnedNodes m order). i = nid n \<or> (i, nid n) \<in> (parent_rel m)\<^sup>+"
proof -
  have wf_up: "wf (((parent_rel m)\<inverse>)\<^sup>+)"
    using acyc by (intro wf_trancl) (simp add: finite_acyclic_wf acyclic_converse)
  show ?thesis
    using pin res
  proof (induction i rule: wf_induct_rule [OF wf_up])
    case (1 i)
    show ?case
    proof (cases "hasPinnedAncestor m i order")
      case True
      then obtain a where a: "a \<in> set order" "(i, a) \<in> (parent_rel m)\<^sup>+"
        using hasPinnedAncestor_iff [OF small] by blast
      then have "js_get m a \<noteq> None" and "(a, i) \<in> ((parent_rel m)\<inverse>)\<^sup>+"
        using trancl_resident [OF closed] by (auto simp: trancl_converse)
      with "1.IH" a(1) obtain n where
        "n \<in> set (selectPinnedNodes m order)" "a = nid n \<or> (a, nid n) \<in> (parent_rel m)\<^sup>+"
        by blast
      then show ?thesis using a(2) by (blast intro: trancl_trans)
    next
      case False
      from "1.prems"(2) obtain n where n: "js_get m i = Some n" by auto
      then have "nid n = i" using wf by auto
      with False n "1.prems" show ?thesis
        by (intro bexI [of _ n]) (auto simp: selectPinnedNodes_mem [OF wf])
    qed
  qed
qed

lemma selected_pins_unnested:
  assumes "tm_wf m" and "length m \<le> depth_cap"
    and "a \<in> set (selectPinnedNodes m order)" and "b \<in> set (selectPinnedNodes m order)"
  shows "(nid a, nid b) \<notin> (parent_rel m)\<^sup>+"
  using assms by (auto simp: selectPinnedNodes_mem hasPinnedAncestor_iff)

section \<open>The selected path\<close>

lemma path_walk_set:
  "set (path_walk m i cur out) =
     set out \<union> {a. \<exists>c k. cur = Some c \<and> i + k < depth_cap \<and> (c, a) \<in> parent_rel m ^^ k}"
proof (induction m i cur out rule: path_walk.induct)
  case (1 m i cur out)
  show ?case
  proof (cases "i < depth_cap \<and> cur \<noteq> None")
    case False
    then show ?thesis
      by (subst path_walk.simps) (auto split: option.splits)
  next
    case True
    then obtain c where c: "cur = Some c" "i < depth_cap" by auto
    let ?out = "if c \<in> set out then out else out @ [c]"
    have "set (path_walk m i cur out) = set (path_walk m (i + 1) (up m c) ?out)"
      using c by (subst path_walk.simps) simp
    also have "\<dots> = set ?out \<union> {a. \<exists>p k. up m c = Some p \<and> i + 1 + k < depth_cap \<and> (p, a) \<in> parent_rel m ^^ k}"
      by (rule "1.IH") (use c in auto)
    also have "\<dots> = insert c (set out) \<union> {a. \<exists>k. i + Suc k < depth_cap \<and> (c, a) \<in> parent_rel m ^^ Suc k}"
      by (cases "up m c") (simp_all add: up_relpow up_None_relpow insert_absorb del: relpow.simps)
    also have "\<dots> = set out \<union> {a. \<exists>k. i + k < depth_cap \<and> (c, a) \<in> parent_rel m ^^ k}"
    proof -
      have "{a. \<exists>k. i + k < depth_cap \<and> (c, a) \<in> parent_rel m ^^ k} =
          insert c {a. \<exists>k. i + Suc k < depth_cap \<and> (c, a) \<in> parent_rel m ^^ Suc k}"
      proof (intro equalityI subsetI)
        fix a
        assume "a \<in> {a. \<exists>k. i + k < depth_cap \<and> (c, a) \<in> parent_rel m ^^ k}"
        then obtain k where "i + k < depth_cap" "(c, a) \<in> parent_rel m ^^ k" by blast
        then show "a \<in> insert c {a. \<exists>k. i + Suc k < depth_cap \<and> (c, a) \<in> parent_rel m ^^ Suc k}"
          by (cases k) (auto simp del: relpow.simps(2))
      next
        fix a
        assume "a \<in> insert c {a. \<exists>k. i + Suc k < depth_cap \<and> (c, a) \<in> parent_rel m ^^ Suc k}"
        moreover have "i + 0 < depth_cap \<and> (c, c) \<in> parent_rel m ^^ 0" using c by simp
        ultimately show "a \<in> {a. \<exists>k. i + k < depth_cap \<and> (c, a) \<in> parent_rel m ^^ k}" by blast
      qed
      then show ?thesis by simp
    qed
    finally show ?thesis using c by simp
  qed
qed

lemma selectedPathIds_set:
  assumes small: "length m < depth_cap" and sel: "i \<noteq> []" "js_get m i \<noteq> None"
  shows "set (selectedPathIds m (Some i)) = {a. (i, a) \<in> (parent_rel m)\<^sup>*}"
proof -
  have "(\<exists>k. k < depth_cap \<and> (i, a) \<in> parent_rel m ^^ k) \<longleftrightarrow> (i, a) \<in> (parent_rel m)\<^sup>*" for a
  proof
    assume "(i, a) \<in> (parent_rel m)\<^sup>*"
    then obtain k where "k \<le> card (parent_rel m)" "(i, a) \<in> parent_rel m ^^ k"
      unfolding rtrancl_finite_eq_relpow [OF finite_parent_rel] by blast
    moreover have "k < depth_cap" using calculation(1) card_parent_rel [of m] small by linarith
    ultimately show "\<exists>k. k < depth_cap \<and> (i, a) \<in> parent_rel m ^^ k" by blast
  qed (auto simp: rtrancl_power)
  then show ?thesis using sel by (simp add: selectedPathIds_def path_walk_set)
qed

lemma selectedPathIds_nothing:
  "js_get m i = None \<or> i = [] \<Longrightarrow> selectedPathIds m (Some i) = []" "selectedPathIds m None = []"
  by (auto simp: selectedPathIds_def)

lemma strictAncestors_set:
  assumes "length m < depth_cap" and "i \<noteq> []" and "js_get m i \<noteq> None" and "\<not> on_cycle m i"
  shows "set (strictAncestors m (Some i)) = {a. (i, a) \<in> (parent_rel m)\<^sup>+}"
proof -
  have "{a. (i, a) \<in> (parent_rel m)\<^sup>*} - {i} = {a. (i, a) \<in> (parent_rel m)\<^sup>+}"
    using assms(4) unfolding on_cycle_def rtrancl_eq_or_trancl by blast
  then show ?thesis
    using selectedPathIds_set [OF assms(1-3)] assms(2) by (auto simp: strictAncestors_def)
qed

section \<open>Search results\<close>

definition search_key :: "(string \<Rightarrow> bool) \<Rightarrow> tree_node \<Rightarrow> int \<times> int" where
  "search_key isPinned n = (if isPinned (nid n) then 0 else 1, - updatedMs n)"

lemma search_cmp_key: "search_cmp p a b \<le> 0 \<longleftrightarrow> search_key p a \<le> search_key p b"
  by (auto simp: search_cmp_def search_key_def)

lemma selectSearchResults_sorted:
  "selectSearchResults m q p =
     (if to_lower (trim q) = [] then None
      else Some (sort_key (search_key p) (filter (\<lambda>n. str_includes (search_hay n) (to_lower (trim q))) (js_values m))))"
  by (simp add: selectSearchResults_def Let_def js_sort_sort_key [where key = "search_key p"] search_cmp_key)

section \<open>Display modes\<close>

lemma expanded_partition:
  "childrenForState (Persisted Expanded) kids w path = filter w kids @ filter (\<lambda>c. \<not> w c) kids"
proof -
  have "foldl (\<lambda>(act, idl) c. if w c then (act @ [c], idl) else (act, idl @ [c])) (a, b) kids
      = (a @ filter w kids, b @ filter (\<lambda>c. \<not> w c) kids)" for a b
    by (induction kids arbitrary: a b) auto
  then show ?thesis by simp
qed

lemma find_mem: "List.find P xs = Some x \<Longrightarrow> x \<in> set xs \<and> P x"
  by (induction xs) (auto split: if_splits)

lemma childrenForState_subset: "set (childrenForState st kids w path) \<subseteq> set kids"
proof (cases st)
  case (Persisted mode)
  then show ?thesis by (cases mode) (auto simp only: expanded_partition childrenForState.simps set_append set_filter list.set)
next
  case Temp
  then show ?thesis
    by (auto split: option.splits dest: find_mem [OF sym])
qed

lemma sameChildIds_iff:
  assumes "distinct (map nid a)" and "distinct (map nid b)"
  shows "sameChildIds a b \<longleftrightarrow> nid ` set a = nid ` set b"
proof
  assume same: "sameChildIds a b"
  then have "nid ` set b \<subseteq> nid ` set a" by (auto simp: sameChildIds_def list_all_iff)
  moreover have "card (nid ` set a) = card (nid ` set b)"
    using assms same distinct_card by (metis length_map list.set_map sameChildIds_def)
  ultimately show "nid ` set a = nid ` set b" by (metis List.finite_set card_subset_eq finite_imageI)
next
  assume eq: "nid ` set a = nid ` set b"
  then have "length a = length b" using assms by (metis distinct_card length_map list.set_map)
  with eq show "sameChildIds a b" by (auto simp: sameChildIds_def list_all_iff)
qed

lemma working_established: "activity n = ActBusy \<or> activity n = ActRetry \<Longrightarrow> activityEstablished n"
  by (auto simp: activityEstablished_def)

lemma transition_cases:
  "autoTreeModeForWorkingTransition p c md = Some t \<longleftrightarrow>
     \<not> p \<and> c \<and> md = Collapsed \<and> t = Filtered \<or> p \<and> \<not> c \<and> md = Filtered \<and> t = Collapsed"
  by (auto simp: autoTreeModeForWorkingTransition_def)

end
