(* ===== verification/VersionedStore.thy ===== *)
theory VersionedStore
  imports JsMap
begin

text \<open>
  \<^verbatim>\<open>web/src/lib/store.ts\<close>: values persisted in \<^verbatim>\<open>localStorage\<close> inside an envelope
  \<^verbatim>\<open>{v, data}\<close>. An item is the text another build wrote: either it parses as JSON
  (\<open>RawJson\<close>, held parsed) or it does not (\<open>RawText\<close>). Reads and writes may throw (private
  mode, quota); the code swallows both, and the flags of \<open>local_storage\<close> say when.
  \<open>ls_writes\<close> counts the calls of \<^verbatim>\<open>setItem\<close>.
\<close>

datatype raw_item = RawText string | RawJson json

record local_storage =
  ls_items :: "(string, raw_item) jsmap"
  ls_get_throws :: bool
  ls_set_throws :: bool
  ls_writes :: nat

text \<open>\<^verbatim>\<open>localStorage.getItem\<close> with the thrown error read as null.\<close>

definition get_item :: "local_storage \<Rightarrow> string \<Rightarrow> raw_item option" where
  "get_item ls key = (if ls_get_throws ls then None else js_get (ls_items ls) key)"

definition set_item :: "local_storage \<Rightarrow> string \<Rightarrow> raw_item \<Rightarrow> local_storage" where
  "set_item ls key x =
     (if ls_set_throws ls then ls\<lparr>ls_writes := ls_writes ls + 1\<rparr>
      else ls\<lparr>ls_items := js_set key x (ls_items ls), ls_writes := ls_writes ls + 1\<rparr>)"

text \<open>
  The loaded value is unchecked JSON, as the code's cast leaves it. \<open>migrate\<close> takes the old
  value and the version it was found at.
\<close>

definition loadVersioned ::
  "local_storage \<Rightarrow> string \<Rightarrow> int \<Rightarrow> json \<Rightarrow> (json \<Rightarrow> json \<Rightarrow> json) option \<Rightarrow> json" where
  "loadVersioned ls key version fallback migrate =
     (let mig = (\<lambda>old from. case migrate of Some f \<Rightarrow> f old from | None \<Rightarrow> fallback)
      in case get_item ls key of
           None \<Rightarrow> fallback
         | Some (RawText t) \<Rightarrow> mig (JStr t) (JNum 0)
         | Some (RawJson p) \<Rightarrow>
             (case (json_field p ''v'', json_field p ''data'') of
                (Some v, Some data) \<Rightarrow> if v = JNum version then data else mig data v
              | _ \<Rightarrow> mig p (JNum 0)))"

definition saveVersioned :: "local_storage \<Rightarrow> string \<Rightarrow> int \<Rightarrow> json \<Rightarrow> local_storage" where
  "saveVersioned ls key version data =
     set_item ls key (RawJson (JObj [(''v'', JNum version), (''data'', data)]))"

lemma load_save_same:
  "\<not> ls_get_throws ls \<Longrightarrow> \<not> ls_set_throws ls \<Longrightarrow>
    loadVersioned (saveVersioned ls key v data) key v fb mig = data"
  by (simp add: loadVersioned_def saveVersioned_def get_item_def set_item_def Let_def)

lemma get_item_save_other [simp]:
  "k \<noteq> key \<Longrightarrow> get_item (saveVersioned ls key v data) k = get_item ls k"
  by (simp add: saveVersioned_def get_item_def set_item_def)

lemma load_save_other [simp]:
  "k \<noteq> key \<Longrightarrow> loadVersioned (saveVersioned ls key v data) k w fb mig = loadVersioned ls k w fb mig"
  by (simp add: loadVersioned_def)

lemma saveVersioned_frame [simp, frame]:
  "ls_get_throws (saveVersioned ls key v data) = ls_get_throws ls"
  "ls_set_throws (saveVersioned ls key v data) = ls_set_throws ls"
  "ls_writes (saveVersioned ls key v data) = ls_writes ls + 1"
  by (simp_all add: saveVersioned_def set_item_def)

text \<open>
  \<^verbatim>\<open>Object.entries\<close> of a value that passed the object test; an array has its decimal
  indices as keys.
\<close>

fun digits_acc :: "nat \<Rightarrow> nat \<Rightarrow> string \<Rightarrow> string" where
  "digits_acc 0 n acc = acc"
| "digits_acc (Suc fuel) n acc =
     (let acc' = char_of (48 + n mod 10) # acc
      in if n < 10 then acc' else digits_acc fuel (n div 10) acc')"

definition nat_string :: "nat \<Rightarrow> string" where
  "nat_string n = digits_acc (Suc n) n []"

definition object_entries :: "json \<Rightarrow> (string \<times> json) list" where
  "object_entries j = (case j of
      JObj kvs \<Rightarrow> kvs
    | JArr xs \<Rightarrow> zip (map nat_string [0..<length xs]) xs
    | _ \<Rightarrow> [])"

section \<open>A signal backed by storage\<close>

text \<open>
  \<^verbatim>\<open>persistedSignal\<close>: one document's signal for a key. Documents of one origin share the
  storage; a write in one raises a \<^verbatim>\<open>storage\<close> event in the others. \<open>ps_remote\<close> lists the
  values \<^verbatim>\<open>onRemoteChange\<close> was called with, oldest first.
\<close>

record persisted_signal =
  ps_key :: string
  ps_version :: int
  ps_fallback :: json
  ps_migrate :: "(json \<Rightarrow> json \<Rightarrow> json) option"
  ps_value :: json
  ps_remote :: "json list"

definition read_signal :: "persisted_signal \<Rightarrow> local_storage \<Rightarrow> json" where
  "read_signal p ls = loadVersioned ls (ps_key p) (ps_version p) (ps_fallback p) (ps_migrate p)"

definition persistedSignal ::
  "string \<Rightarrow> int \<Rightarrow> json \<Rightarrow> (json \<Rightarrow> json \<Rightarrow> json) option \<Rightarrow> local_storage \<Rightarrow> persisted_signal" where
  "persistedSignal key version fallback migrate ls =
     \<lparr>ps_key = key, ps_version = version, ps_fallback = fallback, ps_migrate = migrate,
      ps_value = loadVersioned ls key version fallback migrate, ps_remote = []\<rparr>"

definition setSaved :: "json \<Rightarrow> persisted_signal \<times> local_storage \<Rightarrow> persisted_signal \<times> local_storage" where
  "setSaved v = (\<lambda>(p, ls). (p\<lparr>ps_value := v\<rparr>, saveVersioned ls (ps_key p) (ps_version p) v))"

definition on_storage_event :: "string \<Rightarrow> local_storage \<Rightarrow> persisted_signal \<Rightarrow> persisted_signal" where
  "on_storage_event key ls p =
     (if key \<noteq> ps_key p then p
      else let remote = read_signal p ls
           in p\<lparr>ps_value := remote, ps_remote := ps_remote p @ [remote]\<rparr>)"

text \<open>\<^verbatim>\<open>boolMigrate\<close>\<close>

definition boolMigrate :: "bool \<Rightarrow> json \<Rightarrow> bool" where
  "boolMigrate def v =
     (if v \<in> {JBool True, JNum 1, JStr ''1'', JStr ''true''} then True
      else if v \<in> {JBool False, JNum 0, JStr ''0'', JStr ''false''} then False
      else def)"

lemma remote_reads_write:
  assumes "\<not> ls_get_throws ls" and "\<not> ls_set_throws ls" and "ps_key q = ps_key p" and "ps_version q = ps_version p"
  shows "ps_value (on_storage_event (ps_key p) (snd (setSaved v (p, ls))) q) = v"
  using assms by (simp add: on_storage_event_def setSaved_def read_signal_def load_save_same)

end
