(* ===== verification/TreeState.thy ===== *)
theory TreeState
  imports TreeSelectors VersionedStore "HOL-Library.Word"
begin

text \<open>
  \<^verbatim>\<open>web/src/sync/treeState.ts\<close>: the reactive store around the flat map. Its state is the
  map, the persisted mode of every touched node, the set of clicked nodes, the queue of
  deferred promotions with its generation, and the presentation ranks. The operations are
  the code's mutators, each a whole step: seeding a snapshot, applying a server operation,
  the microtask flush of the queue, the mode setters, the eager archive drop, the collapse,
  the agent patch and the project reset.

  The version and the generation are masked to 30 bits in the code and are 30-bit words
  here. An operation whose walk of the loaded subtree does not return is \<open>None\<close>.
\<close>

section \<open>State\<close>

text \<open>\<^verbatim>\<open>AutoModeCandidate\<close>\<close>

record candidate =
  c_id :: string
  expectedSourceMode :: tree_mode
  expectedWorking :: bool
  targetMode :: tree_mode
  c_generation :: "30 word"

type_synonym mode_map = "(string, tree_mode) jsmap"

record tree_state =
  ts_map :: tree_flat_map
  ts_version :: "30 word"
  treeModeMap :: mode_map
  userToggled :: "string list"
  queueGeneration :: "30 word"
  pendingCandidates :: "(string, candidate) jsmap"
  flushScheduled :: bool
  rankSeq :: "(string, int) jsmap"
  rankCounter :: int
  storage :: local_storage

definition bump :: "tree_state \<Rightarrow> tree_state" where
  "bump s = s\<lparr>ts_version := ts_version s + 1\<rparr>"

section \<open>Persisted modes\<close>

definition LS_MODE :: string where "LS_MODE = ''vh.tree.mode.v2''"
definition LS_MODE_V3 :: string where "LS_MODE_V3 = ''vh.tree.mode.v3''"
definition LS_EXPANDED_LEGACY :: string where "LS_EXPANDED_LEGACY = ''vh.tree.expanded.v1''"

fun mode_text :: "tree_mode \<Rightarrow> string" where
  "mode_text Collapsed = ''collapsed''"
| "mode_text Filtered = ''filtered''"
| "mode_text Expanded = ''expanded''"

text \<open>\<^verbatim>\<open>isValidMode\<close>, returning the mode it recognised.\<close>

definition validMode :: "json \<Rightarrow> tree_mode option" where
  "validMode v =
     (if v = JStr ''collapsed'' then Some Collapsed
      else if v = JStr ''filtered'' then Some Filtered
      else if v = JStr ''expanded'' then Some Expanded
      else None)"

definition modes_json :: "mode_map \<Rightarrow> json" where
  "modes_json m = JObj (map (\<lambda>(k, md). (k, JStr (mode_text md))) m)"

definition coerceModeMap :: "json \<Rightarrow> mode_map" where
  "coerceModeMap j =
     fold (\<lambda>(k, v) out. case validMode v of
             Some md \<Rightarrow> if k \<noteq> [] then js_set k md out else out
           | None \<Rightarrow> out) (object_entries j) []"

definition migrateFromExpandedSet :: "json \<Rightarrow> mode_map" where
  "migrateFromExpandedSet j =
     (case j of
        JArr xs \<Rightarrow> fold (\<lambda>v out. case v of
            JStr i \<Rightarrow> if i \<noteq> [] then js_set i Expanded out else out
          | _ \<Rightarrow> out) xs []
      | _ \<Rightarrow> [])"

definition keepExpandedOnly :: "mode_map \<Rightarrow> mode_map" where
  "keepExpandedOnly src = fold (\<lambda>(i, md) out. if md = Expanded then js_set i md out else out) src []"

definition loadInitialTreeModes :: "local_storage \<Rightarrow> local_storage \<times> mode_map" where
  "loadInitialTreeModes ls =
     (case get_item ls LS_MODE_V3 of
        Some _ \<Rightarrow> (ls, coerceModeMap (loadVersioned ls LS_MODE_V3 1 (JObj []) (Some (\<lambda>o' _. o'))))
      | None \<Rightarrow>
          (case get_item ls LS_MODE of
             Some _ \<Rightarrow>
               (let swept = keepExpandedOnly (coerceModeMap
                      (loadVersioned ls LS_MODE 1 (JObj []) (Some (\<lambda>o' _. o'))))
                in (saveVersioned ls LS_MODE_V3 1 (modes_json swept), swept))
           | None \<Rightarrow>
               (let legacy = loadVersioned ls LS_EXPANDED_LEGACY 1 (JArr [])
                      (Some (\<lambda>o' _. case o' of JArr _ \<Rightarrow> o' | _ \<Rightarrow> JArr []));
                    migrated = keepExpandedOnly (migrateFromExpandedSet legacy)
                in (saveVersioned ls LS_MODE_V3 1 (modes_json migrated), migrated))))"

definition modeOf :: "tree_state \<Rightarrow> string \<Rightarrow> tree_mode" where
  "modeOf s i = (case js_get (treeModeMap s) i of Some md \<Rightarrow> md | None \<Rightarrow> Filtered)"

text \<open>\<^verbatim>\<open>setTreeModeMap(next); saveVersioned(LS_MODE_V3, 1, next);\<close>\<close>

definition store_modes :: "mode_map \<Rightarrow> tree_state \<Rightarrow> tree_state" where
  "store_modes m s = s\<lparr>treeModeMap := m, storage := saveVersioned (storage s) LS_MODE_V3 1 (modes_json m)\<rparr>"

definition setNodeMode :: "string \<Rightarrow> tree_mode \<Rightarrow> tree_state \<Rightarrow> tree_state" where
  "setNodeMode i md s = store_modes (js_set i md (treeModeMap s)) s"

definition setNodesMode :: "string list \<Rightarrow> tree_mode \<Rightarrow> tree_state \<Rightarrow> tree_state" where
  "setNodesMode ids md s = store_modes (fold (\<lambda>i m. js_set i md m) ids (treeModeMap s)) s"

definition setNodeModes :: "mode_map \<Rightarrow> tree_state \<Rightarrow> tree_state" where
  "setNodeModes changes s =
     (if changes = [] then s
      else case fold (\<lambda>(i, md) nxt.
                 if js_get (treeModeMap s) i = Some md then nxt
                 else Some (js_set i md (case nxt of Some m \<Rightarrow> m | None \<Rightarrow> treeModeMap s)))
               changes None of
             None \<Rightarrow> s
           | Some m \<Rightarrow> store_modes m s)"

section \<open>Clicked nodes and the backfill list\<close>

definition hasUserToggled :: "tree_state \<Rightarrow> string \<Rightarrow> bool" where
  "hasUserToggled s i \<longleftrightarrow> i \<in> set (userToggled s)"

definition markUserToggled :: "string \<Rightarrow> tree_state \<Rightarrow> tree_state" where
  "markUserToggled i s = s\<lparr>userToggled := (if i \<in> set (userToggled s) then userToggled s else userToggled s @ [i])\<rparr>"

definition clearUserToggled :: "tree_state \<Rightarrow> tree_state" where
  "clearUserToggled s = s\<lparr>userToggled := []\<rparr>"

definition expandedButUnloadedIds :: "tree_state \<Rightarrow> string list" where
  "expandedButUnloadedIds s =
     (let idx = childrenIndex (ts_map s)
      in map fst (filter (\<lambda>(i, md).
           md = Expanded \<and>
           (case js_get (ts_map s) i of
              None \<Rightarrow> False
            | Some n \<Rightarrow> \<not> length (bucket idx (Some i)) > 0 \<and>
                \<not> (childCount n = 0 \<and> (case descendantCount n of Some d \<Rightarrow> d | None \<Rightarrow> 0) = 0)))
         (treeModeMap s)))"

section \<open>The queue of deferred promotions\<close>

definition invalidateAutoQueue :: "tree_state \<Rightarrow> tree_state" where
  "invalidateAutoQueue s = s\<lparr>queueGeneration := queueGeneration s + 1, pendingCandidates := []\<rparr>"

definition enqueueAutoModeCandidate ::
  "string \<Rightarrow> tree_mode \<Rightarrow> bool \<Rightarrow> tree_mode \<Rightarrow> tree_state \<Rightarrow> tree_state" where
  "enqueueAutoModeCandidate i src wk target s = s\<lparr>
     pendingCandidates := js_set i \<lparr>c_id = i, expectedSourceMode = src, expectedWorking = wk,
       targetMode = target, c_generation = queueGeneration s\<rparr> (pendingCandidates s),
     flushScheduled := True\<rparr>"

definition candidate_survives :: "tree_state \<Rightarrow> candidate \<Rightarrow> bool" where
  "candidate_survives s c \<longleftrightarrow>
     c_generation c = queueGeneration s \<and>
     (case js_get (ts_map s) (c_id c) of
        None \<Rightarrow> False
      | Some n \<Rightarrow> working n = expectedWorking c \<and> modeOf s (c_id c) = expectedSourceMode c)"

definition flushAutoModeQueue :: "tree_state \<Rightarrow> tree_state" where
  "flushAutoModeQueue s =
     (let survivors = fold (\<lambda>c m. if candidate_survives s c then js_set (c_id c) (targetMode c) m else m)
            (js_values (pendingCandidates s)) [];
          s' = s\<lparr>flushScheduled := False, pendingCandidates := []\<rparr>
      in if survivors \<noteq> [] then setNodeModes survivors s' else s')"

section \<open>Presentation ranks\<close>

definition clearRankState :: "tree_state \<Rightarrow> tree_state" where
  "clearRankState s = s\<lparr>rankSeq := [], rankCounter := 0\<rparr>"

definition pushFrontRank :: "string \<Rightarrow> tree_state \<Rightarrow> tree_state" where
  "pushFrontRank i s = s\<lparr>rankSeq := js_set i (rankCounter s + 1) (rankSeq s), rankCounter := rankCounter s + 1\<rparr>"

definition pushFrontRankBatch :: "string list \<Rightarrow> tree_state \<Rightarrow> tree_state" where
  "pushFrontRankBatch ids s = fold pushFrontRank (rev ids) s"

definition recency_cmp :: "tree_node \<Rightarrow> tree_node \<Rightarrow> int" where
  "recency_cmp a b = updatedMs b - updatedMs a"

definition rebuildRankState :: "tree_flat_map \<Rightarrow> tree_state \<Rightarrow> tree_state" where
  "rebuildRankState newMap s =
     (let frontFirst = js_sort recency_cmp (js_values newMap)
      in fold (\<lambda>n st. st\<lparr>rankSeq := js_set (nid n) (rankCounter st + 1) (rankSeq st),
                          rankCounter := rankCounter st + 1\<rparr>)
           (rev frontFirst) (s\<lparr>rankSeq := [], rankCounter := 0\<rparr>))"

definition rank_of :: "tree_state \<Rightarrow> tree_node \<Rightarrow> ext_num" where
  "rank_of s n = (case js_get (rankSeq s) (nid n) of Some r \<Rightarrow> Fin r | None \<Rightarrow> NegInf)"

definition rankCompareDesc :: "tree_state \<Rightarrow> tree_node \<Rightarrow> tree_node \<Rightarrow> int" where
  "rankCompareDesc s a b =
     (let ra = rank_of s a; rb = rank_of s b
      in if ra \<noteq> rb then cmp_num rb ra else updatedMs b - updatedMs a)"

definition treeNode :: "tree_state \<Rightarrow> string \<Rightarrow> tree_node option" where
  "treeNode s i = js_get (ts_map s) i"

definition treeRoots :: "tree_state \<Rightarrow> tree_node list" where
  "treeRoots s = js_sort (rankCompareDesc s) (rootNodes (ts_map s))"

definition treeChildrenOf :: "tree_state \<Rightarrow> string \<Rightarrow> tree_node list" where
  "treeChildrenOf s p = js_sort (rankCompareDesc s) (bucket (childrenIndex (ts_map s)) (Some p))"

section \<open>The mutators\<close>

text \<open>The change \<^verbatim>\<open>seedTreeStore\<close> collects for one node of the incoming snapshot.\<close>

definition seed_change :: "tree_state \<Rightarrow> string \<Rightarrow> tree_node \<Rightarrow> tree_mode option" where
  "seed_change s i newNode =
     (let target0 = (case js_get (ts_map s) i of
            None \<Rightarrow> None
          | Some old \<Rightarrow> autoTreeModeForWorkingTransition (working old) (working newNode) (modeOf s i));
          target = (if target0 = Some Collapsed \<and> \<not> activityEstablished newNode then None else target0);
          effective = (case target of Some t \<Rightarrow> t | None \<Rightarrow> modeOf s i)
      in if \<not> working newNode \<and> effective = Filtered
         then (let explicitFiltered = (js_get (treeModeMap s) i = Some Filtered)
               in if \<not> explicitFiltered \<or> activityEstablished newNode then Some Collapsed else None)
         else target)"

definition seedTreeStore :: "tree_node list \<Rightarrow> tree_state \<Rightarrow> tree_state" where
  "seedTreeStore nodes s =
     (let newMap = seedTree nodes;
          changes = fold (\<lambda>(i, n) ch. case seed_change s i n of
                       Some md \<Rightarrow> js_set i md ch | None \<Rightarrow> ch) newMap []
      in bump (rebuildRankState newMap (invalidateAutoQueue
           (setNodeModes changes (s\<lparr>ts_map := newMap\<rparr>)))))"

fun affectedIdsOfOp :: "tree_op \<Rightarrow> string list" where
  "affectedIdsOfOp (NodeUpsert n) = [nid n]"
| "affectedIdsOfOp (NodeRemove i) = []"
| "affectedIdsOfOp (NodeMove i np) = [i]"
| "affectedIdsOfOp (NodeChildren p nodes hasMore cursor) = p # map nid nodes"
| "affectedIdsOfOp (NodeFacet i d) = [i]"

text \<open>
  The body of the loop of \<^verbatim>\<open>applyTreeOpStore\<close> for one affected id: the state (its queue
  grows), the synchronous changes and the front promotions collected so far.
\<close>

definition visit_affected ::
  "(string \<Rightarrow> tree_node option) \<Rightarrow> mode_map \<Rightarrow> string \<Rightarrow>
     tree_state \<times> mode_map \<times> string list \<Rightarrow> tree_state \<times> mode_map \<times> string list" where
  "visit_affected before modeMapNow i = (\<lambda>(s, sync, front).
     case js_get (ts_map s) i of
       None \<Rightarrow> (s, sync, front)
     | Some after \<Rightarrow>
         (let (s', front') =
                (case before i of
                   Some prev \<Rightarrow>
                     if working prev \<noteq> working after then
                       (let persisted = modeOf s i;
                            target = autoTreeModeForWorkingTransition (working prev) (working after) persisted
                        in (if target = Some Filtered
                            then enqueueAutoModeCandidate i persisted (working after) Filtered s else s,
                            if \<not> working prev \<and> working after then front @ [i] else front))
                     else (s, front)
                 | None \<Rightarrow> (s, front @ [i]));
              sync' =
                (if \<not> working after \<and> modeOf s i = Filtered then
                   (let explicitFiltered = (js_get modeMapNow i = Some Filtered)
                    in if \<not> explicitFiltered \<or> activityEstablished after
                       then js_set i Collapsed sync else sync)
                 else sync)
          in (s', sync', front')))"

definition applyTreeOpStore :: "tree_op \<Rightarrow> tree_state \<Rightarrow> tree_state option" where
  "applyTreeOpStore op s =
     (let before = js_get (ts_map s);
          modeMapNow = treeModeMap s
      in case (case op of NodeRemove i \<Rightarrow> loadedDescendants (ts_map s) i | _ \<Rightarrow> Some []) of
           None \<Rightarrow> None
         | Some removeIds \<Rightarrow>
             (case applyOp (ts_map s) op of
                None \<Rightarrow> None
              | Some m' \<Rightarrow>
                  (let (s1, sync, front) =
                         fold (visit_affected before modeMapNow) (affectedIdsOfOp op) (s\<lparr>ts_map := m'\<rparr>, [], []);
                       front' = (case op of NodeMove i np \<Rightarrow> if js_has m' i then front @ [i] else front | _ \<Rightarrow> front);
                       s2 = (if front' \<noteq> [] then pushFrontRankBatch front' s1 else s1);
                       s3 = s2\<lparr>rankSeq := js_delete_all removeIds (rankSeq s2)\<rparr>;
                       s4 = (if sync \<noteq> [] then setNodeModes sync s3 else s3)
                   in Some (bump s4))))"

definition removeTreeNode :: "string \<Rightarrow> tree_state \<Rightarrow> tree_state option" where
  "removeTreeNode i s =
     (case loadedDescendants (ts_map s) i of
        None \<Rightarrow> None
      | Some removeIds \<Rightarrow>
          (case applyOp (ts_map s) (NodeRemove i) of
             None \<Rightarrow> None
           | Some m' \<Rightarrow> Some (bump (s\<lparr>ts_map := m', rankSeq := js_delete_all removeIds (rankSeq s)\<rparr>))))"

definition collapseTreeNode :: "string \<Rightarrow> string list option \<Rightarrow> tree_state \<Rightarrow> tree_state option" where
  "collapseTreeNode i prot s =
     (case loadedDescendants (ts_map s) i of
        None \<Rightarrow> None
      | Some allIds \<Rightarrow>
          (case collapseNode (ts_map s) i prot of
             None \<Rightarrow> None
           | Some m' \<Rightarrow>
               Some (bump (s\<lparr>ts_map := m',
                 rankSeq := fold (\<lambda>r acc. if r = i then acc
                                   else if (case prot of Some ps \<Rightarrow> r \<in> set ps | None \<Rightarrow> False) then acc
                                   else js_delete r acc) allIds (rankSeq s)\<rparr>))))"

definition patchTreeAgent :: "string \<Rightarrow> string \<Rightarrow> tree_state \<Rightarrow> tree_state" where
  "patchTreeAgent i ag s =
     (case js_get (ts_map s) i of
        None \<Rightarrow> s
      | Some n \<Rightarrow>
          if (case agent n of Some a \<Rightarrow> a \<noteq> [] | None \<Rightarrow> False) then s
          else bump (s\<lparr>ts_map := js_set i (n\<lparr>agent := Some ag\<rparr>) (ts_map s)\<rparr>))"

definition resetTreeStore :: "tree_state \<Rightarrow> tree_state" where
  "resetTreeStore s =
     bump (clearRankState (invalidateAutoQueue (clearUserToggled
       (store_modes [] (s\<lparr>ts_map := []\<rparr>)))))"

text \<open>The two test hooks: a reset of the memory that leaves storage alone, and a load from it.\<close>

definition resetExpandedForTest :: "tree_state \<Rightarrow> tree_state" where
  "resetExpandedForTest s = clearRankState (invalidateAutoQueue (clearUserToggled (s\<lparr>treeModeMap := []\<rparr>)))"

definition rehydrateExpandedForTest :: "tree_state \<Rightarrow> tree_state" where
  "rehydrateExpandedForTest s =
     (let (ls, modes) = loadInitialTreeModes (storage s) in s\<lparr>treeModeMap := modes, storage := ls\<rparr>)"

section \<open>The store as a machine\<close>

datatype tree_event =
    Seed "tree_node list"
  | Op tree_op
  | Flush
  | SetMode string tree_mode
  | SetSameMode "string list" tree_mode
  | SetModes mode_map
  | MarkToggled string
  | ClearToggled
  | RemoveNode string
  | CollapseNode string "string list option"
  | PatchAgent string string
  | Reset

fun tree_step :: "tree_state \<Rightarrow> tree_event \<Rightarrow> tree_state option" where
  "tree_step s (Seed nodes) = Some (seedTreeStore nodes s)"
| "tree_step s (Op op) = applyTreeOpStore op s"
| "tree_step s Flush = Some (flushAutoModeQueue s)"
| "tree_step s (SetMode i md) = Some (setNodeMode i md s)"
| "tree_step s (SetSameMode ids md) = Some (setNodesMode ids md s)"
| "tree_step s (SetModes ch) = Some (setNodeModes ch s)"
| "tree_step s (MarkToggled i) = Some (markUserToggled i s)"
| "tree_step s ClearToggled = Some (clearUserToggled s)"
| "tree_step s (RemoveNode i) = removeTreeNode i s"
| "tree_step s (CollapseNode i prot) = collapseTreeNode i prot s"
| "tree_step s (PatchAgent i ag) = Some (patchTreeAgent i ag s)"
| "tree_step s Reset = Some (resetTreeStore s)"

definition init_tree_state :: "local_storage \<Rightarrow> tree_state" where
  "init_tree_state ls =
     (let (ls', modes) = loadInitialTreeModes ls
      in \<lparr>ts_map = [], ts_version = 0, treeModeMap = modes, userToggled = [], queueGeneration = 0,
          pendingCandidates = [], flushScheduled = False, rankSeq = [], rankCounter = 0, storage = ls'\<rparr>)"

end
