(* ===== verification/TreeStateInv.thy ===== *)
theory TreeStateInv
  imports TreeState
begin

text \<open>
  Lemmas about the tree store: what each mutator leaves alone, what it does to the modes,
  the queue and the ranks, and the invariants every event keeps.
\<close>

section \<open>Frames of the small operations\<close>

lemma store_modes_frame [simp, frame]:
  "ts_map (store_modes m s) = ts_map s" "queueGeneration (store_modes m s) = queueGeneration s"
  "pendingCandidates (store_modes m s) = pendingCandidates s" "flushScheduled (store_modes m s) = flushScheduled s"
  "rankSeq (store_modes m s) = rankSeq s" "rankCounter (store_modes m s) = rankCounter s"
  "treeModeMap (store_modes m s) = m" "userToggled (store_modes m s) = userToggled s"
  "ls_writes (storage (store_modes m s)) = ls_writes (storage s) + 1"
  by (simp_all add: store_modes_def)

lemma setNodeModes_cases:
  obtains "setNodeModes ch s = s" | m where "setNodeModes ch s = store_modes m s"
proof -
  have "setNodeModes ch s = s \<or> (\<exists>m. setNodeModes ch s = store_modes m s)"
    by (simp add: setNodeModes_def split: option.split) blast
  with that show thesis by blast
qed

lemma setNodeModes_frame [simp, frame]:
  "ts_map (setNodeModes ch s) = ts_map s" "queueGeneration (setNodeModes ch s) = queueGeneration s"
  "pendingCandidates (setNodeModes ch s) = pendingCandidates s" "flushScheduled (setNodeModes ch s) = flushScheduled s"
  "rankSeq (setNodeModes ch s) = rankSeq s" "rankCounter (setNodeModes ch s) = rankCounter s"
  "userToggled (setNodeModes ch s) = userToggled s"
  by (cases rule: setNodeModes_cases [of ch s]; simp)+

lemma setNodeModes_writes: "ls_writes (storage (setNodeModes ch s)) \<le> ls_writes (storage s) + 1"
  by (cases rule: setNodeModes_cases [of ch s]) auto

lemma setNodeModes_Nil [simp]: "setNodeModes [] s = s"
  by (simp add: setNodeModes_def)

lemma pushFrontRankBatch_Nil [simp]: "pushFrontRankBatch [] s = s"
  by (simp add: pushFrontRankBatch_def)

lemma bump_frame [simp, frame]:
  "ts_map (bump s) = ts_map s" "queueGeneration (bump s) = queueGeneration s"
  "pendingCandidates (bump s) = pendingCandidates s" "flushScheduled (bump s) = flushScheduled s"
  "rankSeq (bump s) = rankSeq s" "rankCounter (bump s) = rankCounter s"
  "treeModeMap (bump s) = treeModeMap s" "userToggled (bump s) = userToggled s" "storage (bump s) = storage s"
  by (simp_all add: bump_def)

lemma pushFrontRank_frame [simp, frame]:
  "ts_map (pushFrontRank i s) = ts_map s" "queueGeneration (pushFrontRank i s) = queueGeneration s"
  "pendingCandidates (pushFrontRank i s) = pendingCandidates s" "flushScheduled (pushFrontRank i s) = flushScheduled s"
  "treeModeMap (pushFrontRank i s) = treeModeMap s" "storage (pushFrontRank i s) = storage s"
  "rankCounter (pushFrontRank i s) = rankCounter s + 1"
  by (simp_all add: pushFrontRank_def)

lemma fold_pushFrontRank_frame [simp, frame]:
  "ts_map (fold pushFrontRank ids s) = ts_map s" "queueGeneration (fold pushFrontRank ids s) = queueGeneration s"
  "pendingCandidates (fold pushFrontRank ids s) = pendingCandidates s"
  "flushScheduled (fold pushFrontRank ids s) = flushScheduled s"
  "treeModeMap (fold pushFrontRank ids s) = treeModeMap s" "storage (fold pushFrontRank ids s) = storage s"
  by (induction ids arbitrary: s) auto

lemma pushFrontRankBatch_frame [simp, frame]:
  "ts_map (pushFrontRankBatch ids s) = ts_map s" "queueGeneration (pushFrontRankBatch ids s) = queueGeneration s"
  "pendingCandidates (pushFrontRankBatch ids s) = pendingCandidates s"
  "flushScheduled (pushFrontRankBatch ids s) = flushScheduled s"
  "treeModeMap (pushFrontRankBatch ids s) = treeModeMap s" "storage (pushFrontRankBatch ids s) = storage s"
  by (simp_all add: pushFrontRankBatch_def)

lemma rebuildRankState_batch:
  "rebuildRankState m s = pushFrontRankBatch (map nid (js_sort recency_cmp (js_values m))) (clearRankState s)"
proof -
  have "(\<lambda>n st. st\<lparr>rankSeq := js_set (nid n) (rankCounter st + 1) (rankSeq st), rankCounter := rankCounter st + 1\<rparr>)
      = (\<lambda>n :: tree_node. pushFrontRank (nid n))"
    by (simp add: fun_eq_iff pushFrontRank_def)
  then show ?thesis
    by (simp add: rebuildRankState_def pushFrontRankBatch_def clearRankState_def rev_map fold_map comp_def Let_def)
qed

lemma clearRankState_frame [simp, frame]:
  "ts_map (clearRankState s) = ts_map s" "queueGeneration (clearRankState s) = queueGeneration s"
  "pendingCandidates (clearRankState s) = pendingCandidates s" "flushScheduled (clearRankState s) = flushScheduled s"
  "treeModeMap (clearRankState s) = treeModeMap s" "storage (clearRankState s) = storage s"
  by (simp_all add: clearRankState_def)

section \<open>Modes\<close>

definition mode_in :: "mode_map \<Rightarrow> string \<Rightarrow> tree_mode" where
  "mode_in m i = (case js_get m i of Some md \<Rightarrow> md | None \<Rightarrow> Filtered)"

lemma modeOf_mode_in: "modeOf s i = mode_in (treeModeMap s) i"
  by (simp add: modeOf_def mode_in_def)

lemma mode_in_simps [simp]:
  "js_get m i = Some md \<Longrightarrow> mode_in m i = md" "js_get m i = None \<Longrightarrow> mode_in m i = Filtered"
  by (simp_all add: mode_in_def)

lemma setNodeModes_get:
  assumes "js_wf ch"
  shows "js_get (treeModeMap (setNodeModes ch s)) i =
    (case js_get ch i of Some md \<Rightarrow> Some md | None \<Rightarrow> js_get (treeModeMap s) i)"
proof -
  let ?f = "\<lambda>(i, md) nxt. if js_get (treeModeMap s) i = Some md then nxt
     else Some (js_set i md (case nxt of Some m \<Rightarrow> m | None \<Rightarrow> treeModeMap s))"
  let ?cur = "\<lambda>nxt. case nxt of Some m \<Rightarrow> m | None \<Rightarrow> treeModeMap s"
  have "js_get (?cur (fold ?f ch nxt)) i = (case js_get ch i of Some md \<Rightarrow> Some md | None \<Rightarrow> js_get (?cur nxt) i)"
    if "js_wf ch" and "i \<in> set (js_keys ch) \<longrightarrow> js_get (?cur nxt) i = js_get (treeModeMap s) i" for nxt
    using that
  proof (induction ch arbitrary: nxt)
    case (Cons p ch)
    obtain j md where p: "p = (j, md)" by (cases p)
    have wf: "js_wf ch" and new: "j \<notin> set (js_keys ch)" and absent: "js_get ch j = None"
      using Cons.prems(1) by (auto simp: js_wf_def js_keys_def p map_of_eq_None_iff)
    have "i \<in> set (js_keys ch) \<longrightarrow> js_get (?cur (?f p nxt)) i = js_get (treeModeMap s) i"
      using Cons.prems(2) new by (auto simp: p js_keys_def)
    then have "js_get (?cur (fold ?f ch (?f p nxt))) i =
        (case js_get ch i of Some md \<Rightarrow> Some md | None \<Rightarrow> js_get (?cur (?f p nxt)) i)"
      by (rule Cons.IH [OF wf])
    then show ?case
      using Cons.prems(2) absent by (auto simp: p js_keys_def split: option.splits)
  qed simp
  from this [of None] assms show ?thesis
    by (auto simp: setNodeModes_def split: option.splits)
qed

lemma setNodeModes_wf:
  assumes "js_wf (treeModeMap s)"
  shows "js_wf (treeModeMap (setNodeModes ch s))"
proof -
  let ?f = "\<lambda>(i, md) nxt. if js_get (treeModeMap s) i = Some md then nxt
     else Some (js_set i md (case nxt of Some m \<Rightarrow> m | None \<Rightarrow> treeModeMap s))"
  have "(\<forall>m. nxt = Some m \<longrightarrow> js_wf m) \<Longrightarrow> fold ?f ch nxt = Some m \<Longrightarrow> js_wf m" for nxt m
  proof (induction ch arbitrary: nxt)
    case (Cons p ch)
    have "\<forall>m. ?f p nxt = Some m \<longrightarrow> js_wf m"
      using Cons.prems(1) assms by (cases p; cases nxt) auto
    then show ?case using Cons.IH [of "?f p nxt"] Cons.prems(2) by simp
  qed simp
  from this [of None] assms show ?thesis
    by (auto simp: setNodeModes_def split: option.splits)
qed

section \<open>The loop over the affected ids\<close>

definition front_cond :: "(string \<Rightarrow> tree_node option) \<Rightarrow> tree_flat_map \<Rightarrow> string \<Rightarrow> bool" where
  "front_cond before m i = (case js_get m i of
      None \<Rightarrow> False
    | Some after \<Rightarrow> (case before i of None \<Rightarrow> True | Some prev \<Rightarrow> \<not> working prev \<and> working after))"

definition must_collapse :: "tree_flat_map \<Rightarrow> mode_map \<Rightarrow> string \<Rightarrow> bool" where
  "must_collapse m modes i = (case js_get m i of
      None \<Rightarrow> False
    | Some n \<Rightarrow> \<not> working n \<and> mode_in modes i = Filtered \<and>
        (js_get modes i \<noteq> Some Filtered \<or> activityEstablished n))"

definition queue_ok :: "tree_state \<Rightarrow> bool" where
  "queue_ok s \<longleftrightarrow> js_wf (pendingCandidates s) \<and> (pendingCandidates s \<noteq> [] \<longrightarrow> flushScheduled s) \<and>
     (\<forall>k c. js_get (pendingCandidates s) k = Some c \<longrightarrow>
        c_id c = k \<and> c_generation c = queueGeneration s \<and> expectedSourceMode c = Collapsed \<and>
        expectedWorking c \<and> targetMode c = Filtered)"

lemma enqueue_frame [simp, frame]:
  "ts_map (enqueueAutoModeCandidate i a w t s) = ts_map s"
  "treeModeMap (enqueueAutoModeCandidate i a w t s) = treeModeMap s"
  "rankSeq (enqueueAutoModeCandidate i a w t s) = rankSeq s"
  "rankCounter (enqueueAutoModeCandidate i a w t s) = rankCounter s"
  "storage (enqueueAutoModeCandidate i a w t s) = storage s"
  "queueGeneration (enqueueAutoModeCandidate i a w t s) = queueGeneration s"
  "userToggled (enqueueAutoModeCandidate i a w t s) = userToggled s"
  by (simp_all add: enqueueAutoModeCandidate_def)

lemma enqueue_queue_ok:
  "queue_ok s \<Longrightarrow> queue_ok (enqueueAutoModeCandidate i Collapsed True Filtered s)"
  by (auto simp: queue_ok_def enqueueAutoModeCandidate_def)

lemma visit_one:
  assumes "visit_affected before (treeModeMap s) i (s, sync, front) = (s', sync', front')"
  shows "ts_map s' = ts_map s" "treeModeMap s' = treeModeMap s" "rankSeq s' = rankSeq s"
    "rankCounter s' = rankCounter s" "storage s' = storage s" "queueGeneration s' = queueGeneration s"
    "front' = (if front_cond before (ts_map s) i then front @ [i] else front)"
    "sync' = (if must_collapse (ts_map s) (treeModeMap s) i then js_set i Collapsed sync else sync)"
    "queue_ok s \<longrightarrow> queue_ok s'"
  using assms
  by (auto simp: visit_affected_def front_cond_def must_collapse_def modeOf_mode_in Let_def transition_cases
      enqueue_queue_ok split: option.splits if_splits prod.splits)

lemma visit_fold:
  assumes "fold (visit_affected before (treeModeMap s)) ids (s, sync, front) = (s', sync', front')"
  shows "ts_map s' = ts_map s" "treeModeMap s' = treeModeMap s" "rankSeq s' = rankSeq s"
    "rankCounter s' = rankCounter s" "storage s' = storage s" "queueGeneration s' = queueGeneration s"
    "front' = front @ filter (front_cond before (ts_map s)) ids"
    "sync' = fold (\<lambda>i. js_set i Collapsed) (filter (must_collapse (ts_map s) (treeModeMap s)) ids) sync"
    "queue_ok s \<longrightarrow> queue_ok s'"
proof -
  have "ts_map s' = ts_map s \<and> treeModeMap s' = treeModeMap s \<and> rankSeq s' = rankSeq s \<and>
    rankCounter s' = rankCounter s \<and> storage s' = storage s \<and> queueGeneration s' = queueGeneration s \<and>
    front' = front @ filter (front_cond before (ts_map s)) ids \<and>
    sync' = fold (\<lambda>i. js_set i Collapsed) (filter (must_collapse (ts_map s) (treeModeMap s)) ids) sync \<and>
    (queue_ok s \<longrightarrow> queue_ok s')"
    using assms
  proof (induction ids arbitrary: s sync front)
    case (Cons i ids)
    obtain s1 sync1 front1 where one: "visit_affected before (treeModeMap s) i (s, sync, front) = (s1, sync1, front1)"
      by (metis prod_cases3)
    note v = visit_one [OF one]
    have "fold (visit_affected before (treeModeMap s1)) ids (s1, sync1, front1) = (s', sync', front')"
      using Cons.prems one v(2) by simp
    from Cons.IH [OF this] v show ?case by auto
  qed simp
  then show "ts_map s' = ts_map s" "treeModeMap s' = treeModeMap s" "rankSeq s' = rankSeq s"
    "rankCounter s' = rankCounter s" "storage s' = storage s" "queueGeneration s' = queueGeneration s"
    "front' = front @ filter (front_cond before (ts_map s)) ids"
    "sync' = fold (\<lambda>i. js_set i Collapsed) (filter (must_collapse (ts_map s) (treeModeMap s)) ids) sync"
    "queue_ok s \<longrightarrow> queue_ok s'"
    by auto
qed

text \<open>The edges the loop queues: a collapsed node that was idle before the operation and works after it.\<close>

definition queued_edge :: "(string \<Rightarrow> tree_node option) \<Rightarrow> tree_flat_map \<Rightarrow> mode_map \<Rightarrow> string \<Rightarrow> bool" where
  "queued_edge before m modes i = (case (before i, js_get m i) of
      (Some prev, Some after) \<Rightarrow> \<not> working prev \<and> working after \<and> mode_in modes i = Collapsed
    | _ \<Rightarrow> False)"

lemma visit_pending:
  assumes "visit_affected before (treeModeMap s) i (s, sync, front) = (s', sync', front')"
  shows "js_get (pendingCandidates s') k \<noteq> None \<longleftrightarrow>
    js_get (pendingCandidates s) k \<noteq> None \<or> k = i \<and> queued_edge before (ts_map s) (treeModeMap s) i"
  using assms
  by (auto simp: visit_affected_def queued_edge_def modeOf_mode_in Let_def transition_cases
      enqueueAutoModeCandidate_def split: option.splits if_splits prod.splits)

lemma visit_fold_pending:
  assumes "fold (visit_affected before (treeModeMap s)) ids (s, sync, front) = (s', sync', front')"
  shows "js_get (pendingCandidates s') k \<noteq> None \<longleftrightarrow>
    js_get (pendingCandidates s) k \<noteq> None \<or> k \<in> set ids \<and> queued_edge before (ts_map s) (treeModeMap s) k"
  using assms
proof (induction ids arbitrary: s sync front)
  case (Cons i ids)
  obtain s1 sync1 front1 where one: "visit_affected before (treeModeMap s) i (s, sync, front) = (s1, sync1, front1)"
    by (metis prod_cases3)
  have "fold (visit_affected before (treeModeMap s1)) ids (s1, sync1, front1) = (s', sync', front')"
    using Cons.prems one visit_one(2) [OF one] by simp
  from Cons.IH [OF this] visit_pending [OF one, of k] visit_one(1,2) [OF one] show ?case by auto
qed simp

lemma fold_set_const_get:
  "js_get (fold (\<lambda>i. js_set i v) ids m) k = (if k \<in> set ids then Some v else js_get m k)"
  by (induction ids arbitrary: m) auto

lemma fold_set_const_wf: "js_wf m \<Longrightarrow> js_wf (fold (\<lambda>i. js_set i v) ids m)"
  by (induction ids arbitrary: m) auto

section \<open>Ranks\<close>

definition rank_wf :: "tree_state \<Rightarrow> bool" where
  "rank_wf s \<longleftrightarrow> js_wf (rankSeq s) \<and> (\<forall>k r. js_get (rankSeq s) k = Some r \<longrightarrow> r \<le> rankCounter s) \<and>
     (\<forall>j k r. js_get (rankSeq s) j = Some r \<and> js_get (rankSeq s) k = Some r \<longrightarrow> j = k)"

definition rank_ok :: "tree_state \<Rightarrow> bool" where
  "rank_ok s \<longleftrightarrow> rank_wf s \<and> (\<forall>k. js_get (rankSeq s) k \<noteq> None \<longleftrightarrow> js_get (ts_map s) k \<noteq> None)"

lemma push_rank_get:
  "js_get (rankSeq (pushFrontRank i s)) k = (if k = i then Some (rankCounter s + 1) else js_get (rankSeq s) k)"
  by (simp add: pushFrontRank_def)

lemma push_rank_wf: "rank_wf s \<Longrightarrow> rank_wf (pushFrontRank i s)"
  by (fastforce simp: rank_wf_def pushFrontRank_def split: if_splits)

lemma fold_push_wf: "rank_wf s \<Longrightarrow> rank_wf (fold pushFrontRank ids s)"
  by (induction ids arbitrary: s) (auto intro: push_rank_wf)

lemma batch_wf: "rank_wf s \<Longrightarrow> rank_wf (pushFrontRankBatch ids s)"
  by (simp add: pushFrontRankBatch_def fold_push_wf)

lemma fold_push_absent:
  "k \<notin> set ids \<Longrightarrow> js_get (rankSeq (fold pushFrontRank ids s)) k = js_get (rankSeq s) k"
  by (induction ids arbitrary: s) (auto simp: push_rank_get)

lemma fold_push_counter: "rankCounter (fold pushFrontRank ids s) = rankCounter s + int (length ids)"
  by (induction ids arbitrary: s) auto

lemma fold_push_at:
  "k \<notin> set ys \<Longrightarrow>
    js_get (rankSeq (fold pushFrontRank (xs @ k # ys) s)) k = Some (rankCounter s + int (length xs) + 1)"
  by (simp add: fold_push_absent push_rank_get fold_push_counter)

lemma batch_absent:
  "k \<notin> set ids \<Longrightarrow> js_get (rankSeq (pushFrontRankBatch ids s)) k = js_get (rankSeq s) k"
  by (simp add: pushFrontRankBatch_def fold_push_absent)

text \<open>In a batch the first occurrence of an id decides: earlier ids get higher ranks.\<close>

lemma batch_at:
  "k \<notin> set xs \<Longrightarrow>
    js_get (rankSeq (pushFrontRankBatch (xs @ k # ys) s)) k = Some (rankCounter s + int (length ys) + 1)"
  using fold_push_at [of k "rev xs" "rev ys" s] by (simp add: pushFrontRankBatch_def)

lemma batch_present:
  assumes "k \<in> set ids"
  obtains r where "js_get (rankSeq (pushFrontRankBatch ids s)) k = Some r" "rankCounter s < r"
proof -
  from assms obtain xs ys where "ids = xs @ k # ys" "k \<notin> set xs"
    by (meson split_list_first)
  then show thesis using batch_at [of k xs ys s] that by simp
qed

lemma batch_dom:
  "js_get (rankSeq (pushFrontRankBatch ids s)) k \<noteq> None \<longleftrightarrow> k \<in> set ids \<or> js_get (rankSeq s) k \<noteq> None"
  by (cases "k \<in> set ids") (auto simp: batch_absent elim: batch_present [of k ids s])

lemma batch_order:
  assumes "distinct (xs @ j # ys @ k # zs)"
  shows "the (js_get (rankSeq (pushFrontRankBatch (xs @ j # ys @ k # zs) s)) k)
       < the (js_get (rankSeq (pushFrontRankBatch (xs @ j # ys @ k # zs) s)) j)"
  using batch_at [of j xs "ys @ k # zs" s] batch_at [of k "xs @ j # ys" zs s] assms by auto

lemma batch_cong:
  assumes "rankSeq s = rankSeq t" and "rankCounter s = rankCounter t"
  shows "rankSeq (pushFrontRankBatch ids s) = rankSeq (pushFrontRankBatch ids t)"
    and "rankCounter (pushFrontRankBatch ids s) = rankCounter (pushFrontRankBatch ids t)"
proof -
  have "rankSeq (fold pushFrontRank ids s) = rankSeq (fold pushFrontRank ids t) \<and>
      rankCounter (fold pushFrontRank ids s) = rankCounter (fold pushFrontRank ids t)" for ids
    using assms by (induction ids arbitrary: s t) (auto simp: pushFrontRank_def)
  then show "rankSeq (pushFrontRankBatch ids s) = rankSeq (pushFrontRankBatch ids t)"
    and "rankCounter (pushFrontRankBatch ids s) = rankCounter (pushFrontRankBatch ids t)"
    by (simp_all add: pushFrontRankBatch_def)
qed

lemma rank_wf_clear: "rank_wf (clearRankState s)"
  by (simp add: rank_wf_def clearRankState_def)

lemma rank_wf_delete_all:
  "rank_wf s \<Longrightarrow> rank_wf (s\<lparr>rankSeq := js_delete_all ids (rankSeq s)\<rparr>)"
  by (auto simp: rank_wf_def split: if_splits)

lemma rank_wf_cong:
  "rank_wf s \<Longrightarrow> rankSeq t = rankSeq s \<Longrightarrow> rankCounter t = rankCounter s \<Longrightarrow> rank_wf t"
  by (simp add: rank_wf_def)

section \<open>What an applied operation does to the map and to the store\<close>

lemma applyOp_unaffected:
  "applyOp m op = Some m' \<Longrightarrow> (\<forall>i. op \<noteq> NodeRemove i) \<Longrightarrow> k \<notin> set (affectedIdsOfOp op) \<Longrightarrow>
    js_get m' k = js_get m k"
  by (cases op) (auto simp: Let_def get_fold_set_absent split: option.splits if_splits)

lemma applyOp_stays:
  "applyOp m op = Some m' \<Longrightarrow> (\<forall>i. op \<noteq> NodeRemove i) \<Longrightarrow> js_get m k \<noteq> None \<Longrightarrow> js_get m' k \<noteq> None"
  using get_fold_set_ids
  by (cases op) (fastforce simp: Let_def split: option.splits if_splits)+

lemma applyOp_remove_get:
  assumes "tm_wf m" and "applyOp m (NodeRemove i) = Some m'"
  shows "js_get m' k = (if js_get m i \<noteq> None \<and> k \<in> subtree m i then None else js_get m k)"
proof (cases "js_get m i")
  case None
  then show ?thesis using assms(2) by (simp add: js_delete_all_def js_delete_absent)
next
  case (Some n)
  with assms(2) obtain ids where ids: "loadedDescendants m i = Some ids" "m' = js_delete i (js_delete_all ids m)"
    by (auto split: option.splits)
  then have "set ids = subtree m i" using loadedDescendants_correct(2) [OF assms(1) _ ids(1)] Some by simp
  then show ?thesis using ids Some by simp
qed

definition removed_ids :: "tree_flat_map \<Rightarrow> tree_op \<Rightarrow> string list" where
  "removed_ids m op = (case op of NodeRemove i \<Rightarrow> the (loadedDescendants m i) | _ \<Rightarrow> [])"

definition fronted_ids :: "tree_flat_map \<Rightarrow> tree_flat_map \<Rightarrow> tree_op \<Rightarrow> string list" where
  "fronted_ids m m' op = filter (front_cond (js_get m) m') (affectedIdsOfOp op) @
     (case op of NodeMove i np \<Rightarrow> if js_get m' i \<noteq> None then [i] else [] | _ \<Rightarrow> [])"

definition collapsed_ids :: "tree_flat_map \<Rightarrow> mode_map \<Rightarrow> tree_op \<Rightarrow> string list" where
  "collapsed_ids m' modes op = filter (must_collapse m' modes) (affectedIdsOfOp op)"

lemma applyTreeOpStore_result:
  assumes ret: "applyTreeOpStore op s = Some s'"
  obtains m' where "applyOp (ts_map s) op = Some m'" "ts_map s' = m'"
    "rankSeq s' = js_delete_all (removed_ids (ts_map s) op)
       (rankSeq (pushFrontRankBatch (fronted_ids (ts_map s) m' op) s))"
    "rankCounter s' = rankCounter (pushFrontRankBatch (fronted_ids (ts_map s) m' op) s)"
    "\<And>i. js_get (treeModeMap s') i =
       (if i \<in> set (collapsed_ids m' (treeModeMap s) op) then Some Collapsed else js_get (treeModeMap s) i)"
    "js_wf (treeModeMap s) \<Longrightarrow> js_wf (treeModeMap s')"
    "queue_ok s \<Longrightarrow> queue_ok s'" "queueGeneration s' = queueGeneration s"
    "ls_writes (storage s') \<le> ls_writes (storage s) + 1"
proof -
  from ret obtain m' where m': "applyOp (ts_map s) op = Some m'"
    by (auto simp: applyTreeOpStore_def Let_def split: option.splits)
  obtain s1 sync front where loop:
    "fold (visit_affected (js_get (ts_map s)) (treeModeMap s)) (affectedIdsOfOp op) (s\<lparr>ts_map := m'\<rparr>, [], []) = (s1, sync, front)"
    by (metis prod_cases3)
  have "fold (visit_affected (js_get (ts_map s)) (treeModeMap (s\<lparr>ts_map := m'\<rparr>))) (affectedIdsOfOp op)
      (s\<lparr>ts_map := m'\<rparr>, [], []) = (s1, sync, front)"
    using loop by simp
  note v = visit_fold [OF this, simplified]
  let ?s2 = "pushFrontRankBatch (fronted_ids (ts_map s) m' op) s1"
  let ?s3 = "?s2\<lparr>rankSeq := js_delete_all (removed_ids (ts_map s) op) (rankSeq ?s2)\<rparr>"
  have walk: "(case op of NodeRemove i \<Rightarrow> loadedDescendants (ts_map s) i | _ \<Rightarrow> Some [])
      = Some (removed_ids (ts_map s) op)"
    using m' by (cases op) (auto simp: removed_ids_def split: option.splits)
  have front: "(case op of NodeMove i np \<Rightarrow> if js_has m' i then front @ [i] else front | _ \<Rightarrow> front)
      = fronted_ids (ts_map s) m' op"
    using v(7) by (cases op) (auto simp: fronted_ids_def)
  have "s' = bump (let s2 = (if fronted_ids (ts_map s) m' op \<noteq> [] then ?s2 else s1);
        s3 = s2\<lparr>rankSeq := js_delete_all (removed_ids (ts_map s) op) (rankSeq s2)\<rparr>
      in if sync \<noteq> [] then setNodeModes sync s3 else s3)"
    using ret unfolding applyTreeOpStore_def Let_def walk by (simp only: option.case m' loop prod.case front option.inject)
  then have s': "s' = bump (setNodeModes sync ?s3)"
    by (cases "fronted_ids (ts_map s) m' op = []"; cases "sync = []") (simp_all add: Let_def)
  have sync: "js_get sync i = (if i \<in> set (collapsed_ids m' (treeModeMap s) op) then Some Collapsed else None)" for i
    unfolding v(8) by (simp add: fold_set_const_get collapsed_ids_def)
  have sync_wf: "js_wf sync" unfolding v(8) by (rule fold_set_const_wf) simp
  note cong = batch_cong [of s1 s, OF v(3,4)]
  have q: "queue_ok (setNodeModes sync ?s3)" if "queue_ok s"
    using that v(9) by (simp add: queue_ok_def)
  show thesis
  proof (rule that [OF m'])
    show "ts_map s' = m'" using v(1) by (simp add: s')
    show "rankSeq s' = js_delete_all (removed_ids (ts_map s) op)
        (rankSeq (pushFrontRankBatch (fronted_ids (ts_map s) m' op) s))"
      by (simp add: s' cong)
    show "rankCounter s' = rankCounter (pushFrontRankBatch (fronted_ids (ts_map s) m' op) s)"
      by (simp add: s' cong)
    show "js_get (treeModeMap s') i =
       (if i \<in> set (collapsed_ids m' (treeModeMap s) op) then Some Collapsed else js_get (treeModeMap s) i)" for i
      using setNodeModes_get [OF sync_wf, of ?s3 i] v(2) sync [of i] by (simp add: s')
    show "js_wf (treeModeMap s')" if "js_wf (treeModeMap s)"
      using setNodeModes_wf [of ?s3 sync] that v(2) by (simp add: s')
    show "queue_ok s'" if "queue_ok s" using q [OF that] by (simp add: s' queue_ok_def)
    show "queueGeneration s' = queueGeneration s" using v(6) by (simp add: s')
    show "ls_writes (storage s') \<le> ls_writes (storage s) + 1"
      using setNodeModes_writes [of sync ?s3] v(5) by (simp add: s')
  qed
qed

text \<open>An operation queues exactly the edges among its affected ids; what was queued stays queued.\<close>

lemma op_pending:
  assumes ret: "applyTreeOpStore op s = Some s'"
  shows "js_get (pendingCandidates s') k \<noteq> None \<longleftrightarrow> js_get (pendingCandidates s) k \<noteq> None \<or>
    k \<in> set (affectedIdsOfOp op) \<and> queued_edge (js_get (ts_map s)) (ts_map s') (treeModeMap s) k"
proof -
  from ret obtain m' where m': "applyOp (ts_map s) op = Some m'"
    by (auto simp: applyTreeOpStore_def Let_def split: option.splits)
  obtain s1 sync front where loop:
    "fold (visit_affected (js_get (ts_map s)) (treeModeMap s)) (affectedIdsOfOp op) (s\<lparr>ts_map := m'\<rparr>, [], []) = (s1, sync, front)"
    by (metis prod_cases3)
  have "ts_map s' = ts_map s1" "pendingCandidates s' = pendingCandidates s1"
    using ret by (auto simp: applyTreeOpStore_def Let_def m' loop split: option.splits prod.splits)
  moreover have run: "fold (visit_affected (js_get (ts_map s)) (treeModeMap (s\<lparr>ts_map := m'\<rparr>))) (affectedIdsOfOp op)
      (s\<lparr>ts_map := m'\<rparr>, [], []) = (s1, sync, front)"
    using loop by simp
  ultimately show ?thesis using visit_fold_pending [OF run, of k] visit_fold(1) [OF run] by simp
qed

section \<open>The store invariant\<close>

definition ts_inv :: "tree_state \<Rightarrow> bool" where
  "ts_inv s \<longleftrightarrow> tm_wf (ts_map s) \<and> js_wf (treeModeMap s) \<and> queue_ok s \<and> rank_ok s"

text \<open>
  No resident idle node is shown in filtered mode, unless the entry is explicit and the
  node's activity has never been observed.
\<close>

definition no_idle_filtered :: "tree_state \<Rightarrow> bool" where
  "no_idle_filtered s \<longleftrightarrow> (\<forall>k. \<not> must_collapse (ts_map s) (treeModeMap s) k)"

lemma queue_ok_cong:
  "queue_ok s \<Longrightarrow> pendingCandidates t = pendingCandidates s \<Longrightarrow> queueGeneration t = queueGeneration s \<Longrightarrow>
    flushScheduled t = flushScheduled s \<Longrightarrow> queue_ok t"
  by (simp add: queue_ok_def)

lemma rank_ok_cong:
  "rank_ok s \<Longrightarrow> rankSeq t = rankSeq s \<Longrightarrow> rankCounter t = rankCounter s \<Longrightarrow>
    (\<And>k. js_get (ts_map t) k = None \<longleftrightarrow> js_get (ts_map s) k = None) \<Longrightarrow> rank_ok t"
  by (simp add: rank_ok_def rank_wf_def)

subsection \<open>Seeding\<close>

definition seed_changes :: "tree_state \<Rightarrow> tree_flat_map \<Rightarrow> mode_map" where
  "seed_changes s m = fold (\<lambda>(i, n) ch. case seed_change s i n of
      Some md \<Rightarrow> js_set i md ch | None \<Rightarrow> ch) m []"

lemma seed_changes_wf: "js_wf (seed_changes s m)"
proof -
  let ?f = "\<lambda>(i, n) ch. case seed_change s i n of Some md \<Rightarrow> js_set i md ch | None \<Rightarrow> ch"
  have "js_wf ch \<Longrightarrow> js_wf (fold ?f m ch)" for ch
  proof (induction m arbitrary: ch)
    case (Cons p m)
    obtain i n where p: "p = (i, n)" by (cases p)
    have "js_wf (?f p ch)"
      using Cons.prems by (cases "seed_change s i n") (simp_all add: p)
    then show ?case using Cons.IH [of "?f p ch"] by simp
  qed simp
  then show ?thesis by (simp add: seed_changes_def)
qed

lemma seed_changes_get:
  assumes "js_wf m"
  shows "js_get (seed_changes s m) k = Option.bind (js_get m k) (seed_change s k)"
proof -
  let ?f = "\<lambda>(i, n) ch. case seed_change s i n of Some md \<Rightarrow> js_set i md ch | None \<Rightarrow> ch"
  have "js_get (fold ?f m ch) k
      = (case Option.bind (js_get m k) (seed_change s k) of Some md \<Rightarrow> Some md | None \<Rightarrow> js_get ch k)" for ch
    using assms
  proof (induction m arbitrary: ch)
    case (Cons p m)
    obtain i n where p: "p = (i, n)" by (cases p)
    have wf: "js_wf m" and "js_get m i = None"
      using Cons.prems by (auto simp: js_wf_def p map_of_eq_None_iff)
    then show ?case
      using Cons.IH [OF wf, of "?f p ch"]
      by (cases "i = k"; cases "seed_change s i n") (simp_all add: p split: option.split)
  qed simp
  then show ?thesis by (auto simp: seed_changes_def split: option.splits)
qed

lemma seedTreeStore_alt:
  "seedTreeStore nodes s = bump (pushFrontRankBatch (map nid (js_sort recency_cmp (js_values (seedTree nodes))))
     (clearRankState (invalidateAutoQueue (setNodeModes (seed_changes s (seedTree nodes)) (s\<lparr>ts_map := seedTree nodes\<rparr>)))))"
  by (simp add: seedTreeStore_def seed_changes_def rebuildRankState_batch Let_def)

lemma invalidate_frame [simp, frame]:
  "ts_map (invalidateAutoQueue s) = ts_map s" "treeModeMap (invalidateAutoQueue s) = treeModeMap s"
  "pendingCandidates (invalidateAutoQueue s) = []" "storage (invalidateAutoQueue s) = storage s"
  "queueGeneration (invalidateAutoQueue s) = queueGeneration s + 1"
  "flushScheduled (invalidateAutoQueue s) = flushScheduled s"
  by (simp_all add: invalidateAutoQueue_def)

lemma seed_frame [simp, frame]:
  "ts_map (seedTreeStore nodes s) = seedTree nodes"
  "pendingCandidates (seedTreeStore nodes s) = []"
  "queueGeneration (seedTreeStore nodes s) = queueGeneration s + 1"
  by (simp_all add: seedTreeStore_alt)

lemma seed_modes:
  "js_get (treeModeMap (seedTreeStore nodes s)) k =
     (case Option.bind (js_get (seedTree nodes) k) (seed_change s k) of
        Some md \<Rightarrow> Some md | None \<Rightarrow> js_get (treeModeMap s) k)"
  using seed_changes_get [OF tm_wf_js_wf [OF tm_wf_seedTree], of s nodes k]
  by (simp add: seedTreeStore_alt setNodeModes_get [OF seed_changes_wf] split: option.split)

lemma seed_ranks:
  "rankSeq (seedTreeStore nodes s) = rankSeq (pushFrontRankBatch (map nid (js_sort recency_cmp (js_values (seedTree nodes)))) (clearRankState s))"
  "rankCounter (seedTreeStore nodes s) = rankCounter (pushFrontRankBatch (map nid (js_sort recency_cmp (js_values (seedTree nodes)))) (clearRankState s))"
  by (simp_all add: seedTreeStore_alt) (rule batch_cong; simp add: clearRankState_def)+

lemma seed_rank_ok: "rank_ok (seedTreeStore nodes s)"
proof -
  have wf: "tm_wf (seedTree nodes)" by (rule tm_wf_seedTree)
  have "rank_wf (seedTreeStore nodes s)"
    using batch_wf [OF rank_wf_clear] seed_ranks [of nodes s] by (rule rank_wf_cong)
  moreover have "js_get (rankSeq (seedTreeStore nodes s)) k \<noteq> None \<longleftrightarrow> js_get (seedTree nodes) k \<noteq> None" for k
  proof -
    have "nid ` set (js_values (seedTree nodes)) = set (js_keys (seedTree nodes))"
      using map_nid_values [OF wf] by (metis list.set_map)
    then show ?thesis
      by (simp only: seed_ranks batch_dom) (simp add: clearRankState_def js_keys_iff)
  qed
  ultimately show ?thesis by (simp add: rank_ok_def)
qed

lemma seed_inv [step_inv]: "ts_inv s \<Longrightarrow> ts_inv (seedTreeStore nodes s)"
proof -
  assume inv: "ts_inv s"
  have "js_wf (treeModeMap (seedTreeStore nodes s))"
    using inv by (simp add: seedTreeStore_alt setNodeModes_wf ts_inv_def)
  then show ?thesis
    using tm_wf_seedTree seed_rank_ok by (simp add: ts_inv_def queue_ok_def)
qed

lemma seed_no_idle_filtered: "no_idle_filtered (seedTreeStore nodes s)"
  unfolding no_idle_filtered_def
proof
  fix k
  show "\<not> must_collapse (ts_map (seedTreeStore nodes s)) (treeModeMap (seedTreeStore nodes s)) k"
  proof (cases "js_get (seedTree nodes) k")
    case None
    then show ?thesis by (simp add: must_collapse_def)
  next
    case (Some n)
    then have modes: "js_get (treeModeMap (seedTreeStore nodes s)) k =
        (case seed_change s k n of Some md \<Rightarrow> Some md | None \<Rightarrow> js_get (treeModeMap s) k)"
      by (simp add: seed_modes)
    show ?thesis
    proof (cases "working n")
      case True
      then show ?thesis using Some by (simp add: must_collapse_def)
    next
      case False
      consider "js_get (treeModeMap s) k = Some Filtered" "\<not> activityEstablished n" | "mode_in (treeModeMap s) k \<noteq> Filtered"
        | "js_get (treeModeMap s) k = Some Filtered" "activityEstablished n" | "js_get (treeModeMap s) k = None"
        by (cases "js_get (treeModeMap s) k") auto
      then show ?thesis
        using False Some modes
        by cases (auto simp: must_collapse_def seed_change_def modeOf_mode_in mode_in_def Let_def
            autoTreeModeForWorkingTransition_def split: option.splits if_splits)
    qed
  qed
qed

end
