(* ===== verification/TreeStore.thy ===== *)
theory TreeStore
  imports TreeStateInv
begin

text \<open>
  Every event of \<^verbatim>\<open>web/src/sync/treeState.ts\<close> against the store invariant: the remaining
  operations, the machine as a whole, the flush of the deferred promotions, the order a
  seed gives, and the load of the persisted modes.
\<close>

section \<open>Operations\<close>

lemma front_cond_resident: "front_cond before m i \<Longrightarrow> js_get m i \<noteq> None"
  by (simp add: front_cond_def split: option.splits)

lemma fronted_resident: "i \<in> set (fronted_ids m m' op) \<Longrightarrow> js_get m' i \<noteq> None"
  by (cases op) (auto simp: fronted_ids_def dest!: front_cond_resident split: if_splits)

lemma applyOp_dom:
  assumes "applyOp m op = Some m'" and "\<forall>i. op \<noteq> NodeRemove i"
  shows "js_get m' k \<noteq> None \<longleftrightarrow> k \<in> set (fronted_ids m m' op) \<or> js_get m k \<noteq> None"
proof -
  have "k \<in> set (fronted_ids m m' op)" if "js_get m' k \<noteq> None" "js_get m k = None"
  proof -
    have "k \<in> set (affectedIdsOfOp op)"
      using applyOp_unaffected [OF assms, of k] that by fastforce
    then show ?thesis using that by (auto simp: fronted_ids_def front_cond_def)
  qed
  then show ?thesis
    using fronted_resident [of k m m' op] applyOp_stays [OF assms, of k] by blast
qed

lemma rank_ok_op:
  assumes inv: "tm_wf (ts_map s)" "rank_ok s" and ret: "applyTreeOpStore op s = Some s'"
  shows "rank_ok s'"
proof -
  obtain m' where m': "applyOp (ts_map s) op = Some m'" and map: "ts_map s' = m'"
    and seq: "rankSeq s' = js_delete_all (removed_ids (ts_map s) op)
       (rankSeq (pushFrontRankBatch (fronted_ids (ts_map s) m' op) s))"
    and ctr: "rankCounter s' = rankCounter (pushFrontRankBatch (fronted_ids (ts_map s) m' op) s)"
    by (rule applyTreeOpStore_result [OF ret])
  let ?b = "pushFrontRankBatch (fronted_ids (ts_map s) m' op) s"
  have "rank_wf ?b" using inv(2) by (simp add: rank_ok_def batch_wf)
  from rank_wf_delete_all [OF this, of "removed_ids (ts_map s) op"]
  have "rank_wf s'" by (rule rank_wf_cong) (simp_all add: seq ctr)
  moreover have "js_get (rankSeq s') k \<noteq> None \<longleftrightarrow> js_get m' k \<noteq> None" for k
  proof (cases "\<exists>i. op = NodeRemove i")
    case False
    then have "removed_ids (ts_map s) op = []" by (cases op) (auto simp: removed_ids_def)
    then show ?thesis
      using batch_dom [of "fronted_ids (ts_map s) m' op" s k] applyOp_dom [OF m'] False inv(2)
      by (simp add: seq rank_ok_def js_delete_all_def)
  next
    case True
    then obtain i where op: "op = NodeRemove i" by blast
    have "set (removed_ids (ts_map s) op) = (if js_get (ts_map s) i \<noteq> None then subtree (ts_map s) i else {})"
      using m' loadedDescendants_correct(2) [OF inv(1), of i]
      by (auto simp: op removed_ids_def split: option.splits)
    moreover have "fronted_ids (ts_map s) m' op = []" by (simp add: op fronted_ids_def)
    ultimately show ?thesis
      using applyOp_remove_get [OF inv(1), of i m' k] m' inv(2)
      by (auto simp: op seq rank_ok_def pushFrontRankBatch_def)
  qed
  ultimately show ?thesis by (simp add: rank_ok_def map)
qed

lemma op_inv [step_inv]:
  assumes inv: "ts_inv s" and ret: "applyTreeOpStore op s = Some s'"
  shows "ts_inv s'"
proof -
  obtain m' where "applyOp (ts_map s) op = Some m'" "ts_map s' = m'"
    "js_wf (treeModeMap s) \<Longrightarrow> js_wf (treeModeMap s')" "queue_ok s \<Longrightarrow> queue_ok s'"
    by (rule applyTreeOpStore_result [OF ret]) blast
  then show ?thesis
    using inv rank_ok_op [OF _ _ ret] applyOp_wf [of "ts_map s" op m'] by (simp add: ts_inv_def)
qed

lemma must_collapse_cong:
  "js_get m k = js_get m' k \<Longrightarrow> js_get a k = js_get b k \<Longrightarrow> must_collapse m a k \<longleftrightarrow> must_collapse m' b k"
  by (simp add: must_collapse_def mode_in_def split: option.split)

lemma op_no_idle_filtered:
  assumes inv: "tm_wf (ts_map s)" "no_idle_filtered s" and ret: "applyTreeOpStore op s = Some s'"
  shows "no_idle_filtered s'"
  unfolding no_idle_filtered_def
proof
  fix k
  obtain m' where m': "applyOp (ts_map s) op = Some m'" and map: "ts_map s' = m'"
    and modes: "\<And>i. js_get (treeModeMap s') i =
       (if i \<in> set (collapsed_ids m' (treeModeMap s) op) then Some Collapsed else js_get (treeModeMap s) i)"
    by (rule applyTreeOpStore_result [OF ret]) blast
  show "\<not> must_collapse (ts_map s') (treeModeMap s') k"
  proof (cases "k \<in> set (collapsed_ids m' (treeModeMap s) op)")
    case True
    then have "mode_in (treeModeMap s') k = Collapsed" by (simp add: modes)
    then show ?thesis by (simp add: must_collapse_def split: option.split)
  next
    case False
    then have same: "js_get (treeModeMap s') k = js_get (treeModeMap s) k" by (simp add: modes)
    have old: "\<not> must_collapse (ts_map s) (treeModeMap s) k" using inv(2) by (simp add: no_idle_filtered_def)
    show ?thesis
    proof (cases "\<exists>i. op = NodeRemove i")
      case True
      then have "js_get m' k = None \<or> js_get m' k = js_get (ts_map s) k"
        using applyOp_remove_get [OF inv(1)] m' by fastforce
      then show ?thesis
        using old must_collapse_cong [of m' k "ts_map s" "treeModeMap s'" "treeModeMap s", OF _ same]
        by (auto simp: map must_collapse_def [of m'])
    next
      case rem: False
      show ?thesis
      proof (cases "k \<in> set (affectedIdsOfOp op)")
        case True
        then have "\<not> must_collapse m' (treeModeMap s) k" using False by (simp add: collapsed_ids_def)
        then show ?thesis using must_collapse_cong [OF refl same, of m'] by (simp add: map)
      next
        case False
        then have "js_get m' k = js_get (ts_map s) k" using applyOp_unaffected [OF m'] rem by blast
        then show ?thesis using old must_collapse_cong [OF _ same, of m' "ts_map s"] by (simp add: map)
      qed
    qed
  qed
qed

section \<open>The flush\<close>

lemma survivors_get:
  assumes "\<forall>c \<in> set cs. targetMode c = t"
  shows "js_get (fold (\<lambda>c m. if P c then js_set (c_id c) (targetMode c) m else m) cs m) k =
     (if \<exists>c \<in> set cs. P c \<and> c_id c = k then Some t else js_get m k)"
  using assms
proof (induction cs arbitrary: m)
  case (Cons c cs)
  have "js_get (fold (\<lambda>c m. if P c then js_set (c_id c) (targetMode c) m else m) (c # cs) m) k =
      (if \<exists>c \<in> set cs. P c \<and> c_id c = k then Some t
       else js_get (if P c then js_set (c_id c) (targetMode c) m else m) k)"
    using Cons.prems Cons.IH by simp
  then show ?case using Cons.prems by (cases "P c"; cases "c_id c = k") auto
qed simp

lemma survivors_wf:
  "js_wf m \<Longrightarrow> js_wf (fold (\<lambda>c m. if P c then js_set (f c) (g c) m else m) cs m)"
  by (induction cs arbitrary: m) auto

lemma queue_okD:
  assumes "queue_ok s" and "js_get (pendingCandidates s) k = Some c"
  shows "c_id c = k" "c_generation c = queueGeneration s" "expectedSourceMode c = Collapsed"
    "expectedWorking c" "targetMode c = Filtered"
  using assms unfolding queue_ok_def by blast+

lemma queue_ok_values:
  assumes "queue_ok s"
  shows "c \<in> set (js_values (pendingCandidates s)) \<longleftrightarrow> js_get (pendingCandidates s) (c_id c) = Some c"
proof -
  have "js_wf (pendingCandidates s)" using assms by (simp add: queue_ok_def)
  then show ?thesis using queue_okD(1) [OF assms] by (metis js_values_iff)
qed

text \<open>A flush promotes exactly the queued nodes that are still working and still collapsed.\<close>

lemma flush_modes:
  assumes q: "queue_ok s"
  shows "js_get (treeModeMap (flushAutoModeQueue s)) k =
    (if js_get (pendingCandidates s) k \<noteq> None \<and> modeOf s k = Collapsed \<and>
        (case js_get (ts_map s) k of Some n \<Rightarrow> working n | None \<Rightarrow> False)
     then Some Filtered else js_get (treeModeMap s) k)"
proof -
  let ?cs = "js_values (pendingCandidates s)"
  let ?surv = "fold (\<lambda>c m. if candidate_survives s c then js_set (c_id c) (targetMode c) m else m) ?cs []"
  let ?hit = "js_get (pendingCandidates s) k \<noteq> None \<and> modeOf s k = Collapsed \<and>
        (case js_get (ts_map s) k of Some n \<Rightarrow> working n | None \<Rightarrow> False)"
  have surv: "candidate_survives s c \<longleftrightarrow> modeOf s (c_id c) = Collapsed \<and>
      (case js_get (ts_map s) (c_id c) of Some n \<Rightarrow> working n | None \<Rightarrow> False)" if "c \<in> set ?cs" for c
  proof -
    have "js_get (pendingCandidates s) (c_id c) = Some c" using that queue_ok_values [OF q] by blast
    note queue_okD [OF q this]
    then show ?thesis by (simp add: candidate_survives_def split: option.split) blast
  qed
  have "(\<exists>c \<in> set ?cs. candidate_survives s c \<and> c_id c = k) \<longleftrightarrow> ?hit"
  proof
    assume "\<exists>c \<in> set ?cs. candidate_survives s c \<and> c_id c = k"
    then obtain c where c: "c \<in> set ?cs" "candidate_survives s c" "c_id c = k" by blast
    then have "js_get (pendingCandidates s) k = Some c" using queue_ok_values [OF q] by blast
    then show ?hit using surv [OF c(1)] c by simp
  next
    assume hit: ?hit
    then obtain c where c: "js_get (pendingCandidates s) k = Some c" by blast
    then have "c_id c = k" using queue_okD(1) [OF q] by blast
    moreover from this c have "c \<in> set ?cs" using queue_ok_values [OF q] by blast
    ultimately show "\<exists>c \<in> set ?cs. candidate_survives s c \<and> c_id c = k" using surv [of c] hit by auto
  qed
  moreover have target: "\<forall>c \<in> set ?cs. targetMode c = Filtered"
    using queue_okD(5) [OF q] queue_ok_values [OF q] by blast
  ultimately have get: "js_get ?surv k = (if ?hit then Some Filtered else None)"
    by (simp only: survivors_get [OF target] map_of.simps)
  have wf: "js_wf ?surv" by (rule survivors_wf) simp
  let ?s' = "s\<lparr>flushScheduled := False, pendingCandidates := []\<rparr>"
  have "flushAutoModeQueue s = setNodeModes ?surv ?s'"
    by (simp add: flushAutoModeQueue_def Let_def)
  then have "js_get (treeModeMap (flushAutoModeQueue s)) k =
      (case js_get ?surv k of Some md \<Rightarrow> Some md | None \<Rightarrow> js_get (treeModeMap s) k)"
    using setNodeModes_get [OF wf, of ?s' k] by (simp split: option.split)
  then show ?thesis unfolding get by (simp only: if_distrib [of "case_option _ _"] option.case cong: if_cong)
qed

lemma flush_frame [simp, frame]:
  "ts_map (flushAutoModeQueue s) = ts_map s" "queueGeneration (flushAutoModeQueue s) = queueGeneration s"
  "pendingCandidates (flushAutoModeQueue s) = []" "flushScheduled (flushAutoModeQueue s) = False"
  "rankSeq (flushAutoModeQueue s) = rankSeq s" "rankCounter (flushAutoModeQueue s) = rankCounter s"
  by (simp_all add: flushAutoModeQueue_def Let_def)

lemma flush_inv [step_inv]: "ts_inv s \<Longrightarrow> ts_inv (flushAutoModeQueue s)"
  by (auto simp: ts_inv_def queue_ok_def flushAutoModeQueue_def Let_def intro!: setNodeModes_wf
      elim: rank_ok_cong)

lemma flush_no_idle_filtered:
  assumes "queue_ok s" and "no_idle_filtered s"
  shows "no_idle_filtered (flushAutoModeQueue s)"
  unfolding no_idle_filtered_def
proof
  fix k
  have "\<not> must_collapse (ts_map s) (treeModeMap s) k" using assms(2) by (simp add: no_idle_filtered_def)
  then show "\<not> must_collapse (ts_map (flushAutoModeQueue s)) (treeModeMap (flushAutoModeQueue s)) k"
    using flush_modes [OF assms(1), of k]
    by (auto simp: must_collapse_def mode_in_def split: option.splits if_splits)
qed

section \<open>The other operations\<close>

lemma rank_ok_shrink:
  assumes "rank_ok s" and "js_wf r"
    and "\<And>k. js_get r k = (if P k then None else js_get (rankSeq s) k)"
    and "\<And>k. js_get m k \<noteq> None \<longleftrightarrow> \<not> P k \<and> js_get (ts_map s) k \<noteq> None"
  shows "rank_ok (s\<lparr>ts_map := m, rankSeq := r\<rparr>)"
proof -
  have "js_get r k \<noteq> None \<longleftrightarrow> js_get m k \<noteq> None" for k
    using assms(1) assms(4) [of k] assms(3) [of k] unfolding rank_ok_def by (cases "P k") auto
  moreover have "rank_wf (s\<lparr>ts_map := m, rankSeq := r\<rparr>)"
    using assms(1,2) by (auto simp: rank_ok_def rank_wf_def assms(3) split: if_splits)
  ultimately show ?thesis by (simp add: rank_ok_def)
qed

lemma removeTreeNode_result:
  assumes wf: "tm_wf (ts_map s)" and ret: "removeTreeNode i s = Some s'"
  obtains m' r where "s' = bump (s\<lparr>ts_map := m', rankSeq := r\<rparr>)" "tm_wf m'"
    "\<And>k. js_get m' k = (if js_get (ts_map s) i \<noteq> None \<and> k \<in> subtree (ts_map s) i then None else js_get (ts_map s) k)"
    "js_wf (rankSeq s) \<Longrightarrow> js_wf r"
    "\<And>k. js_get r k = (if js_get (ts_map s) i \<noteq> None \<and> k \<in> subtree (ts_map s) i then None else js_get (rankSeq s) k)"
proof -
  from ret obtain ids m' where ids: "loadedDescendants (ts_map s) i = Some ids"
    and m': "applyOp (ts_map s) (NodeRemove i) = Some m'"
    and s': "s' = bump (s\<lparr>ts_map := m', rankSeq := js_delete_all ids (rankSeq s)\<rparr>)"
    by (auto simp: removeTreeNode_def simp del: applyOp.simps split: option.splits)
  have "set ids = (if js_get (ts_map s) i \<noteq> None then subtree (ts_map s) i else {})"
    using ids loadedDescendants_correct(2) [OF wf _ ids] by auto
  then show thesis
    using that [OF s'] applyOp_wf [OF wf m'] applyOp_remove_get [OF wf m'] by simp
qed

lemma remove_inv [step_inv]:
  assumes inv: "ts_inv s" and ret: "removeTreeNode i s = Some s'"
  shows "ts_inv s'"
proof -
  have wf: "tm_wf (ts_map s)" using inv by (simp add: ts_inv_def)
  obtain m' r where s': "s' = bump (s\<lparr>ts_map := m', rankSeq := r\<rparr>)" and wf': "tm_wf m'"
    and get: "\<And>k. js_get m' k = (if js_get (ts_map s) i \<noteq> None \<and> k \<in> subtree (ts_map s) i then None else js_get (ts_map s) k)"
    and r: "js_wf (rankSeq s) \<Longrightarrow> js_wf r"
    "\<And>k. js_get r k = (if js_get (ts_map s) i \<noteq> None \<and> k \<in> subtree (ts_map s) i then None else js_get (rankSeq s) k)"
    by (rule removeTreeNode_result [OF wf ret]) blast
  have "rank_ok (s\<lparr>ts_map := m', rankSeq := r\<rparr>)"
    using inv r by (intro rank_ok_shrink) (auto simp: ts_inv_def rank_ok_def rank_wf_def get)
  then have "rank_ok s'" by (rule rank_ok_cong) (simp_all add: s')
  then show ?thesis using inv wf' by (simp add: s' ts_inv_def queue_ok_def)
qed

lemma collapseTreeNode_result:
  assumes wf: "tm_wf (ts_map s)" and ret: "collapseTreeNode i prot s = Some s'"
  defines "gone \<equiv> \<lambda>k. k \<noteq> i \<and> js_get (ts_map s) i \<noteq> None \<and> k \<in> subtree (ts_map s) i \<and> \<not> is_protected prot k"
  obtains m' r where "s' = bump (s\<lparr>ts_map := m', rankSeq := r\<rparr>)" "tm_wf m'"
    "\<And>k. js_get m' k = (if gone k then None
       else if k = i then map_option (\<lambda>n. n\<lparr>loaded := False\<rparr>) (js_get (ts_map s) i) else js_get (ts_map s) k)"
    "js_wf (rankSeq s) \<Longrightarrow> js_wf r"
    "\<And>k. js_get r k = (if gone k then None else js_get (rankSeq s) k)"
proof -
  let ?r = "\<lambda>ids. fold (\<lambda>r acc. if r = i then acc
      else if (case prot of Some ps \<Rightarrow> r \<in> set ps | None \<Rightarrow> False) then acc else js_delete r acc) ids (rankSeq s)"
  from ret obtain ids m' where ids: "loadedDescendants (ts_map s) i = Some ids"
    and m': "collapseNode (ts_map s) i prot = Some m'"
    and s': "s' = bump (s\<lparr>ts_map := m', rankSeq := ?r ids\<rparr>)"
    by (auto simp: collapseTreeNode_def split: option.splits)
  have fold: "?r ids = fold (\<lambda>d acc. if d = i \<or> is_protected prot d then acc else js_delete d acc) ids (rankSeq s)"
    by (intro fold_cong) (auto simp: is_protected_def fun_eq_iff)
  have set: "set ids = (if js_get (ts_map s) i \<noteq> None then subtree (ts_map s) i else {})"
    using ids loadedDescendants_correct(2) [OF wf _ ids] by auto
  have r_wf: "js_wf r \<Longrightarrow> js_wf (fold (\<lambda>d acc. if P d then acc else js_delete d acc) ds r)" for r :: "(string, int) jsmap" and P ds
    by (induction ds arbitrary: r) auto
  have r_get: "js_get (fold (\<lambda>d acc. if P d then acc else js_delete d acc) ds r) k
      = (if k \<in> set ds \<and> \<not> P k then None else js_get r k)" for r :: "(string, int) jsmap" and P ds k
    by (induction ds arbitrary: r) auto
  show thesis
  proof (rule that [OF s'])
    show "tm_wf m'" using collapseNode_wf [OF wf m'] .
    show "js_get m' k = (if gone k then None
       else if k = i then map_option (\<lambda>n. n\<lparr>loaded := False\<rparr>) (js_get (ts_map s) i) else js_get (ts_map s) k)" for k
    proof (cases "js_get (ts_map s) i")
      case None
      then show ?thesis using m' by (simp add: collapseNode_def gone_def)
    next
      case (Some n)
      then show ?thesis using collapseNode_get [OF wf Some m', of k] by (simp add: gone_def)
    qed
    show "js_wf (?r ids)" if "js_wf (rankSeq s)" unfolding fold using that by (rule r_wf)
    show "js_get (?r ids) k = (if gone k then None else js_get (rankSeq s) k)" for k
      unfolding fold r_get set by (auto simp: gone_def)
  qed
qed

lemma collapse_inv [step_inv]:
  assumes inv: "ts_inv s" and ret: "collapseTreeNode i prot s = Some s'"
  shows "ts_inv s'"
proof -
  have wf: "tm_wf (ts_map s)" using inv by (simp add: ts_inv_def)
  let ?gone = "\<lambda>k. k \<noteq> i \<and> js_get (ts_map s) i \<noteq> None \<and> k \<in> subtree (ts_map s) i \<and> \<not> is_protected prot k"
  obtain m' r where s': "s' = bump (s\<lparr>ts_map := m', rankSeq := r\<rparr>)" and wf': "tm_wf m'"
    and get: "\<And>k. js_get m' k = (if ?gone k then None
       else if k = i then map_option (\<lambda>n. n\<lparr>loaded := False\<rparr>) (js_get (ts_map s) i) else js_get (ts_map s) k)"
    and r: "js_wf (rankSeq s) \<Longrightarrow> js_wf r" "\<And>k. js_get r k = (if ?gone k then None else js_get (rankSeq s) k)"
    by (rule collapseTreeNode_result [OF wf ret]) blast
  have "rank_ok (s\<lparr>ts_map := m', rankSeq := r\<rparr>)"
  proof (rule rank_ok_shrink [where P = ?gone])
    show "js_wf r" using inv r(1) by (simp add: ts_inv_def rank_ok_def rank_wf_def)
    show "rank_ok s" using inv by (simp add: ts_inv_def)
    show "js_get m' k \<noteq> None \<longleftrightarrow> \<not> ?gone k \<and> js_get (ts_map s) k \<noteq> None" for k
      unfolding get by (cases "k = i") auto
  qed (rule r(2))
  then have "rank_ok s'" by (rule rank_ok_cong) (simp_all add: s')
  then show ?thesis using inv wf' by (simp add: s' ts_inv_def queue_ok_def)
qed

lemma ts_inv_cong:
  assumes "ts_inv s" and "ts_map t = ts_map s" "js_wf (treeModeMap t)"
    "pendingCandidates t = pendingCandidates s" "queueGeneration t = queueGeneration s"
    "flushScheduled t = flushScheduled s" "rankSeq t = rankSeq s" "rankCounter t = rankCounter s"
  shows "ts_inv t"
proof -
  have "queue_ok t" by (rule queue_ok_cong [of s]) (use assms in \<open>simp_all add: ts_inv_def\<close>)
  moreover have "rank_ok t" by (rule rank_ok_cong [of s]) (use assms in \<open>simp_all add: ts_inv_def\<close>)
  ultimately show ?thesis using assms(1-3) by (simp add: ts_inv_def)
qed

lemma setter_inv [step_inv]:
  assumes inv: "ts_inv s"
  shows "ts_inv (setNodeMode i md s)" "ts_inv (setNodesMode ids md s)" "ts_inv (setNodeModes ch s)"
    "ts_inv (markUserToggled i s)" "ts_inv (clearUserToggled s)"
proof -
  have wf: "js_wf (treeModeMap s)" using inv by (simp add: ts_inv_def)
  show "ts_inv (setNodeMode i md s)"
    by (rule ts_inv_cong [OF inv]) (simp_all add: setNodeMode_def wf)
  show "ts_inv (setNodesMode ids md s)"
    by (rule ts_inv_cong [OF inv]) (simp_all add: setNodesMode_def fold_set_const_wf wf)
  show "ts_inv (setNodeModes ch s)"
    by (rule ts_inv_cong [OF inv]) (simp_all add: setNodeModes_wf wf)
  show "ts_inv (markUserToggled i s)" "ts_inv (clearUserToggled s)"
    by (rule ts_inv_cong [OF inv]; simp add: markUserToggled_def clearUserToggled_def wf)+
qed

lemma patch_inv [step_inv]: "ts_inv s \<Longrightarrow> ts_inv (patchTreeAgent i ag s)"
proof -
  assume inv: "ts_inv s"
  show ?thesis
  proof (cases "patchTreeAgent i ag s = s")
    case False
    then obtain n where n: "js_get (ts_map s) i = Some n"
      and p: "patchTreeAgent i ag s = bump (s\<lparr>ts_map := js_set i (n\<lparr>agent := Some ag\<rparr>) (ts_map s)\<rparr>)"
      by (auto simp: patchTreeAgent_def split: option.splits if_splits)
    have "nid n = i" using inv n by (auto simp: ts_inv_def)
    then have "tm_wf (ts_map (patchTreeAgent i ag s))" using inv by (auto simp: p ts_inv_def)
    moreover have "rank_ok (patchTreeAgent i ag s)"
      by (rule rank_ok_cong [of s]) (use inv n in \<open>auto simp: p ts_inv_def\<close>)
    ultimately show ?thesis using inv by (simp add: p ts_inv_def queue_ok_def)
  qed (use inv in simp)
qed

lemma reset_inv [step_inv]: "ts_inv (resetTreeStore s)"
  by (simp add: resetTreeStore_def ts_inv_def queue_ok_def rank_ok_def rank_wf_def clearRankState_def
      invalidateAutoQueue_def clearUserToggled_def bump_def store_modes_def)

lemma reset_modes [simp]: "treeModeMap (resetTreeStore s) = []"
  by (simp add: resetTreeStore_def clearRankState_def invalidateAutoQueue_def clearUserToggled_def bump_def store_modes_def)

lemma tree_step_inv: "ts_inv s \<Longrightarrow> tree_step s e = Some s' \<Longrightarrow> ts_inv s'"
  by (cases e) (auto intro: step_inv)

interpretation tree_store: partial_machine tree_step ts_inv
  by unfold_locales (rule tree_step_inv)

section \<open>Automatic events\<close>

text \<open>Every event but the three mode setters, which carry a user's choice.\<close>

fun automatic :: "tree_event \<Rightarrow> bool" where
  "automatic (SetMode i md) = False"
| "automatic (SetSameMode ids md) = False"
| "automatic (SetModes ch) = False"
| "automatic e = True"

lemma must_collapse_absent: "js_get m k = None \<Longrightarrow> \<not> must_collapse m a k"
  by (simp add: must_collapse_def)

lemma automatic_step_no_idle_filtered:
  assumes inv: "ts_inv s" and ok: "no_idle_filtered s" and auto: "automatic e"
    and ret: "tree_step s e = Some s'"
  shows "no_idle_filtered s'"
proof -
  have wf: "tm_wf (ts_map s)" and q: "queue_ok s" using inv by (simp_all add: ts_inv_def)
  have old: "\<not> must_collapse (ts_map s) (treeModeMap s) k" for k using ok by (simp add: no_idle_filtered_def)
  show ?thesis
  proof (cases e)
    case (Seed nodes)
    then show ?thesis using ret seed_no_idle_filtered by auto
  next
    case (Op op)
    then show ?thesis using ret op_no_idle_filtered [OF wf ok] by simp
  next
    case Flush
    then show ?thesis using ret flush_no_idle_filtered [OF q ok] by auto
  next
    case (RemoveNode i)
    with ret have "removeTreeNode i s = Some s'" by simp
    from removeTreeNode_result [OF wf this] obtain m' r where s': "s' = bump (s\<lparr>ts_map := m', rankSeq := r\<rparr>)"
      and get: "\<And>k. js_get m' k = (if js_get (ts_map s) i \<noteq> None \<and> k \<in> subtree (ts_map s) i then None else js_get (ts_map s) k)"
      by metis
    have "\<not> must_collapse m' (treeModeMap s) k" for k
    proof (cases "js_get m' k")
      case None
      then show ?thesis by (rule must_collapse_absent)
    next
      case (Some n)
      then have "js_get m' k = js_get (ts_map s) k" using get [of k] by (simp split: if_splits)
      then show ?thesis using old must_collapse_cong [OF _ refl] by blast
    qed
    then show ?thesis by (simp add: s' no_idle_filtered_def)
  next
    case (CollapseNode i prot)
    let ?gone = "\<lambda>k. k \<noteq> i \<and> js_get (ts_map s) i \<noteq> None \<and> k \<in> subtree (ts_map s) i \<and> \<not> is_protected prot k"
    from CollapseNode ret have "collapseTreeNode i prot s = Some s'" by simp
    from collapseTreeNode_result [OF wf this] obtain m' r where s': "s' = bump (s\<lparr>ts_map := m', rankSeq := r\<rparr>)"
      and get: "\<And>k. js_get m' k = (if ?gone k then None
       else if k = i then map_option (\<lambda>n. n\<lparr>loaded := False\<rparr>) (js_get (ts_map s) i) else js_get (ts_map s) k)"
      by metis
    have "\<not> must_collapse m' (treeModeMap s) k" for k
      using old [of k] get [of k]
      by (cases "?gone k"; cases "k = i"; cases "js_get (ts_map s) k")
        (simp_all add: must_collapse_def working_def activityEstablished_def)
    then show ?thesis by (simp add: s' no_idle_filtered_def)
  next
    case (PatchAgent i ag)
    with ret have s': "s' = patchTreeAgent i ag s" by simp
    show ?thesis
    proof (cases "patchTreeAgent i ag s = s")
      case False
      then obtain n where n: "js_get (ts_map s) i = Some n"
        and p: "patchTreeAgent i ag s = bump (s\<lparr>ts_map := js_set i (n\<lparr>agent := Some ag\<rparr>) (ts_map s)\<rparr>)"
        by (auto simp: patchTreeAgent_def split: option.splits if_splits)
      have "\<not> must_collapse (ts_map s') (treeModeMap s') k" for k
        using old [of k] n
        by (cases "k = i") (simp_all add: s' p must_collapse_def working_def activityEstablished_def)
      then show ?thesis by (simp add: no_idle_filtered_def)
    qed (use ok s' in simp)
  next
    case Reset
    then show ?thesis using ret
      by (auto simp: resetTreeStore_def no_idle_filtered_def must_collapse_def clearRankState_def
          invalidateAutoQueue_def clearUserToggled_def bump_def store_modes_def)
  qed (use ret auto ok in \<open>auto simp: no_idle_filtered_def markUserToggled_def clearUserToggled_def\<close>)
qed

text \<open>What a single step may do to the mode of one node, whatever the event.\<close>

lemma automatic_step_modes:
  assumes inv: "ts_inv s" and auto: "automatic e" "e \<noteq> Reset" and ret: "tree_step s e = Some s'"
  shows "js_get (treeModeMap s') k = js_get (treeModeMap s) k \<or>
    (\<exists>n. js_get (ts_map s') k = Some n \<and>
      (working n \<and> js_get (treeModeMap s) k = Some Collapsed \<and> js_get (treeModeMap s') k = Some Filtered \<or>
       \<not> working n \<and> modeOf s k = Filtered \<and> (js_get (treeModeMap s) k = None \<or> activityEstablished n) \<and>
         js_get (treeModeMap s') k = Some Collapsed))"
proof -
  have q: "queue_ok s" and wf: "tm_wf (ts_map s)" using inv by (simp_all add: ts_inv_def)
  show ?thesis
  proof (cases e)
    case (Seed nodes)
    with ret have s': "s' = seedTreeStore nodes s" by simp
    show ?thesis
    proof (cases "Option.bind (js_get (seedTree nodes) k) (seed_change s k)")
      case None
      then show ?thesis by (simp add: s' seed_modes)
    next
      case (Some md)
      then obtain n where n: "js_get (seedTree nodes) k = Some n" and ch: "seed_change s k n = Some md"
        by (auto simp: bind_eq_Some_conv)
      have "working n \<and> js_get (treeModeMap s) k = Some Collapsed \<and> md = Filtered \<or>
        \<not> working n \<and> modeOf s k = Filtered \<and> (js_get (treeModeMap s) k = None \<or> activityEstablished n) \<and> md = Collapsed"
        using ch
        by (cases "js_get (treeModeMap s) k")
          (auto simp: seed_change_def Let_def modeOf_def autoTreeModeForWorkingTransition_def
            split: option.splits if_splits)
      then show ?thesis using n Some by (auto simp: s' seed_modes)
    qed
  next
    case (Op op)
    with ret have "applyTreeOpStore op s = Some s'" by simp
    from applyTreeOpStore_result [OF this] obtain m' where map: "ts_map s' = m'"
      and modes: "\<And>i. js_get (treeModeMap s') i =
       (if i \<in> set (collapsed_ids m' (treeModeMap s) op) then Some Collapsed else js_get (treeModeMap s) i)"
      by metis
    show ?thesis
    proof (cases "k \<in> set (collapsed_ids m' (treeModeMap s) op)")
      case True
      then have "must_collapse m' (treeModeMap s) k" by (simp add: collapsed_ids_def)
      then show ?thesis using True
        by (cases "js_get m' k"; cases "js_get (treeModeMap s) k")
          (auto simp: map modes must_collapse_def modeOf_mode_in)
    qed (simp add: modes)
  next
    case Flush
    with ret have s': "s' = flushAutoModeQueue s" by simp
    show ?thesis using flush_modes [OF q, of k]
      by (cases "js_get (treeModeMap s) k") (auto simp: s' modeOf_def split: option.splits if_splits)
  qed (use ret auto in \<open>auto simp: removeTreeNode_def collapseTreeNode_def patchTreeAgent_def markUserToggled_def
      clearUserToggled_def simp del: applyOp.simps split: option.splits if_splits\<close>)
qed

section \<open>A queued promotion\<close>

text \<open>
  The events that leave a queued promotion of \<open>k\<close> to the flush: all but the flush itself, a
  snapshot and a reset (both drop the queue), and a user's choice for \<open>k\<close>.
\<close>

fun spares :: "string \<Rightarrow> tree_event \<Rightarrow> bool" where
  "spares k (Seed nodes) = False"
| "spares k Flush = False"
| "spares k Reset = False"
| "spares k (SetMode i md) = (i \<noteq> k)"
| "spares k (SetSameMode ids md) = (k \<notin> set ids)"
| "spares k (SetModes ch) = (js_wf ch \<and> js_get ch k = None)"
| "spares k e = True"

definition awaits_flush :: "tree_state \<Rightarrow> string \<Rightarrow> bool" where
  "awaits_flush s k \<longleftrightarrow> ts_inv s \<and> js_get (pendingCandidates s) k \<noteq> None \<and> modeOf s k = Collapsed"

lemma awaits_cong:
  "awaits_flush s k \<Longrightarrow> ts_inv t \<Longrightarrow> js_get (pendingCandidates t) k = js_get (pendingCandidates s) k \<Longrightarrow>
    js_get (treeModeMap t) k = js_get (treeModeMap s) k \<Longrightarrow> awaits_flush t k"
  by (simp add: awaits_flush_def modeOf_def)

lemma awaits_op:
  assumes "awaits_flush s k" and ret: "applyTreeOpStore op s = Some s'"
  shows "awaits_flush s' k"
proof -
  obtain m' where "\<And>i. js_get (treeModeMap s') i =
       (if i \<in> set (collapsed_ids m' (treeModeMap s) op) then Some Collapsed else js_get (treeModeMap s) i)"
    by (rule applyTreeOpStore_result [OF ret]) blast
  then show ?thesis
    using assms op_pending [OF ret, of k] op_inv [OF _ ret] by (auto simp: awaits_flush_def modeOf_def)
qed

lemma awaits_step:
  assumes a: "awaits_flush s k" and sp: "spares k e" and ret: "tree_step s e = Some s'"
  shows "awaits_flush s' k"
proof -
  have inv: "ts_inv s'" using a ret tree_step_inv by (auto simp: awaits_flush_def)
  show ?thesis
  proof (cases e)
    case (Op op)
    then show ?thesis using awaits_op [OF a] ret by simp
  qed (use a sp ret inv in \<open>auto intro!: awaits_cong [OF a] simp: setNodeMode_def setNodesMode_def fold_set_const_get
      setNodeModes_get markUserToggled_def clearUserToggled_def removeTreeNode_def collapseTreeNode_def patchTreeAgent_def
      simp del: applyOp.simps split: option.splits if_splits\<close>)
qed

lemma awaits_run:
  "awaits_flush s k \<Longrightarrow> list_all (spares k) es \<Longrightarrow> run_opt tree_step s es = Some s' \<Longrightarrow> awaits_flush s' k"
  by (induction es arbitrary: s) (auto split: option.splits dest: awaits_step)

text \<open>What the flush then does is decided by the node as it is at the flush.\<close>

lemma awaits_flushed:
  assumes "awaits_flush s k"
  shows "flushScheduled s" and "modeOf (flushAutoModeQueue s) k =
    (case js_get (ts_map s) k of Some n \<Rightarrow> if working n then Filtered else Collapsed | None \<Rightarrow> Collapsed)"
proof -
  have q: "queue_ok s" and p: "js_get (pendingCandidates s) k \<noteq> None" and c: "modeOf s k = Collapsed"
    using assms by (simp_all add: awaits_flush_def ts_inv_def)
  have "pendingCandidates s \<noteq> []" using p by auto
  then show "flushScheduled s" using q by (simp add: queue_ok_def)
  show "modeOf (flushAutoModeQueue s) k =
    (case js_get (ts_map s) k of Some n \<Rightarrow> if working n then Filtered else Collapsed | None \<Rightarrow> Collapsed)"
    using flush_modes [OF q, of k] p c by (auto simp: modeOf_def [of "flushAutoModeQueue s"] modeOf_def [of s] split: option.splits)
qed

text \<open>Any operation after which a collapsed idle node works queues its promotion.\<close>

lemma edge_awaits:
  assumes inv: "ts_inv s" and old: "js_get (ts_map s) k = Some old" "\<not> working old" and c: "modeOf s k = Collapsed"
    and ret: "applyTreeOpStore op s = Some s'" and now: "js_get (ts_map s') k = Some n" "working n"
  shows "awaits_flush s' k"
proof -
  obtain m' where m': "applyOp (ts_map s) op = Some m'" "ts_map s' = m'"
    and modes: "\<And>i. js_get (treeModeMap s') i =
       (if i \<in> set (collapsed_ids m' (treeModeMap s) op) then Some Collapsed else js_get (treeModeMap s) i)"
    by (rule applyTreeOpStore_result [OF ret]) blast
  have "js_get m' k \<noteq> js_get (ts_map s) k" "js_get m' k \<noteq> None" using old now m'(2) by auto
  moreover have "\<forall>i. op \<noteq> NodeRemove i"
  proof (intro allI notI)
    fix i
    assume rem: "op = NodeRemove i"
    have "tm_wf (ts_map s)" using inv by (simp add: ts_inv_def)
    from applyOp_remove_get [OF this, of i m' k] show False
      using m'(1) \<open>js_get m' k \<noteq> js_get (ts_map s) k\<close> \<open>js_get m' k \<noteq> None\<close>
      by (simp add: rem del: applyOp.simps split: if_splits)
  qed
  ultimately have "k \<in> set (affectedIdsOfOp op)" using applyOp_unaffected [OF m'(1)] by blast
  moreover have "queued_edge (js_get (ts_map s)) (ts_map s') (treeModeMap s) k"
    using old now c by (simp add: queued_edge_def modeOf_mode_in)
  ultimately have "js_get (pendingCandidates s') k \<noteq> None" using op_pending [OF ret] by blast
  moreover have "modeOf s' k = Collapsed" using modes [of k] c by (auto simp: modeOf_def)
  ultimately show ?thesis using op_inv [OF inv ret] by (simp add: awaits_flush_def)
qed

end
