(* ===== verification/TreeOrder.thy ===== *)
theory TreeOrder
  imports TreeStore "HOL-Library.Multiset"
begin

text \<open>
  The presentation order of \<^verbatim>\<open>web/src/sync/treeState.ts\<close>: under the store invariant
  siblings come in strictly descending rank, a seed orders them by recency, an
  operation moves only the nodes it promotes and puts them in front, and updates that
  promote nothing leave every sibling list as it was. The second half is the round trip
  of the persisted modes and their one-time migrations.
\<close>

section \<open>Sorting by rank\<close>

lemma js_insert_cong:
  "(\<And>b. b \<in> set ys \<Longrightarrow> cmp x b \<le> 0 \<longleftrightarrow> cmp' x b \<le> 0) \<Longrightarrow> js_insert cmp x ys = js_insert cmp' x ys"
  by (induction ys) auto

lemma js_sort_cong:
  "(\<And>a b. a \<in> set xs \<Longrightarrow> b \<in> set xs \<Longrightarrow> cmp a b \<le> 0 \<longleftrightarrow> cmp' a b \<le> 0) \<Longrightarrow> js_sort cmp xs = js_sort cmp' xs"
proof (induction xs)
  case (Cons x xs)
  have "js_sort cmp xs = js_sort cmp' xs" using Cons.prems by (intro Cons.IH) auto
  moreover have "js_insert cmp x (js_sort cmp' xs) = js_insert cmp' x (js_sort cmp' xs)"
    using Cons.prems by (intro js_insert_cong) auto
  ultimately show ?case by simp
qed simp

definition front_key :: "tree_state \<Rightarrow> string \<Rightarrow> int" where
  "front_key s k = - (case js_get (rankSeq s) k of Some r \<Rightarrow> r | None \<Rightarrow> 0)"

lemma rank_okE:
  assumes "rank_ok s" and "js_get (ts_map s) j \<noteq> None" and "js_get (ts_map s) k \<noteq> None"
  obtains rj rk where "js_get (rankSeq s) j = Some rj" "js_get (rankSeq s) k = Some rk" "rj = rk \<longleftrightarrow> j = k"
proof -
  from assms obtain rj rk where r: "js_get (rankSeq s) j = Some rj" "js_get (rankSeq s) k = Some rk"
    unfolding rank_ok_def by blast
  moreover have "rj = rk \<longleftrightarrow> j = k"
  proof
    assume "rj = rk"
    then show "j = k" using assms(1) r unfolding rank_ok_def rank_wf_def by blast
  qed (use r in simp)
  ultimately show thesis by (rule that)
qed

lemma rank_sort:
  assumes wf: "tm_wf (ts_map s)" and ok: "rank_ok s" and xs: "set xs \<subseteq> set (js_values (ts_map s))"
  shows "js_sort (rankCompareDesc s) xs = sort_key (\<lambda>n. front_key s (nid n)) xs"
proof -
  have "rankCompareDesc s a b \<le> 0 \<longleftrightarrow> front_key s (nid a) - front_key s (nid b) \<le> 0"
    if ab: "a \<in> set xs" "b \<in> set xs" for a b
  proof -
    have a: "js_get (ts_map s) (nid a) = Some a" and b: "js_get (ts_map s) (nid b) = Some b"
      using ab xs by (simp_all add: tm_values_iff [OF wf, symmetric] subset_iff)
    obtain ra rb where r: "js_get (rankSeq s) (nid a) = Some ra" "js_get (rankSeq s) (nid b) = Some rb"
      and same: "ra = rb \<longleftrightarrow> nid a = nid b"
      using rank_okE [OF ok, of "nid a" "nid b"] a b by (metis option.distinct(1))
    show ?thesis
    proof (cases "ra = rb")
      case True
      then have "a = b" using a b same by (metis option.inject)
      then show ?thesis by (simp add: rankCompareDesc_def)
    next
      case False
      then show ?thesis using r
        by (simp add: rankCompareDesc_def rank_of_def front_key_def)
    qed
  qed
  then have "js_sort (rankCompareDesc s) xs = js_sort (\<lambda>a b. front_key s (nid a) - front_key s (nid b)) xs"
    by (rule js_sort_cong)
  also have "\<dots> = sort_key (\<lambda>n. front_key s (nid n)) xs"
    by (rule js_sort_sort_key) simp
  finally show ?thesis .
qed

text \<open>The ids under a parent, in map order and in presentation order.\<close>

definition kids :: "tree_flat_map \<Rightarrow> string option \<Rightarrow> string list" where
  "kids m p = filter (\<lambda>k. map_option parentId (js_get m k) = Some p) (js_keys m)"

definition shown :: "tree_state \<Rightarrow> string option \<Rightarrow> tree_node list" where
  "shown s p = (case p of None \<Rightarrow> treeRoots s | Some i \<Rightarrow> treeChildrenOf s i)"

lemma shown_sort:
  assumes "tm_wf (ts_map s)" and "rank_ok s"
  shows "shown s p = sort_key (\<lambda>n. front_key s (nid n)) (filter (\<lambda>n. parentId n = p) (js_values (ts_map s)))"
  by (cases p) (simp_all add: shown_def treeRoots_def treeChildrenOf_def rootNodes_def bucket_childrenIndex
      rank_sort [OF assms])

lemma map_insort_key: "map f (insort_key (\<lambda>x. g (f x)) x xs) = insort_key g (f x) (map f xs)"
  by (induction xs) auto

lemma map_sort_key: "map f (sort_key (\<lambda>x. g (f x)) xs) = sort_key g (map f xs)"
  by (induction xs) (simp_all add: map_insort_key)

lemma kids_values: "tm_wf m \<Longrightarrow> map nid (filter (\<lambda>n. parentId n = p) (js_values m)) = kids m p"
proof -
  assume wf: "tm_wf m"
  have "filter (\<lambda>k. map_option parentId (js_get m k) = Some p) (map nid (js_values m))
      = map nid (filter (\<lambda>n. map_option parentId (js_get m (nid n)) = Some p) (js_values m))"
    by (simp add: filter_map comp_def)
  also have "\<dots> = map nid (filter (\<lambda>n. parentId n = p) (js_values m))"
    by (intro arg_cong [of _ _ "map nid"] filter_cong) (auto simp: tm_values_iff [OF wf])
  finally show ?thesis by (simp add: kids_def map_nid_values [OF wf])
qed

lemma shown_ids:
  assumes "tm_wf (ts_map s)" and "rank_ok s"
  shows "map nid (shown s p) = sort_key (front_key s) (kids (ts_map s) p)"
  unfolding shown_sort [OF assms] map_sort_key [of nid "front_key s"] kids_values [OF assms(1)] ..

lemma front_key_inj:
  "rank_ok s \<Longrightarrow> js_get (ts_map s) j \<noteq> None \<Longrightarrow> js_get (ts_map s) k \<noteq> None \<Longrightarrow> front_key s j = front_key s k \<Longrightarrow> j = k"
  by (rule rank_okE [of s j k]) (simp_all add: front_key_def)

lemma kids_resident: "k \<in> set (kids m p) \<Longrightarrow> js_get m k \<noteq> None"
  by (auto simp: kids_def)

lemma distinct_kids: "tm_wf m \<Longrightarrow> distinct (kids m p)"
  by (simp add: kids_def tm_wf_js_wf js_wf_keys [symmetric])

lemma sort_key_cong_on:
  "(\<And>x. x \<in> set xs \<Longrightarrow> f x = g x) \<Longrightarrow> sort_key f xs = sort_key g xs"
proof (induction xs)
  case (Cons x xs)
  have "insort_key f x ys = insort_key g x ys" if "set ys \<subseteq> set xs" for ys
    using that Cons.prems by (induction ys) auto
  then show ?case using Cons by simp
qed simp

section \<open>The order a seed gives\<close>

lemma seed_front_key:
  assumes "distinct ids" and i: "i < length ids"
    and seq: "rankSeq t = rankSeq (pushFrontRankBatch ids (clearRankState s))"
  shows "front_key t (ids ! i) = int i - int (length ids)"
proof -
  have "distinct (take i ids @ ids ! i # drop (Suc i) ids)"
    using assms(1) by (simp only: id_take_nth_drop [OF i, symmetric])
  then have "ids ! i \<notin> set (take i ids)" by simp
  from batch_at [OF this, of "drop (Suc i) ids" "clearRankState s"]
  have "js_get (rankSeq t) (ids ! i) = Some (int (length ids) - int i)"
    using i by (simp add: seq id_take_nth_drop [OF i, symmetric] clearRankState_def of_nat_diff)
  then show ?thesis by (simp add: front_key_def)
qed

lemma shown_seed:
  "shown (seedTreeStore nodes s) p =
     sort_key (\<lambda>n. - updatedMs n) (filter (\<lambda>n. parentId n = p) (js_values (seedTree nodes)))"
proof -
  let ?t = "seedTreeStore nodes s" and ?m = "seedTree nodes"
  let ?F = "js_sort recency_cmp (js_values ?m)" and ?P = "\<lambda>n :: tree_node. parentId n = p"
  have wf: "tm_wf ?m" by (rule tm_wf_seedTree)
  have F: "?F = sort_key (\<lambda>n. - updatedMs n) (js_values ?m)"
    by (rule js_sort_sort_key) (simp add: recency_cmp_def)
  have mF: "mset ?F = mset (js_values ?m)" by (simp add: F)
  have dist: "distinct (map nid ?F)"
    using distinct_nid_values [OF wf] mF by (metis mset_eq_imp_distinct_iff mset_map)
  have key: "front_key ?t (map nid ?F ! i) = int i - int (length ?F)" if "i < length ?F" for i
    using seed_front_key [OF dist, of i ?t s] seed_ranks(1) [of nodes s] that by simp
  have sorted: "sorted (map (\<lambda>n. front_key ?t (nid n)) ?F)"
    unfolding sorted_iff_nth_mono using key by simp
  have "sort_key (\<lambda>n. front_key ?t (nid n)) (filter ?P (js_values ?m)) = filter ?P ?F"
  proof (rule sort_key_inj_key_eq)
    show "mset (filter ?P (js_values ?m)) = mset (filter ?P ?F)" using mF by simp
    show "inj_on (\<lambda>n. front_key ?t (nid n)) (set (filter ?P (js_values ?m)))"
    proof (rule inj_onI)
      fix a b
      assume ab: "a \<in> set (filter ?P (js_values ?m))" "b \<in> set (filter ?P (js_values ?m))"
        and eq: "front_key ?t (nid a) = front_key ?t (nid b)"
      have a: "js_get ?m (nid a) = Some a" and b: "js_get ?m (nid b) = Some b"
        using ab by (simp_all add: tm_values_iff [OF wf, symmetric])
      have "js_get (ts_map ?t) (nid a) \<noteq> None" "js_get (ts_map ?t) (nid b) \<noteq> None"
        unfolding seed_frame(1) a b by (rule option.distinct)+
      from front_key_inj [OF seed_rank_ok this eq] show "a = b" using a b by (metis option.inject)
    qed
    show "sorted (map (\<lambda>n. front_key ?t (nid n)) (filter ?P ?F))"
      using sorted by (rule sorted_filter)
  qed
  also have "\<dots> = sort_key (\<lambda>n. - updatedMs n) (filter ?P (js_values ?m))"
    by (simp add: F filter_sort)
  finally show ?thesis
    using shown_sort [OF _ seed_rank_ok, of nodes s p] wf by simp
qed

section \<open>The order after an operation\<close>

text \<open>
  The nodes an operation puts in front: those it makes resident, those that start working
  and the one it moves.
\<close>

definition promoted :: "tree_flat_map \<Rightarrow> tree_flat_map \<Rightarrow> tree_op \<Rightarrow> string \<Rightarrow> bool" where
  "promoted m m' op k \<longleftrightarrow>
     (case (js_get m k, js_get m' k) of
        (_, None) \<Rightarrow> False
      | (None, Some n) \<Rightarrow> True
      | (Some old, Some n) \<Rightarrow> \<not> working old \<and> working n \<or> (\<exists>p. op = NodeMove k p))"

lemma fronted_iff_promoted:
  assumes "tm_wf m" and ret: "applyOp m op = Some m'"
  shows "k \<in> set (fronted_ids m m' op) \<longleftrightarrow> promoted m m' op k"
proof (cases "k \<in> set (affectedIdsOfOp op)")
  case True
  then show ?thesis
    by (cases op; cases "js_get m k"; cases "js_get m' k")
      (auto simp: fronted_ids_def promoted_def front_cond_def)
next
  case False
  have "js_get m' k = js_get m k \<or> js_get m' k = None"
  proof (cases "\<exists>i. op = NodeRemove i")
    case True
    then obtain i where "applyOp m (NodeRemove i) = Some m'" using ret by blast
    from applyOp_remove_get [OF assms(1) this, of k] show ?thesis by (simp split: if_splits)
  next
    case rem: False
    then show ?thesis using applyOp_unaffected [OF ret] False by blast
  qed
  then show ?thesis using False
    by (cases op; cases "js_get m k") (auto simp: fronted_ids_def promoted_def)
qed

lemma op_front_key:
  assumes inv: "ts_inv s" and ret: "applyTreeOpStore op s = Some s'"
    and k: "js_get (ts_map s') k \<noteq> None"
  shows "promoted (ts_map s) (ts_map s') op k \<Longrightarrow> front_key s' k < - rankCounter s"
    and "\<not> promoted (ts_map s) (ts_map s') op k \<Longrightarrow> front_key s' k = front_key s k \<and> - rankCounter s \<le> front_key s' k"
proof -
  have wf: "tm_wf (ts_map s)" and ok: "rank_ok s" using inv by (simp_all add: ts_inv_def)
  obtain m' where m': "applyOp (ts_map s) op = Some m'" and map: "ts_map s' = m'"
    and seq: "rankSeq s' = js_delete_all (removed_ids (ts_map s) op)
       (rankSeq (pushFrontRankBatch (fronted_ids (ts_map s) m' op) s))"
    by (rule applyTreeOpStore_result [OF ret])
  have ok': "rank_ok s'" by (rule rank_ok_op [OF wf ok ret])
  then have "js_get (rankSeq s') k \<noteq> None" using k unfolding rank_ok_def by blast
  then have keep: "js_get (rankSeq s') k = js_get (rankSeq (pushFrontRankBatch (fronted_ids (ts_map s) m' op) s)) k"
    by (simp add: seq split: if_splits)
  show "front_key s' k < - rankCounter s" if "promoted (ts_map s) (ts_map s') op k"
  proof -
    have "k \<in> set (fronted_ids (ts_map s) m' op)" using that fronted_iff_promoted [OF wf m'] map by blast
    then obtain r where "js_get (rankSeq (pushFrontRankBatch (fronted_ids (ts_map s) m' op) s)) k = Some r" "rankCounter s < r"
      by (rule batch_present)
    then show ?thesis by (simp add: front_key_def keep)
  qed
  show "front_key s' k = front_key s k \<and> - rankCounter s \<le> front_key s' k"
    if "\<not> promoted (ts_map s) (ts_map s') op k"
  proof -
    have "k \<notin> set (fronted_ids (ts_map s) m' op)" using that fronted_iff_promoted [OF wf m'] map by blast
    then have same: "js_get (rankSeq s') k = js_get (rankSeq s) k" using keep by (simp add: batch_absent)
    then obtain r where "js_get (rankSeq s) k = Some r"
      using \<open>js_get (rankSeq s') k \<noteq> None\<close> by auto
    moreover from this have "r \<le> rankCounter s" using ok unfolding rank_ok_def rank_wf_def by blast
    ultimately show ?thesis using same by (simp add: front_key_def)
  qed
qed

lemma sorted_key_split:
  assumes "sorted (map f xs)" and "\<And>x. x \<in> set xs \<Longrightarrow> P x \<longleftrightarrow> f x < (c :: 'b :: linorder)"
  shows "xs = filter P xs @ filter (\<lambda>x. \<not> P x) xs"
  using assms
proof (induction xs)
  case (Cons x xs)
  show ?case
  proof (cases "P x")
    case False
    then have "\<not> P y" if "y \<in> set xs" for y
      using that Cons.prems(1) Cons.prems(2) [of x] Cons.prems(2) [of y] by fastforce
    then have "filter P xs = []" by simp
    then show ?thesis using Cons False by simp
  qed (use Cons in simp)
qed simp

lemma op_shown:
  assumes inv: "ts_inv s" and ret: "applyTreeOpStore op s = Some s'"
  obtains xs ys where "map nid (shown s' p) = xs @ ys"
    "\<forall>k \<in> set xs. promoted (ts_map s) (ts_map s') op k"
    "\<forall>k \<in> set ys. \<not> promoted (ts_map s) (ts_map s') op k" "sorted (map (front_key s) ys)"
proof -
  have inv': "ts_inv s'" by (rule op_inv [OF inv ret])
  let ?P = "promoted (ts_map s) (ts_map s') op" and ?l = "map nid (shown s' p)"
  have l: "?l = sort_key (front_key s') (kids (ts_map s') p)"
    using inv' by (simp add: shown_ids ts_inv_def)
  have res: "js_get (ts_map s') k \<noteq> None" if "k \<in> set ?l" for k
    using that kids_resident unfolding l by fastforce
  have "sorted (map (front_key s') ?l)" by (simp add: l)
  moreover have "?P k \<longleftrightarrow> front_key s' k < - rankCounter s" if "k \<in> set ?l" for k
    using op_front_key [OF inv ret res [OF that]] by fastforce
  ultimately have split: "?l = filter ?P ?l @ filter (\<lambda>x. \<not> ?P x) ?l" by (rule sorted_key_split)
  have "map (front_key s) (filter (\<lambda>x. \<not> ?P x) ?l) = map (front_key s') (filter (\<lambda>x. \<not> ?P x) ?l)"
  proof (intro map_cong refl)
    fix k
    assume "k \<in> set (filter (\<lambda>x. \<not> ?P x) ?l)"
    then have "k \<in> set ?l" and k: "\<not> ?P k" by auto
    from op_front_key(2) [OF inv ret res [OF this(1)] k] show "front_key s k = front_key s' k" by (rule conjE) (rule sym)
  qed
  moreover have "sorted (map (front_key s') (filter (\<lambda>x. \<not> ?P x) ?l))"
    unfolding l by (rule sorted_filter) simp
  ultimately have sorted: "sorted (map (front_key s) (filter (\<lambda>x. \<not> ?P x) ?l))" by (simp only:)
  show thesis by (rule that [OF split _ _ sorted]) simp_all
qed

lemma op_keeps_order:
  assumes inv: "ts_inv s" and ret: "applyTreeOpStore op s = Some s'"
    and none: "\<And>k. \<not> promoted (ts_map s) (ts_map s') op k" and kids: "kids (ts_map s') p = kids (ts_map s) p"
  shows "map nid (shown s' p) = map nid (shown s p)"
proof -
  have inv': "ts_inv s'" by (rule op_inv [OF inv ret])
  have "map nid (shown s' p) = sort_key (front_key s') (kids (ts_map s') p)"
    using inv' by (simp add: shown_ids ts_inv_def)
  also have "\<dots> = sort_key (front_key s) (kids (ts_map s') p)"
    using op_front_key(2) [OF inv ret _ none] kids_resident by (intro sort_key_cong_on) blast
  also have "\<dots> = map nid (shown s p)"
    using inv by (simp add: shown_ids ts_inv_def kids)
  finally show ?thesis .
qed

lemma kids_js_set:
  assumes "js_get m i = Some old" and "parentId n = parentId old"
  shows "kids (js_set i n m) p = kids m p"
  using assms unfolding kids_def js_keys_set_present [of m i n, simplified assms(1), simplified]
  by (intro filter_cong) auto

text \<open>An upsert or a facet that neither moves the node nor starts it working.\<close>

fun in_place :: "tree_flat_map \<Rightarrow> tree_op \<Rightarrow> bool" where
  "in_place m (NodeUpsert n) = (case js_get m (nid n) of
      None \<Rightarrow> False | Some old \<Rightarrow> parentId n = parentId old \<and> (working old \<or> \<not> working n))"
| "in_place m (NodeFacet i d) = (case js_get m i of
      None \<Rightarrow> True | Some old \<Rightarrow> working old \<or> \<not> working (merge_facet old d))"
| "in_place m _ = False"

lemma in_place_kids: "in_place m op \<Longrightarrow> applyOp m op = Some m' \<Longrightarrow> kids m' p = kids m p"
  by (cases "(m, op)" rule: in_place.cases) (auto simp: kids_js_set merge_facet_def split: option.splits)

lemma in_place_not_promoted: "in_place m op \<Longrightarrow> applyOp m op = Some m' \<Longrightarrow> \<not> promoted m m' op k"
  by (cases "(m, op)" rule: in_place.cases) (auto simp: promoted_def split: option.splits if_splits)

lemma in_place_order:
  assumes "ts_inv s" and ret: "applyTreeOpStore op s = Some s'" and "in_place (ts_map s) op"
  shows "map nid (shown s' p) = map nid (shown s p)"
proof -
  obtain m' where "applyOp (ts_map s) op = Some m'" "ts_map s' = m'"
    by (rule applyTreeOpStore_result [OF ret])
  then show ?thesis
    using in_place_not_promoted [OF assms(3)] in_place_kids [OF assms(3)]
    by (intro op_keeps_order [OF assms(1,2)]) auto
qed

end
