(* ===== verification/TreePersist.thy ===== *)
theory TreePersist
  imports TreeStore
begin

text \<open>
  The persisted modes of \<^verbatim>\<open>web/src/sync/treeState.ts\<close>: what was stored is what a reload
  reads, and the one-time migrations from the two older keys keep the expanded nodes and
  nothing else.
\<close>

lemma js_set_absent: "js_get m k = None \<Longrightarrow> js_set k v m = m @ [(k, v)]"
  unfolding js_set_def by (induction m) (auto split: if_splits)

lemma fold_rebuild:
  assumes "js_wf (acc @ m)"
  shows "fold (\<lambda>(k, v). js_set k v) m acc = acc @ m"
  using assms
proof (induction m arbitrary: acc)
  case (Cons p m)
  obtain k v where p: "p = (k, v)" by (cases p)
  have "js_get acc k = None"
    using Cons.prems by (auto simp: p js_wf_def map_of_eq_None_iff)
  then show ?case using Cons.IH [of "acc @ [p]"] Cons.prems by (simp add: p js_set_absent)
qed simp

lemma fold_rebuild_if:
  "fold (\<lambda>(k, v) out. if P k v then js_set k v out else out) m acc
    = fold (\<lambda>(k, v). js_set k v) (filter (\<lambda>(k, v). P k v) m) acc"
  by (induction m arbitrary: acc) (auto split: prod.splits)

lemma validMode_text [simp]: "validMode (JStr (mode_text md)) = Some md"
  by (cases md) (simp_all add: validMode_def)

definition named_modes :: "mode_map \<Rightarrow> bool" where
  "named_modes m \<longleftrightarrow> js_wf m \<and> [] \<notin> set (js_keys m)"

lemma coerce_modes_json: "named_modes m \<Longrightarrow> coerceModeMap (modes_json m) = m"
proof -
  assume m: "named_modes m"
  have "coerceModeMap (modes_json m) = fold (\<lambda>(k, md) out. if k \<noteq> [] then js_set k md out else out) m []"
    unfolding coerceModeMap_def modes_json_def object_entries_def json.case fold_map
    by (intro fold_cong) (auto simp: fun_eq_iff)
  also have "\<dots> = fold (\<lambda>(k, v). js_set k v) (filter (\<lambda>(k, v). k \<noteq> []) m) []"
    by (rule fold_rebuild_if)
  also have "filter (\<lambda>(k, v). k \<noteq> []) m = m"
    using m by (force simp: named_modes_def js_keys_def filter_id_conv)
  also have "fold (\<lambda>(k, v). js_set k v) m [] = m"
    using fold_rebuild [of "[]" m] m by (simp add: named_modes_def)
  finally show ?thesis .
qed

lemma named_modes_coerce: "named_modes (coerceModeMap j)"
proof -
  have "named_modes out \<Longrightarrow> named_modes (fold (\<lambda>(k, v) out. case validMode v of
             Some md \<Rightarrow> if k \<noteq> [] then js_set k md out else out | None \<Rightarrow> out) es out)" for es out
  proof (induction es arbitrary: out)
    case (Cons e es)
    obtain k v where e: "e = (k, v)" by (cases e)
    have "named_modes (case validMode v of Some md \<Rightarrow> if k \<noteq> [] then js_set k md out else out | None \<Rightarrow> out)"
      using Cons.prems by (auto simp: named_modes_def js_keys_set split: option.split)
    then show ?case using Cons.IH by (simp add: e)
  qed simp
  then show ?thesis by (simp add: coerceModeMap_def named_modes_def)
qed

lemma named_modes_migrate: "named_modes (migrateFromExpandedSet j)"
proof -
  have "named_modes out \<Longrightarrow> named_modes (fold (\<lambda>v out. case v of
            JStr i \<Rightarrow> if i \<noteq> [] then js_set i Expanded out else out | _ \<Rightarrow> out) es out)" for es out
  proof (induction es arbitrary: out)
    case (Cons v es)
    have "named_modes (case v of JStr i \<Rightarrow> if i \<noteq> [] then js_set i Expanded out else out | _ \<Rightarrow> out)"
      using Cons.prems by (auto simp: named_modes_def js_keys_set split: json.split)
    then show ?case using Cons.IH by simp
  qed simp
  then show ?thesis by (auto simp: migrateFromExpandedSet_def named_modes_def split: json.split)
qed

lemma keepExpandedOnly_filter: "js_wf m \<Longrightarrow> keepExpandedOnly m = filter (\<lambda>(i, md). md = Expanded) m"
proof -
  assume wf: "js_wf m"
  have "js_wf (filter P m)" for P
    using wf by (auto simp: js_wf_def intro: distinct_map_filter)
  moreover have "keepExpandedOnly m = fold (\<lambda>(k, v). js_set k v) (filter (\<lambda>(i, md). md = Expanded) m) []"
    unfolding keepExpandedOnly_def by (rule fold_rebuild_if)
  moreover have "fold (\<lambda>(k, v). js_set k v) (filter (\<lambda>(i, md). md = Expanded) m) []
      = filter (\<lambda>(i, md). md = Expanded) m"
    using fold_rebuild [of "[]" "filter (\<lambda>(i, md). md = Expanded) m"] calculation(1) by simp
  ultimately show ?thesis by simp
qed

lemma named_modes_filter: "named_modes m \<Longrightarrow> named_modes (filter P m)"
  by (auto simp: named_modes_def js_wf_def js_keys_def intro: distinct_map_filter)

lemma named_modes_keep: "named_modes m \<Longrightarrow> named_modes (keepExpandedOnly m)"
  by (simp add: keepExpandedOnly_filter named_modes_def [of m] named_modes_filter)

lemma keepExpandedOnly_get:
  assumes "js_wf m"
  shows "js_get (keepExpandedOnly m) i = (if js_get m i = Some Expanded then Some Expanded else None)"
proof -
  have "js_get (filter (\<lambda>(i, md). md = Expanded) m) i = (if js_get m i = Some Expanded then Some Expanded else None)"
    using assms
  proof (induction m)
    case (Cons p m)
    obtain k md where p: "p = (k, md)" by (cases p)
    have wf: "js_wf m" and "js_get m k = None"
      using Cons.prems by (auto simp: js_wf_def p map_of_eq_None_iff)
    then show ?case using Cons.IH [OF wf] by (auto simp: p)
  qed simp
  then show ?thesis by (simp only: keepExpandedOnly_filter [OF assms])
qed

lemma LS_keys_distinct [simp]:
  "LS_MODE \<noteq> LS_MODE_V3" "LS_EXPANDED_LEGACY \<noteq> LS_MODE_V3" "LS_MODE_V3 \<noteq> LS_MODE" "LS_MODE_V3 \<noteq> LS_EXPANDED_LEGACY"
  by (simp_all add: LS_MODE_def LS_MODE_V3_def LS_EXPANDED_LEGACY_def)

lemma load_named: "named_modes (snd (loadInitialTreeModes ls))"
  by (auto simp: loadInitialTreeModes_def Let_def named_modes_coerce named_modes_migrate named_modes_keep
      split: option.split)

lemma get_item_saved:
  "\<not> ls_get_throws ls \<Longrightarrow> \<not> ls_set_throws ls \<Longrightarrow> get_item (saveVersioned ls k v d) k \<noteq> None"
  by (simp add: get_item_def saveVersioned_def set_item_def)

lemma load_saved:
  assumes "\<not> ls_get_throws ls" "\<not> ls_set_throws ls" "named_modes m"
  shows "loadInitialTreeModes (saveVersioned ls LS_MODE_V3 1 (modes_json m))
    = (saveVersioned ls LS_MODE_V3 1 (modes_json m), m)"
proof -
  let ?ls = "saveVersioned ls LS_MODE_V3 1 (modes_json m)"
  obtain x where "get_item ?ls LS_MODE_V3 = Some x" using get_item_saved [OF assms(1,2)] by blast
  then show ?thesis
    using load_save_same [OF assms(1,2)] coerce_modes_json [OF assms(3)]
    by (simp add: loadInitialTreeModes_def)
qed

lemma init_inv: "ts_inv (init_tree_state ls)"
  using load_named [of ls]
  by (auto simp: init_tree_state_def ts_inv_def queue_ok_def rank_ok_def rank_wf_def named_modes_def split: prod.split)

lemma init_no_idle_filtered: "no_idle_filtered (init_tree_state ls)"
  by (auto simp: init_tree_state_def no_idle_filtered_def must_collapse_def split: prod.split)

end
