(* ===== verification/TreeOps.thy ===== *)
theory TreeOps
  imports TreeMap
begin

text \<open>
  \<^verbatim>\<open>web/src/sync/treeOps.ts\<close>: the decoders of the wire's operations and snapshots and the
  paginated fetch of a node's children. The fetcher is the server: any function from the
  number of the call and its cursor to a response, \<open>None\<close> being a rejected promise.

  A field the guard \<^verbatim>\<open>isTreeNode\<close> does not check is read the way the program uses it: the
  flags through truthiness, a label or count of another type as absent.
\<close>

section \<open>Decoding\<close>

definition activity_of_text :: "string \<Rightarrow> activity" where
  "activity_of_text t =
     (if t = [] then ActUnset
      else if t = ''idle'' then ActIdle
      else if t = ''busy'' then ActBusy
      else if t = ''retry'' then ActRetry
      else if t = ''error'' then ActError
      else ActOther (JStr t))"

definition activity_of_json :: "json \<Rightarrow> activity" where
  "activity_of_json j = (case j of JStr t \<Rightarrow> activity_of_text t | _ \<Rightarrow> ActOther j)"

definition flag_field :: "json \<Rightarrow> string \<Rightarrow> bool" where
  "flag_field j k = (case json_field j k of Some v \<Rightarrow> truthy v | None \<Rightarrow> False)"

definition flags_of_json :: "json \<Rightarrow> tree_flags" where
  "flags_of_json j = \<lparr>
     pendingInput = flag_field j ''pendingInput'',
     subtreeNeedsInput = flag_field j ''subtreeNeedsInput'',
     subtreeBusy = map_option truthy (json_field j ''subtreeBusy''),
     permission = flag_field j ''permission'',
     archived = flag_field j ''archived'',
     orphan = flag_field j ''orphan''\<rparr>"

definition partial_flags_of_json :: "json \<Rightarrow> partial_flags" where
  "partial_flags_of_json j = \<lparr>
     p_pendingInput = map_option truthy (json_field j ''pendingInput''),
     p_subtreeNeedsInput = map_option truthy (json_field j ''subtreeNeedsInput''),
     p_subtreeBusy = map_option truthy (json_field j ''subtreeBusy''),
     p_permission = map_option truthy (json_field j ''permission''),
     p_archived = map_option truthy (json_field j ''archived''),
     p_orphan = map_option truthy (json_field j ''orphan'')\<rparr>"

text \<open>\<^verbatim>\<open>n.parentId === null || typeof n.parentId === "string"\<close>: \<open>None\<close> when neither holds.\<close>

definition nullable_string :: "json option \<Rightarrow> string option option" where
  "nullable_string j = (case j of Some JNull \<Rightarrow> Some None | Some (JStr s) \<Rightarrow> Some (Some s) | _ \<Rightarrow> None)"

text \<open>\<^verbatim>\<open>isTreeNode\<close>, returning the node it accepts.\<close>

definition isTreeNode :: "json \<Rightarrow> tree_node option" where
  "isTreeNode v =
     (if \<not> is_object v then None
      else case (as_string (json_field v ''id''), nullable_string (json_field v ''parentId''),
                 as_string (json_field v ''title''), as_string (json_field v ''activity'')) of
             (Some i, Some p, Some t, Some a) \<Rightarrow>
               (case (as_number (json_field v ''childCount''), as_bool (json_field v ''loaded''),
                      as_number (json_field v ''updatedMs''), json_field v ''flags'') of
                  (Some cc, Some ld, Some ms, Some fl) \<Rightarrow>
                    if is_object fl
                    then Some \<lparr>nid = i, parentId = p, title = t, agent = as_string (json_field v ''agent''),
                           verb = json_field v ''verb'', activity = activity_of_text a, childCount = cc,
                           descendantCount = as_number (json_field v ''descendantCount''), loaded = ld,
                           flags = flags_of_json fl, updatedMs = ms\<rparr>
                    else None
                | _ \<Rightarrow> None)
           | _ \<Rightarrow> None)"

text \<open>\<^verbatim>\<open>Array.isArray(nodes) && nodes.every(isTreeNode)\<close>\<close>

fun every_node :: "json list \<Rightarrow> tree_node list option" where
  "every_node [] = Some []"
| "every_node (j # js) =
     (case isTreeNode j of
        None \<Rightarrow> None
      | Some n \<Rightarrow> map_option ((#) n) (every_node js))"

definition node_array :: "json option \<Rightarrow> tree_node list option" where
  "node_array j = (case as_array j of None \<Rightarrow> None | Some xs \<Rightarrow> every_node xs)"

definition decode_data :: "string \<Rightarrow> json \<Rightarrow> tree_op option" where
  "decode_data kind d =
     (if kind = ''node.upsert'' then
        map_option NodeUpsert (Option.bind (json_field d ''node'') isTreeNode)
      else if kind = ''node.remove'' then
        map_option NodeRemove (as_string (json_field d ''id''))
      else if kind = ''node.move'' then
        (case (as_string (json_field d ''id''), nullable_string (json_field d ''newParentId'')) of
           (Some i, Some np) \<Rightarrow> Some (NodeMove i np)
         | _ \<Rightarrow> None)
      else if kind = ''node.children'' then
        (case (as_string (json_field d ''parentId''), node_array (json_field d ''nodes''),
               as_bool (json_field d ''hasMore'')) of
           (Some p, Some ns, Some hm) \<Rightarrow>
             Some (NodeChildren p ns hm (as_string (json_field d ''cursor'')))
         | _ \<Rightarrow> None)
      else if kind = ''node.facet'' then
        map_option (\<lambda>i. NodeFacet i \<lparr>
            f_activity = map_option activity_of_json (json_field d ''activity''),
            f_verb = json_field d ''verb'',
            f_flags = map_option partial_flags_of_json (json_field d ''flags'')\<rparr>)
          (as_string (json_field d ''id''))
      else None)"

definition decodeTreeOp :: "json \<Rightarrow> tree_op option" where
  "decodeTreeOp raw =
     (if \<not> is_object raw then None
      else case (as_string (json_field raw ''op''), json_field raw ''data'') of
             (Some kind, Some d) \<Rightarrow> if is_object d then decode_data kind d else None
           | _ \<Rightarrow> None)"

record tree_snapshot =
  snap_nodes :: "tree_node list"
  snap_focusedSessionId :: "string option"
  snap_epoch :: "string option"
  snap_seq :: "int option"
  snap_cause :: "string option"

text \<open>\<^verbatim>\<open>typeof x === "string" && x.length > 0\<close>\<close>

definition nonempty_string :: "json option \<Rightarrow> string option" where
  "nonempty_string j = (case as_string j of Some s \<Rightarrow> if s \<noteq> [] then Some s else None | None \<Rightarrow> None)"

definition decodeTreeSnapshot :: "json \<Rightarrow> tree_snapshot option" where
  "decodeTreeSnapshot raw =
     (if \<not> is_object raw then None
      else let nodes = (if json_field raw ''nodes'' = Some JNull then Some (JArr []) else json_field raw ''nodes'')
           in case node_array nodes of
                None \<Rightarrow> None
              | Some ns \<Rightarrow> Some \<lparr>snap_nodes = ns,
                  snap_focusedSessionId = as_string (json_field raw ''focusedSessionId''),
                  snap_epoch = nonempty_string (json_field raw ''epoch''),
                  snap_seq = as_number (json_field raw ''seq''),
                  snap_cause = nonempty_string (json_field raw ''cause'')\<rparr>)"

section \<open>The fetch of a node's children\<close>

record children_response =
  r_nodes :: "tree_node list"
  r_hasMore :: bool
  r_cursor :: "string option"
  r_stale :: bool

type_synonym tree_fetcher = "nat \<Rightarrow> string option \<Rightarrow> children_response option"

datatype fetch_outcome = Done | Rejected

text \<open>
  The loop: \<open>n\<close> is the number of the call, \<open>applied\<close> the ids this fetch has applied, \<open>ops\<close>
  the operations it has emitted.
\<close>

partial_function (option) fetch_loop ::
  "tree_fetcher \<Rightarrow> string \<Rightarrow> nat \<Rightarrow> string option \<Rightarrow> bool \<Rightarrow> string list \<Rightarrow> tree_op list
     \<Rightarrow> (tree_op list \<times> fetch_outcome) option" where
  "fetch_loop fetcher i n cursor restarted applied ops =
     (case fetcher n cursor of
        None \<Rightarrow> Some (ops, Rejected)
      | Some res \<Rightarrow>
          if r_stale res \<and> \<not> restarted
          then fetch_loop fetcher i (Suc n) None True [] (ops @ map NodeRemove applied)
          else (let ops' = ops @ [NodeChildren i (r_nodes res) (r_hasMore res) (r_cursor res)];
                    applied' = fold (\<lambda>c acc. if c \<in> set acc then acc else acc @ [c]) (map nid (r_nodes res)) applied
                in if \<not> r_hasMore res then Some (ops', Done)
                   else (case r_cursor res of
                           None \<Rightarrow> Some (ops', Done)
                         | Some c \<Rightarrow> fetch_loop fetcher i (Suc n) (Some c) restarted applied' ops')))"

definition fetchChildren :: "tree_fetcher \<Rightarrow> string \<Rightarrow> (tree_op list \<times> fetch_outcome) option" where
  "fetchChildren fetcher i = fetch_loop fetcher i 0 None False [] []"

section \<open>The wire format of the protocol\<close>

text \<open>How the protocol writes an operation; an absent optional field has no key.\<close>

definition opt_key :: "string \<Rightarrow> json option \<Rightarrow> (string \<times> json) list" where
  "opt_key k v = (case v of Some j \<Rightarrow> [(k, j)] | None \<Rightarrow> [])"

definition activity_text :: "activity \<Rightarrow> string" where
  "activity_text a = (case a of ActUnset \<Rightarrow> [] | ActIdle \<Rightarrow> ''idle'' | ActBusy \<Rightarrow> ''busy''
     | ActRetry \<Rightarrow> ''retry'' | ActError \<Rightarrow> ''error'' | ActOther j \<Rightarrow> ''other'')"

definition null_or :: "string option \<Rightarrow> json" where
  "null_or x = (case x of Some s \<Rightarrow> JStr s | None \<Rightarrow> JNull)"

definition flags_json :: "tree_flags \<Rightarrow> json" where
  "flags_json f = JObj ([(''pendingInput'', JBool (pendingInput f)),
     (''subtreeNeedsInput'', JBool (subtreeNeedsInput f)), (''permission'', JBool (permission f)),
     (''archived'', JBool (archived f)), (''orphan'', JBool (orphan f))] @
     opt_key ''subtreeBusy'' (map_option JBool (subtreeBusy f)))"

definition node_json :: "tree_node \<Rightarrow> json" where
  "node_json n = JObj ([(''id'', JStr (nid n)), (''parentId'', null_or (parentId n)), (''title'', JStr (title n)),
     (''activity'', JStr (activity_text (activity n))), (''childCount'', JNum (childCount n)),
     (''loaded'', JBool (loaded n)), (''flags'', flags_json (flags n)), (''updatedMs'', JNum (updatedMs n))] @
     opt_key ''agent'' (map_option JStr (agent n)) @ opt_key ''verb'' (verb n) @
     opt_key ''descendantCount'' (map_option JNum (descendantCount n)))"

definition partial_flags_json :: "partial_flags \<Rightarrow> json" where
  "partial_flags_json f = JObj (opt_key ''pendingInput'' (map_option JBool (p_pendingInput f)) @
     opt_key ''subtreeNeedsInput'' (map_option JBool (p_subtreeNeedsInput f)) @
     opt_key ''subtreeBusy'' (map_option JBool (p_subtreeBusy f)) @
     opt_key ''permission'' (map_option JBool (p_permission f)) @
     opt_key ''archived'' (map_option JBool (p_archived f)) @
     opt_key ''orphan'' (map_option JBool (p_orphan f)))"

fun op_json :: "tree_op \<Rightarrow> json" where
  "op_json (NodeUpsert n) = JObj [(''op'', JStr ''node.upsert''), (''data'', JObj [(''node'', node_json n)])]"
| "op_json (NodeRemove i) = JObj [(''op'', JStr ''node.remove''), (''data'', JObj [(''id'', JStr i)])]"
| "op_json (NodeMove i np) = JObj [(''op'', JStr ''node.move''),
     (''data'', JObj [(''id'', JStr i), (''newParentId'', null_or np)])]"
| "op_json (NodeChildren p ns hm cur) = JObj [(''op'', JStr ''node.children''),
     (''data'', JObj [(''parentId'', JStr p), (''nodes'', JArr (map node_json ns)),
        (''hasMore'', JBool hm), (''cursor'', null_or cur)])]"
| "op_json (NodeFacet i d) = JObj [(''op'', JStr ''node.facet''),
     (''data'', JObj ([(''id'', JStr i)] @
        opt_key ''activity'' (map_option (\<lambda>a. JStr (activity_text a)) (f_activity d)) @
        opt_key ''verb'' (f_verb d) @ opt_key ''flags'' (map_option partial_flags_json (f_flags d))))]"

fun known_activity :: "activity \<Rightarrow> bool" where
  "known_activity (ActOther j) = False"
| "known_activity a = True"

fun op_known :: "tree_op \<Rightarrow> bool" where
  "op_known (NodeUpsert n) = known_activity (activity n)"
| "op_known (NodeChildren p ns hm cur) = list_all (\<lambda>n. known_activity (activity n)) ns"
| "op_known (NodeFacet i d) = (case f_activity d of Some a \<Rightarrow> known_activity a | None \<Rightarrow> True)"
| "op_known op = True"

lemma map_of_opt_key [simp]: "map_of (opt_key k v) j = (if j = k then v else None)"
  by (simp add: opt_key_def split: option.split)

lemma map_of_opt_append [simp]:
  "map_of (opt_key k v @ xs) j = (if j = k \<and> v \<noteq> None then v else map_of xs j)"
  by (auto simp: opt_key_def split: option.split)

lemma option_or_None [simp]: "(if x \<noteq> None then x else None) = x" "(if \<exists>y. x = Some y then x else None) = x"
  by auto

lemma activity_text_inverse [simp]: "known_activity a \<Longrightarrow> activity_of_text (activity_text a) = a"
  by (cases a) (simp_all add: activity_of_text_def activity_text_def)

lemma nullable_null_or [simp]: "nullable_string (Some (null_or x)) = Some x"
  by (simp add: nullable_string_def null_or_def split: option.split)

lemma as_string_null_or [simp]: "as_string (Some (null_or x)) = x"
  by (simp add: null_or_def split: option.split)

lemma as_map_option [simp]:
  "as_string (map_option JStr x) = x" "as_number (map_option JNum y) = y"
  by (cases x; simp) (cases y; simp)

lemma truthy_JBool [simp]: "truthy (JBool b) = b"
  by (simp add: truthy_def)

lemma map_truthy_JBool [simp]: "map_option truthy (map_option JBool x) = x"
  by (cases x) simp_all

lemma flags_of_flags_json [simp]: "flags_of_json (flags_json f) = f"
  by (simp add: flags_of_json_def flags_json_def flag_field_def del: map_of_append)

lemma partial_flags_of_json_json [simp]: "partial_flags_of_json (partial_flags_json f) = f"
  by (simp add: partial_flags_of_json_def partial_flags_json_def del: map_of_append)

lemma map_partial_flags [simp]: "map_option partial_flags_of_json (map_option partial_flags_json x) = x"
  by (cases x) simp_all

lemma isTreeNode_json [simp]:
  "known_activity (activity n) \<Longrightarrow> isTreeNode (node_json n) = Some n"
proof -
  assume known: "known_activity (activity n)"
  have fl: "is_object (flags_json f)" for f by (simp add: flags_json_def is_object_def)
  have obj: "is_object (node_json n)" by (simp add: node_json_def is_object_def)
  have fields: "json_field (node_json n) ''id'' = Some (JStr (nid n))"
    "json_field (node_json n) ''parentId'' = Some (null_or (parentId n))"
    "json_field (node_json n) ''title'' = Some (JStr (title n))"
    "json_field (node_json n) ''activity'' = Some (JStr (activity_text (activity n)))"
    "json_field (node_json n) ''childCount'' = Some (JNum (childCount n))"
    "json_field (node_json n) ''loaded'' = Some (JBool (loaded n))"
    "json_field (node_json n) ''flags'' = Some (flags_json (flags n))"
    "json_field (node_json n) ''updatedMs'' = Some (JNum (updatedMs n))"
    "json_field (node_json n) ''agent'' = map_option JStr (agent n)"
    "json_field (node_json n) ''verb'' = verb n"
    "json_field (node_json n) ''descendantCount'' = map_option JNum (descendantCount n)"
    by (simp_all add: node_json_def del: map_of_append)
  show ?thesis using known by (simp add: isTreeNode_def obj fields fl)
qed

lemma every_node_json [simp]:
  "list_all (\<lambda>n. known_activity (activity n)) ns \<Longrightarrow> every_node (map node_json ns) = Some ns"
  by (induction ns) simp_all

lemma decode_op_json: "op_known op \<Longrightarrow> decodeTreeOp (op_json op) = Some op"
  by (cases op)
    (auto simp: decodeTreeOp_def is_object_def decode_data_def node_array_def activity_of_json_def
      intro!: facet_data.equality simp del: map_of_append split: option.splits)

section \<open>What a fetch emits\<close>

lemma dedupe_append:
  "fold (\<lambda>c acc. if c \<in> set acc then acc else acc @ [c]) ys (dedupe xs) = dedupe (xs @ ys)"
  by (simp add: dedupe_def)

text \<open>The ids of the children in the pages emitted so far.\<close>

definition page_ids :: "tree_op list \<Rightarrow> string list" where
  "page_ids ops = concat (map (\<lambda>op. case op of NodeChildren p ns hm cur \<Rightarrow> map nid ns | _ \<Rightarrow> []) ops)"

definition pages_of :: "string \<Rightarrow> tree_op list \<Rightarrow> bool" where
  "pages_of i ops \<longleftrightarrow> (\<forall>op \<in> set ops. \<exists>ns hm cur. op = NodeChildren i ns hm cur)"

lemma page_ids_simps [simp]:
  "page_ids [] = []" "page_ids (xs @ ys) = page_ids xs @ page_ids ys"
  "page_ids [NodeChildren i ns hm cur] = map nid ns"
  by (simp_all add: page_ids_def)

lemma pages_of_simps [simp]:
  "pages_of i []" "pages_of i (NodeChildren i ns hm cur # ys) \<longleftrightarrow> pages_of i ys" "pages_of i (xs @ ys) \<longleftrightarrow> pages_of i xs \<and> pages_of i ys"
  by (auto simp: pages_of_def)

text \<open>
  One fetch: pages only, or some pages, the removal of exactly the children they brought
  and, after the single restart, pages again.
\<close>

definition one_restart :: "string \<Rightarrow> tree_op list \<Rightarrow> bool" where
  "one_restart i ops \<longleftrightarrow> pages_of i ops \<or>
     (\<exists>pre post. ops = pre @ map NodeRemove (dedupe (page_ids pre)) @ post \<and> pages_of i pre \<and> pages_of i post)"

lemma fetch_loop_shape:
  assumes "fetch_loop fetcher i n cursor restarted applied ops = Some r"
  shows "(restarted \<longrightarrow> (\<exists>pages. fst r = ops @ pages \<and> pages_of i pages)) \<and>
    (\<not> restarted \<and> applied = dedupe (page_ids ops) \<and> pages_of i ops \<longrightarrow> one_restart i (fst r))"
proof (rule fetch_loop.raw_induct [OF _ assms], goal_cases)
  case (1 loop fetcher i n cursor restarted applied ops r)
  note IH = 1(1) and step = 1(2)
  show ?case
  proof (cases "fetcher n cursor")
    case None
    then show ?thesis using step by (auto simp: one_restart_def)
  next
    case (Some res)
    let ?ops = "ops @ [NodeChildren i (r_nodes res) (r_hasMore res) (r_cursor res)]"
    let ?ids = "fold (\<lambda>c acc. if c \<in> set acc then acc else acc @ [c]) (map nid (r_nodes res)) applied"
    show ?thesis
    proof (cases "r_stale res \<and> \<not> restarted")
      case True
      then have "loop fetcher i (Suc n) None True [] (ops @ map NodeRemove applied) = Some r"
        using step Some by simp
      from IH [OF this] True show ?thesis by (auto simp: one_restart_def)
    next
      case False
      then consider "r = (?ops, Done)" | c where "loop fetcher i (Suc n) (Some c) restarted ?ids ?ops = Some r"
        using step Some by (auto simp: Let_def split: if_splits option.splits)
      then show ?thesis
      proof cases
        case 1
        then show ?thesis by (auto simp: one_restart_def)
      next
        case 2
        have "applied = dedupe (page_ids ops) \<Longrightarrow> ?ids = dedupe (page_ids ?ops)"
          by (simp add: dedupe_append)
        with IH [OF 2] show ?thesis by auto
      qed
    qed
  qed
qed

lemma fetchChildren_shape: "fetchChildren fetcher i = Some (ops, out) \<Longrightarrow> one_restart i ops"
  using fetch_loop_shape [of fetcher i 0 None False "[]" "[]" "(ops, out)"]
  by (simp add: fetchChildren_def dedupe_def)

text \<open>The loop returns once the server stops promising more pages.\<close>

lemma fetch_loop_returns:
  assumes last: "\<And>n c r. N \<le> n \<Longrightarrow> fetcher n c = Some r \<Longrightarrow> \<not> r_hasMore r"
  shows "fetch_loop fetcher i n cursor restarted applied ops \<noteq> None"
proof -
  have late: "fetch_loop fetcher i n cursor restarted applied ops \<noteq> None"
    if "N \<le> n" for n cursor restarted applied ops
  proof -
    have fin: "fetch_loop fetcher i n cursor True applied ops \<noteq> None" if "N \<le> n" for n cursor applied ops
      using last [OF that, of cursor] by (subst fetch_loop.simps) (auto simp: Let_def split: option.split)
    show ?thesis
      using last [OF that, of cursor] fin [of "Suc n" None "[]" "ops @ map NodeRemove applied"] that
      by (subst fetch_loop.simps) (auto simp: Let_def split: option.split)
  qed
  have "N \<le> n + d \<Longrightarrow> ?thesis" for d
  proof (induction d arbitrary: n cursor restarted applied ops)
    case 0
    then show ?case using late by simp
  next
    case (Suc d)
    have "N \<le> Suc n + d" using Suc.prems by simp
    note IH = Suc.IH [OF this]
    show ?case using IH by (subst fetch_loop.simps) (simp add: Let_def split: option.split)
  qed
  from this [of N] show ?thesis by simp
qed

section \<open>What the server answered and what the fetch emitted\<close>

text \<open>
  The answers of consecutive calls, each made at the cursor of the one before: \<open>serves\<close> says
  that the server gave them from call \<open>n\<close> at cursor \<open>c\<close> on, \<open>cursor_after\<close> is the cursor of
  the next call. There is one only while an answer promises more and names a cursor.
\<close>

definition next_cursor :: "children_response \<Rightarrow> string option" where
  "next_cursor r = (if r_hasMore r then r_cursor r else None)"

fun serves :: "tree_fetcher \<Rightarrow> nat \<Rightarrow> string option \<Rightarrow> children_response list \<Rightarrow> bool" where
  "serves f n c [] = True"
| "serves f n c (r # rs) =
     (f n c = Some r \<and> (rs \<noteq> [] \<longrightarrow> next_cursor r \<noteq> None \<and> serves f (Suc n) (next_cursor r) rs))"

definition cursor_after :: "string option \<Rightarrow> children_response list \<Rightarrow> string option" where
  "cursor_after c rs = (if rs = [] then c else next_cursor (last rs))"

definition page_op :: "string \<Rightarrow> children_response \<Rightarrow> tree_op" where
  "page_op i r = NodeChildren i (r_nodes r) (r_hasMore r) (r_cursor r)"

text \<open>The children a list of answers brought.\<close>

definition child_ids :: "children_response list \<Rightarrow> string list" where
  "child_ids rs = concat (map (\<lambda>r. map nid (r_nodes r)) rs)"

lemma child_ids_simps [simp]:
  "child_ids [] = []" "child_ids (r # rs) = map nid (r_nodes r) @ child_ids rs"
  by (simp_all add: child_ids_def)

lemma page_ids_page_op [simp]: "page_ids (map (page_op i) rs) = child_ids rs"
  by (simp add: page_ids_def page_op_def child_ids_def comp_def)

lemma pages_of_page_op [simp]: "pages_of i (map (page_op i) rs)"
  by (auto simp: pages_of_def page_op_def)

text \<open>A round is over: the last answer names no further page, or the next call fails.\<close>

definition round_over :: "tree_fetcher \<Rightarrow> nat \<Rightarrow> string option \<Rightarrow> children_response list \<Rightarrow> fetch_outcome \<Rightarrow> bool" where
  "round_over f n c rs out \<longleftrightarrow>
     (if rs \<noteq> [] \<and> cursor_after c rs = None then out = Done
      else out = Rejected \<and> f (n + length rs) (cursor_after c rs) = None)"

lemma cursor_after_Cons: "rs \<noteq> [] \<Longrightarrow> cursor_after c (r # rs) = cursor_after (next_cursor r) rs"
  by (simp add: cursor_after_def)

lemma round_over_Cons:
  "next_cursor r \<noteq> None \<Longrightarrow> round_over f (Suc n) (next_cursor r) rs out \<Longrightarrow> round_over f n c (r # rs) out"
  by (cases "rs = []") (auto simp: round_over_def cursor_after_Cons, auto simp: cursor_after_def)

lemma fetch_step:
  assumes "f n c = Some r" and "restarted \<or> \<not> r_stale r"
  shows "fetch_loop f i n c restarted applied ops =
    (case next_cursor r of
       None \<Rightarrow> Some (ops @ [page_op i r], Done)
     | Some c' \<Rightarrow> fetch_loop f i (Suc n) (Some c') restarted
         (fold (\<lambda>c acc. if c \<in> set acc then acc else acc @ [c]) (map nid (r_nodes r)) applied) (ops @ [page_op i r]))"
  using assms by (subst fetch_loop.simps) (auto simp: next_cursor_def page_op_def Let_def split: option.split)

lemma fetch_pages:
  assumes "serves f n c rs" and "\<forall>r \<in> set rs. \<not> r_stale r" and "rs = [] \<or> cursor_after c rs \<noteq> None"
  shows "fetch_loop f i n c False (dedupe xs) ops =
    fetch_loop f i (n + length rs) (cursor_after c rs) False
      (dedupe (xs @ child_ids rs)) (ops @ map (page_op i) rs)"
  using assms
proof (induction rs arbitrary: n c xs ops)
  case Nil
  then show ?case by (simp add: cursor_after_def)
next
  case (Cons r rs)
  obtain c' where c': "next_cursor r = Some c'"
    using Cons.prems(1,3) by (cases "rs = []") (auto simp: cursor_after_def)
  have "fetch_loop f i n c False (dedupe xs) ops =
      fetch_loop f i (Suc n) (Some c') False (dedupe (xs @ map nid (r_nodes r))) (ops @ [page_op i r])"
    using Cons.prems(1,2) c' by (simp add: fetch_step dedupe_append)
  also have "\<dots> = fetch_loop f i (Suc n + length rs) (cursor_after (Some c') rs) False
      (dedupe ((xs @ map nid (r_nodes r)) @ child_ids rs)) ((ops @ [page_op i r]) @ map (page_op i) rs)"
    using Cons.prems c' by (intro Cons.IH) (auto simp: cursor_after_def)
  also have "cursor_after (Some c') rs = cursor_after c (r # rs)" using c' by (simp add: cursor_after_def)
  finally show ?case by simp
qed

lemma fetch_second_round:
  assumes "fetch_loop f i n c restarted applied ops = Some r"
  shows "restarted \<longrightarrow> (\<exists>rs. serves f n c rs \<and> fst r = ops @ map (page_op i) rs \<and> round_over f n c rs (snd r))"
proof (rule fetch_loop.raw_induct [OF _ assms], goal_cases)
  case (1 loop f i n c restarted applied ops r)
  note IH = 1(1) and step = 1(2)
  show ?case
  proof
    assume restarted: restarted
    show "\<exists>rs. serves f n c rs \<and> fst r = ops @ map (page_op i) rs \<and> round_over f n c rs (snd r)"
    proof (cases "f n c")
      case None
      then show ?thesis using step by (intro exI [of _ "[]"]) (auto simp: round_over_def cursor_after_def)
    next
      case (Some res)
      show ?thesis
      proof (cases "next_cursor res")
        case None
        then have "r = (ops @ [page_op i res], Done)"
          using step Some restarted by (auto simp: next_cursor_def page_op_def Let_def split: if_splits option.splits)
        then show ?thesis using Some None
          by (intro exI [of _ "[res]"]) (simp add: round_over_def cursor_after_def)
      next
        case c': (Some c')
        then obtain ids where "loop f i (Suc n) (Some c') True ids (ops @ [page_op i res]) = Some r"
          using step Some restarted by (auto simp: next_cursor_def page_op_def Let_def split: if_splits option.splits)
        from IH [OF this] obtain rs where
          rs: "serves f (Suc n) (Some c') rs" "fst r = (ops @ [page_op i res]) @ map (page_op i) rs" "round_over f (Suc n) (Some c') rs (snd r)"
          by blast
        then show ?thesis using Some c' round_over_Cons [of res f n rs "snd r" c]
          by (intro exI [of _ "res # rs"]) simp
      qed
    qed
  qed
qed

text \<open>
  The exact effect of a restart: the pages answered before the stale one, the removal of every
  child they brought, and the pages of a second round from the first page.
\<close>

lemma fetch_restart:
  assumes run: "fetchChildren f i = Some (ops, out)"
    and pre: "serves f 0 None rs" "\<forall>r \<in> set rs. \<not> r_stale r" "rs = [] \<or> cursor_after None rs \<noteq> None"
    and stale: "f (length rs) (cursor_after None rs) = Some r" "r_stale r"
  shows "\<exists>rs'. serves f (Suc (length rs)) None rs' \<and> round_over f (Suc (length rs)) None rs' out \<and>
    ops = map (page_op i) rs @ map NodeRemove (dedupe (child_ids rs)) @ map (page_op i) rs'"
proof -
  let ?pre = "map (page_op i) rs"
  have "fetchChildren f i = fetch_loop f i (length rs) (cursor_after None rs) False (dedupe (child_ids rs)) ?pre"
    using fetch_pages [OF pre, of i "[]" "[]"] by (simp add: fetchChildren_def dedupe_def)
  also have "\<dots> = fetch_loop f i (Suc (length rs)) None True [] (?pre @ map NodeRemove (dedupe (child_ids rs)))"
    using stale by (subst fetch_loop.simps) simp
  finally have "fetch_loop f i (Suc (length rs)) None True [] (?pre @ map NodeRemove (dedupe (child_ids rs))) = Some (ops, out)"
    using run by simp
  from fetch_second_round [OF this] show ?thesis by auto
qed

section \<open>A restart leaves no obsolete child behind\<close>

lemma run_opt_append:
  "run_opt step s (xs @ ys) = Option.bind (run_opt step s xs) (\<lambda>t. run_opt step t ys)"
  by (induction xs arbitrary: s) (auto split: option.split)

lemma run_removes_absent:
  "tm_wf m \<Longrightarrow> run_opt applyOp m (map NodeRemove ids) = Some m' \<Longrightarrow>
    (k \<in> set ids \<or> js_get m k = None) \<Longrightarrow> js_get m' k = None"
proof (induction ids arbitrary: m)
  case (Cons j ids)
  then obtain m1 where m1: "applyOp m (NodeRemove j) = Some m1" and run: "run_opt applyOp m1 (map NodeRemove ids) = Some m'"
    by (auto simp del: applyOp.simps split: option.splits)
  have wf: "tm_wf m1" by (rule applyOp_wf [OF Cons.prems(1) m1])
  have "k \<in> set ids \<or> js_get m1 k = None"
    using Cons.prems(3) m1 by (auto split: option.splits if_splits)
  then show ?case by (rule Cons.IH [OF wf run])
qed simp

lemma run_pages_absent:
  "pages_of i ops \<Longrightarrow> run_opt applyOp m ops = Some m' \<Longrightarrow> js_get m k = None \<Longrightarrow> k \<notin> set (page_ids ops) \<Longrightarrow>
    js_get m' k = None"
proof (induction ops arbitrary: m)
  case (Cons op ops)
  from Cons.prems(1) obtain ns hm cur where op: "op = NodeChildren i ns hm cur"
    by (auto simp: pages_of_def)
  from Cons.prems(2) obtain m1 where m1: "applyOp m op = Some m1" and run: "run_opt applyOp m1 ops = Some m'"
    by (auto simp del: applyOp.simps split: option.splits)
  have "k \<notin> nid ` set ns" using Cons.prems(4) by (simp add: op page_ids_def)
  then have "js_get m1 k = None"
    using m1 Cons.prems(3) by (auto simp: op Let_def get_fold_set_absent split: option.splits if_splits)
  moreover have "pages_of i ops" "k \<notin> set (page_ids ops)"
    using Cons.prems(1,4) by (simp_all add: pages_of_def page_ids_def)
  ultimately show ?case using Cons.IH run by blast
qed simp

lemma restart_leaves_nothing:
  assumes wf: "tm_wf m" and pre: "pages_of i pre" and post: "pages_of i post"
    and run: "applyOps m (pre @ map NodeRemove (dedupe (page_ids pre)) @ post) = Some m'"
    and k: "k \<in> set (page_ids pre)" "k \<notin> set (page_ids post)"
  shows "js_get m' k = None"
proof -
  from run obtain m1 m2 where m1: "run_opt applyOp m pre = Some m1"
    and m2: "run_opt applyOp m1 (map NodeRemove (dedupe (page_ids pre))) = Some m2"
    and m': "run_opt applyOp m2 post = Some m'"
    by (auto simp: applyOps_def run_opt_append bind_eq_Some_conv)
  have "tm_wf m1" using applyOps_wf [OF wf] m1 by (simp add: applyOps_def)
  from run_removes_absent [OF this m2] k(1) have "js_get m2 k = None" by simp
  then show ?thesis by (rule run_pages_absent [OF post m']) (rule k(2))
qed

end
