(* ===== verification/TreeProps.thy ===== *)
theory TreeProps
  imports TreeOrder TreePersist TreeOps
begin

text \<open>
  The properties of the session tree: the flat map and its operations, the store around it,
  its presentation order, its persisted modes, the wire format and the expand fetch. Each
  property is followed by a use of it on a concrete tree.
\<close>

section \<open>Concrete trees\<close>

definition demo_node :: "string \<Rightarrow> string option \<Rightarrow> activity \<Rightarrow> int \<Rightarrow> tree_node" where
  "demo_node i p a ms = \<lparr>nid = i, parentId = p, title = i, agent = None, verb = None, activity = a, childCount = 0,
     descendantCount = None, loaded = True,
     flags = \<lparr>pendingInput = False, subtreeNeedsInput = False, subtreeBusy = None, permission = False,
       archived = False, orphan = False\<rparr>, updatedMs = ms\<rparr>"

definition demo_storage :: local_storage where
  "demo_storage = \<lparr>ls_items = [], ls_get_throws = False, ls_set_throws = False, ls_writes = 0\<rparr>"

text \<open>A root with an idle and a busy child, freshly seeded.\<close>

definition demo_store :: tree_state where
  "demo_store = seedTreeStore [demo_node ''a'' None ActIdle 1, demo_node ''b'' (Some ''a'') ActIdle 2,
     demo_node ''c'' (Some ''a'') ActBusy 3] (init_tree_state demo_storage)"

lemma demo_store_inv: "ts_inv demo_store" "no_idle_filtered demo_store"
  unfolding demo_store_def by (rule seed_inv [OF init_inv], rule seed_no_idle_filtered)

lemma upsert_returns: "\<exists>s'. applyTreeOpStore (NodeUpsert n) s = Some s'"
  by (simp add: applyTreeOpStore_def Let_def split: prod.split)

section \<open>Which events return\<close>

text \<open>The node whose loaded subtree an event walks.\<close>

fun walked :: "tree_event \<Rightarrow> string option" where
  "walked (Op (NodeRemove i)) = Some i"
| "walked (RemoveNode i) = Some i"
| "walked (CollapseNode i prot) = Some i"
| "walked e = None"

definition stuck :: "tree_state \<Rightarrow> tree_event \<Rightarrow> bool" where
  "stuck s e = (case walked e of Some i \<Rightarrow> on_cycle (ts_map s) i | None \<Rightarrow> False)"

lemma applyOp_returns:
  "tm_wf m \<Longrightarrow> applyOp m op = None \<longleftrightarrow> (case op of NodeRemove i \<Rightarrow> on_cycle m i | _ \<Rightarrow> False)"
  by (cases op) (auto simp: Let_def loadedDescendants_returns [symmetric] split: option.splits)

lemma op_store_returns:
  assumes "tm_wf (ts_map s)"
  shows "applyTreeOpStore op s = None \<longleftrightarrow> (case op of NodeRemove i \<Rightarrow> on_cycle (ts_map s) i | _ \<Rightarrow> False)"
  using applyOp_returns [OF assms, of op] loadedDescendants_returns [OF assms]
  by (cases op) (auto simp: applyTreeOpStore_def Let_def simp del: applyOp.simps split: option.splits prod.splits)

lemma step_returns:
  assumes "ts_inv s"
  shows "tree_step s e = None \<longleftrightarrow> stuck s e"
proof -
  have wf: "tm_wf (ts_map s)" using assms by (simp add: ts_inv_def)
  note r = op_store_returns [OF wf] applyOp_returns [OF wf] loadedDescendants_returns [OF wf] collapseNode_returns [OF wf]
  show ?thesis
  proof (cases e)
    case (Op op)
    then show ?thesis using r(1) [of op] by (cases op) (simp_all add: stuck_def)
  next
    case (RemoveNode i)
    then show ?thesis using r(2) [of "NodeRemove i"] r(3) [of i]
      by (auto simp: stuck_def removeTreeNode_def simp del: applyOp.simps split: option.splits)
  next
    case (CollapseNode i prot)
    then show ?thesis using r(3) [of i] r(4) [of i prot]
      by (auto simp: stuck_def collapseTreeNode_def split: option.splits)
  qed (simp_all add: stuck_def)
qed

lemma run_stops:
  assumes "ts_inv s" and "run_opt tree_step s es = None"
  shows "\<exists>pre e post t. es = pre @ e # post \<and> run_opt tree_step s pre = Some t \<and> stuck t e"
  using assms
proof (induction es arbitrary: s)
  case (Cons e es)
  show ?case
  proof (cases "tree_step s e")
    case None
    then have "stuck s e" using step_returns [OF Cons.prems(1)] by simp
    then show ?thesis by (intro exI [of _ "[]"] exI [of _ e] exI [of _ es] exI [of _ s]) simp
  next
    case (Some u)
    then have "ts_inv u" "run_opt tree_step u es = None"
      using Cons.prems tree_store.step_preserves by auto
    from Cons.IH [OF this] obtain pre f post t where
      "es = pre @ f # post" "run_opt tree_step u pre = Some t" "stuck t f" by blast
    then show ?thesis using Some by (intro exI [of _ "e # pre"] exI [of _ f] exI [of _ post] exI [of _ t]) simp
  qed
qed simp

section \<open>The flat map\<close>

text \<open>C2: A log of server operations applied to a seeded map has exactly the effect the protocol
  promises for each of them (upsert replaces, remove drops the node and its loaded subtree, move
  re-parents, children merges a page and marks the terminal one, facet merges the present fields),
  and does not return exactly when a removal is asked for a node on a parent cycle.\<close>

theorem op_log_refines:
  "map_option js_get (applyOps (seedTree nodes) ops) = run_opt spec_op (js_get (seedTree nodes)) ops"
  unfolding applyOps_def by (rule applyOps_refines_run [OF tm_wf_seedTree])

text \<open>C8: The walk of the loaded subtree returns exactly off the parent cycles, and then lists every
  resident node whose chain of parents leads to the start, each once.\<close>

theorem loadedDescendants_spec:
  "case loadedDescendants (seedTree nodes) i of
     None \<Rightarrow> on_cycle (seedTree nodes) i
   | Some ids \<Rightarrow> \<not> on_cycle (seedTree nodes) i \<and> distinct ids \<and>
       set ids = (if js_get (seedTree nodes) i = None then {} else subtree (seedTree nodes) i)"
proof (cases "loadedDescendants (seedTree nodes) i")
  case None
  then show ?thesis using loadedDescendants_returns [OF tm_wf_seedTree, of nodes i] by simp
next
  case (Some ids)
  note wf = tm_wf_seedTree [of nodes]
  have "\<not> on_cycle (seedTree nodes) i" using loadedDescendants_returns [OF wf, of i] Some by simp
  then show ?thesis
    using Some loadedDescendants_correct [OF wf _ Some]
    by (cases "js_get (seedTree nodes) i = None") auto
qed

section \<open>The store\<close>

text \<open>C3: Over every sequence of events from the start of the program, the store stays consistent: every
  node under its own id, every resident node ranked and ranks distinct, the queue holding only
  promotions of the current generation with a flush scheduled. A run stops only at a removal or a
  collapse of a node that lies on a parent cycle.\<close>

theorem tree_store_invariant:
  "case run_opt tree_step (init_tree_state ls) es of
     Some s \<Rightarrow> ts_inv s
   | None \<Rightarrow> \<exists>pre e post t. es = pre @ e # post \<and> run_opt tree_step (init_tree_state ls) pre = Some t \<and> stuck t e"
  using tree_store.run_preserves [OF init_inv, of ls es] run_stops [OF init_inv, of ls es]
  by (auto split: option.split)

lemma automatic_run:
  "ts_inv s \<Longrightarrow> no_idle_filtered s \<Longrightarrow> list_all automatic es \<Longrightarrow> run_opt tree_step s es = Some s' \<Longrightarrow> no_idle_filtered s'"
proof (induction es arbitrary: s)
  case (Cons e es)
  then obtain t where t: "tree_step s e = Some t" "run_opt tree_step t es = Some s'"
    by (auto split: option.splits)
  have "ts_inv t" "no_idle_filtered t"
    using tree_step_inv [OF Cons.prems(1) t(1)] automatic_step_no_idle_filtered [OF Cons.prems(1,2) _ t(1)] Cons.prems(3)
    by simp_all
  then show ?case using Cons.IH t(2) Cons.prems(3) by simp
qed simp

text \<open>C4: As long as no user sets a mode, no resident idle node is left in filtered mode after any event,
  whatever the server sends, unless the entry is explicit and the node's activity was never observed.\<close>

theorem idle_never_filtered:
  assumes "list_all automatic es" and "run_opt tree_step (init_tree_state ls) es = Some s"
  shows "no_idle_filtered s"
  by (rule automatic_run [OF init_inv init_no_idle_filtered assms])

theorem idle_never_filtered_witness:
  "\<exists>s. run_opt tree_step (init_tree_state demo_storage)
      [Seed [demo_node ''a'' None ActBusy 1], Op (NodeUpsert (demo_node ''a'' None ActIdle 2)), Flush] = Some s \<and>
    no_idle_filtered s"
proof -
  let ?es = "[Seed [demo_node ''a'' None ActBusy 1], Op (NodeUpsert (demo_node ''a'' None ActIdle 2)), Flush]"
  obtain s where s: "run_opt tree_step (init_tree_state demo_storage) ?es = Some s"
    using upsert_returns [of "demo_node ''a'' None ActIdle 2"
      "seedTreeStore [demo_node ''a'' None ActBusy 1] (init_tree_state demo_storage)"] by auto
  show ?thesis using s idle_never_filtered [OF _ s] by auto
qed

text \<open>C5: In a store that satisfies the invariant of C3, an event other than the three mode setters changes
  the mode of a node only from collapsed to filtered when the node is working, and only from filtered to
  collapsed when it is idle; an explicit filtered entry is collapsed only once the node's activity has been
  observed, and an expanded one never. The one exception is the reset at a project switch, which drops every
  entry, the expanded ones included.\<close>

theorem automatic_mode_changes:
  assumes "ts_inv s" and "automatic e" and "tree_step s e = Some s'"
  shows "if e = Reset then js_get (treeModeMap s') k = None
    else js_get (treeModeMap s') k = js_get (treeModeMap s) k \<or>
      (\<exists>n. js_get (ts_map s') k = Some n \<and>
        (working n \<and> js_get (treeModeMap s) k = Some Collapsed \<and> js_get (treeModeMap s') k = Some Filtered \<or>
         \<not> working n \<and> modeOf s k = Filtered \<and> (js_get (treeModeMap s) k = None \<or> activityEstablished n) \<and>
           js_get (treeModeMap s') k = Some Collapsed))"
proof (cases "e = Reset")
  case True
  then show ?thesis using assms(3) by (auto simp: reset_modes)
next
  case False
  then show ?thesis using automatic_step_modes [OF assms(1,2) False assms(3), of k] by simp
qed

theorem automatic_mode_changes_witness:
  "js_get (treeModeMap (resetTreeStore demo_store)) ''a'' = None \<and>
   (js_get (treeModeMap (flushAutoModeQueue demo_store)) ''a'' = js_get (treeModeMap demo_store) ''a'' \<or>
    (\<exists>n. js_get (ts_map (flushAutoModeQueue demo_store)) ''a'' = Some n \<and>
      (working n \<and> js_get (treeModeMap demo_store) ''a'' = Some Collapsed \<and>
         js_get (treeModeMap (flushAutoModeQueue demo_store)) ''a'' = Some Filtered \<or>
       \<not> working n \<and> modeOf demo_store ''a'' = Filtered \<and>
         (js_get (treeModeMap demo_store) ''a'' = None \<or> activityEstablished n) \<and>
         js_get (treeModeMap (flushAutoModeQueue demo_store)) ''a'' = Some Collapsed)))"
  using automatic_mode_changes [OF demo_store_inv(1), of Flush _ "''a''"]
    automatic_mode_changes [OF demo_store_inv(1), of Reset _ "''a''"]
  by simp

section \<open>Working edges\<close>

text \<open>C6: In a store that satisfies the invariant of C3, take any operation (upsert, move, page or facet) after
  which a resident node that was idle and collapsed is working. Its mode does not change by the operation,
  nor by any further events before the flush, as long as no snapshot, no reset and no user choice for this
  node comes in between; a flush stays scheduled, and the flush opens the node to filtered exactly when it
  is then still resident and working: one that settled again in between stays collapsed.\<close>

theorem working_edge_promotes:
  assumes "ts_inv s" and "js_get (ts_map s) k = Some old" and "\<not> working old" and "modeOf s k = Collapsed"
    and "applyTreeOpStore op s = Some s1" and "js_get (ts_map s1) k = Some n" and "working n"
    and "list_all (spares k) es" and "run_opt tree_step s1 es = Some s2"
  shows "modeOf s2 k = Collapsed \<and> flushScheduled s2 \<and>
    modeOf (flushAutoModeQueue s2) k =
      (case js_get (ts_map s2) k of Some m \<Rightarrow> if working m then Filtered else Collapsed | None \<Rightarrow> Collapsed)"
proof -
  have "awaits_flush s2 k" using awaits_run [OF edge_awaits [OF assms(1-7)] assms(8,9)] .
  then show ?thesis using awaits_flushed [of s2 k] by (simp add: awaits_flush_def)
qed

lemma demo_store_b: "js_get (ts_map demo_store) ''b'' = Some (demo_node ''b'' (Some ''a'') ActIdle 2)"
  by (simp add: demo_store_def seedTree_def demo_node_def)

lemma demo_store_mode_b: "modeOf demo_store ''b'' = Collapsed"
proof -
  have "modeOf demo_store ''b'' = Filtered \<longrightarrow> must_collapse (ts_map demo_store) (treeModeMap demo_store) ''b''"
    using demo_store_b by (simp add: must_collapse_def modeOf_mode_in working_def demo_node_def activityEstablished_def)
  moreover have "js_get (treeModeMap demo_store) ''b'' \<noteq> Some Expanded"
    by (simp add: demo_store_def seed_modes init_tree_state_def loadInitialTreeModes_def Let_def demo_storage_def
        get_item_def loadVersioned_def seedTree_def seed_change_def autoTreeModeForWorkingTransition_def
        migrateFromExpandedSet_def keepExpandedOnly_def split: option.split)
  ultimately show ?thesis
    using demo_store_inv(2) by (cases "modeOf demo_store ''b''") (auto simp: no_idle_filtered_def modeOf_def split: option.splits)
qed

text \<open>A facet that carries an activity only.\<close>

definition activity_facet :: "string \<Rightarrow> activity \<Rightarrow> tree_op" where
  "activity_facet i a = NodeFacet i \<lparr>f_activity = Some a, f_verb = None, f_flags = None\<rparr>"

lemma activity_facet_step:
  assumes "ts_inv s" and "js_get (ts_map s) i = Some n"
  shows "\<exists>s'. applyTreeOpStore (activity_facet i a) s = Some s' \<and> js_get (ts_map s') i = Some (n\<lparr>activity := a\<rparr>)"
proof -
  obtain m' where m': "applyOp (ts_map s) (activity_facet i a) = Some m'" "js_get m' i = Some (n\<lparr>activity := a\<rparr>)"
    using assms(2) by (simp add: activity_facet_def merge_facet_def)
  obtain s' where s': "applyTreeOpStore (activity_facet i a) s = Some s'"
    using op_store_returns [of s "activity_facet i a"] assms(1) by (auto simp: ts_inv_def activity_facet_def)
  then have "ts_map s' = m'" using applyTreeOpStore_result [OF s'] m'(1) by (metis option.inject)
  then show ?thesis using s' m'(2) by blast
qed

text \<open>A facet starts \<^verbatim>\<open>b\<close>: a flush opens it, unless a second facet stops it first.\<close>

theorem working_edge_promotes_witness:
  "\<exists>s1 s2. applyTreeOpStore (activity_facet ''b'' ActBusy) demo_store = Some s1 \<and>
    applyTreeOpStore (activity_facet ''b'' ActIdle) s1 = Some s2 \<and>
    modeOf s1 ''b'' = Collapsed \<and> modeOf (flushAutoModeQueue s1) ''b'' = Filtered \<and>
    modeOf (flushAutoModeQueue s2) ''b'' = Collapsed"
proof -
  obtain s1 where s1: "applyTreeOpStore (activity_facet ''b'' ActBusy) demo_store = Some s1"
    and n1: "js_get (ts_map s1) ''b'' = Some ((demo_node ''b'' (Some ''a'') ActIdle 2)\<lparr>activity := ActBusy\<rparr>)"
    using activity_facet_step [OF demo_store_inv(1) demo_store_b] by blast
  obtain s2 where s2: "applyTreeOpStore (activity_facet ''b'' ActIdle) s1 = Some s2"
    and n2: "js_get (ts_map s2) ''b'' = Some ((demo_node ''b'' (Some ''a'') ActIdle 2)\<lparr>activity := ActBusy, activity := ActIdle\<rparr>)"
    using activity_facet_step [OF op_inv [OF demo_store_inv(1) s1] n1] by blast
  have w: "\<not> working (demo_node ''b'' (Some ''a'') ActIdle 2)" "working ((demo_node ''b'' (Some ''a'') ActIdle 2)\<lparr>activity := ActBusy\<rparr>)"
    "\<not> working ((demo_node ''b'' (Some ''a'') ActIdle 2)\<lparr>activity := ActIdle\<rparr>)"
    by (simp_all add: working_def demo_node_def)
  note e = working_edge_promotes [OF demo_store_inv(1) demo_store_b w(1) demo_store_mode_b s1 n1 w(2)]
  from e [of "[]" s1] e [of "[Op (activity_facet ''b'' ActIdle)]" s2] show ?thesis
    using s1 s2 n1 n2 w(2,3) by simp
qed

section \<open>Presentation order\<close>

text \<open>C23: After a snapshot every group of siblings is shown most recently updated first, ties in the
  order the server sent.\<close>

theorem seed_shows_recent_first:
  "shown (seedTreeStore nodes s) p =
     sort_key (\<lambda>n. - updatedMs n) (filter (\<lambda>n. parentId n = p) (js_values (seedTree nodes)))"
  by (rule shown_seed)

lemma sorted_filters_agree:
  assumes "sorted (map f xs)" and "sorted (map f ys)" and "inj_on f (set xs \<union> set ys)"
    and "distinct xs" and "distinct ys"
  shows "filter (\<lambda>k. k \<in> set ys) xs = filter (\<lambda>k. k \<in> set xs) ys"
proof -
  let ?x = "filter (\<lambda>k. k \<in> set ys) xs" and ?y = "filter (\<lambda>k. k \<in> set xs) ys"
  have "distinct (map f ?x)" "distinct (map f ?y)"
    using assms(3-5) by (auto simp: distinct_map intro: inj_on_subset)
  moreover have "sorted (map f ?x)" "sorted (map f ?y)" using assms(1,2) by (simp_all add: sorted_filter)
  moreover have "set (map f ?x) = set (map f ?y)" by auto
  ultimately have "map f ?x = map f ?y" by (intro sorted_distinct_set_unique)
  then show ?thesis using assms(3) by (rule map_inj_on [OF _ inj_on_subset]) auto
qed

lemma shown_old:
  assumes "ts_inv s"
  shows "sorted (map (front_key s) (map nid (shown s p)))" "distinct (map nid (shown s p))"
    "set (map nid (shown s p)) = set (kids (ts_map s) p)"
  using assms shown_ids [of s p] distinct_kids [of "ts_map s" p] by (simp_all add: ts_inv_def)

text \<open>C7: An operation puts the nodes it inserts, moves or starts working in front of their siblings and
  leaves the others behind them in the order they were shown in before.\<close>

theorem op_promotes_to_front:
  assumes "ts_inv s" and "applyTreeOpStore op s = Some s'"
  shows "\<exists>xs ys. map nid (shown s' p) = xs @ ys \<and>
    (\<forall>k \<in> set xs. promoted (ts_map s) (ts_map s') op k) \<and> (\<forall>k \<in> set ys. \<not> promoted (ts_map s) (ts_map s') op k) \<and>
    filter (\<lambda>k. k \<in> set ys) (map nid (shown s p)) = filter (\<lambda>k. k \<in> set (map nid (shown s p))) ys"
proof -
  obtain xs ys where o: "map nid (shown s' p) = xs @ ys" "\<forall>k \<in> set xs. promoted (ts_map s) (ts_map s') op k"
    "\<forall>k \<in> set ys. \<not> promoted (ts_map s) (ts_map s') op k" "sorted (map (front_key s) ys)"
    by (rule op_shown [OF assms])
  have inv': "ts_inv s'" by (rule op_inv [OF assms])
  have res: "js_get (ts_map s) k \<noteq> None" if "k \<in> set ys" for k
  proof -
    have "k \<in> set (map nid (shown s' p))" using that o(1) by simp
    then have "js_get (ts_map s') k \<noteq> None" using shown_old(3) [OF inv'] kids_resident by blast
    then show ?thesis using o(3) that by (auto simp: promoted_def split: option.splits)
  qed
  have "inj_on (front_key s) (set (map nid (shown s p)) \<union> set ys)"
    using front_key_inj [of s] assms(1) res shown_old(3) [OF assms(1)] kids_resident
    by (intro inj_onI) (metis Un_iff ts_inv_def)
  moreover have "distinct ys" using shown_old(2) [OF inv', of p] o(1) by simp
  ultimately have "filter (\<lambda>k. k \<in> set ys) (map nid (shown s p)) = filter (\<lambda>k. k \<in> set (map nid (shown s p))) ys"
    using sorted_filters_agree shown_old(1,2) [OF assms(1)] o(4) by blast
  then show ?thesis using o(1-3) by blast
qed

theorem op_promotes_to_front_witness:
  "\<exists>s' xs ys. applyTreeOpStore (NodeUpsert (demo_node ''d'' (Some ''a'') ActIdle 0)) demo_store = Some s' \<and>
    map nid (shown s' (Some ''a'')) = xs @ ys \<and>
    filter (\<lambda>k. k \<in> set ys) (map nid (shown demo_store (Some ''a''))) =
      filter (\<lambda>k. k \<in> set (map nid (shown demo_store (Some ''a'')))) ys"
  using upsert_returns [of "demo_node ''d'' (Some ''a'') ActIdle 0" demo_store]
    op_promotes_to_front [OF demo_store_inv(1)] by meson

section \<open>Persisted modes\<close>

text \<open>C27: What a user's click stored is what a reload reads: every mode, in the order the modes were
  first set.\<close>

theorem mode_survives_reload:
  assumes "\<not> ls_get_throws (storage s)" and "\<not> ls_set_throws (storage s)" and "named_modes (treeModeMap s)" and "i \<noteq> []"
  shows "treeModeMap (init_tree_state (storage (setNodeMode i md s))) = js_set i md (treeModeMap s)"
proof -
  have "named_modes (js_set i md (treeModeMap s))"
    using assms(3,4) by (auto simp: named_modes_def js_keys_set)
  from load_saved [OF assms(1,2) this] show ?thesis
    by (simp add: setNodeMode_def store_modes_def init_tree_state_def)
qed

theorem mode_survives_reload_witness:
  "treeModeMap (init_tree_state (storage (setNodeMode ''a'' Expanded (init_tree_state demo_storage)))) = [(''a'', Expanded)]"
proof -
  have "treeModeMap (init_tree_state demo_storage) = []"
    by (simp add: init_tree_state_def loadInitialTreeModes_def Let_def demo_storage_def get_item_def loadVersioned_def
        migrateFromExpandedSet_def keepExpandedOnly_def)
  moreover have "storage (init_tree_state demo_storage) = saveVersioned demo_storage LS_MODE_V3 1 (modes_json [])"
    by (simp add: init_tree_state_def loadInitialTreeModes_def Let_def demo_storage_def get_item_def loadVersioned_def
        migrateFromExpandedSet_def keepExpandedOnly_def)
  ultimately show ?thesis
    using mode_survives_reload [of "init_tree_state demo_storage" "''a''" Expanded]
    by (simp add: demo_storage_def named_modes_def js_set_def)
qed

lemma first_load_v2:
  assumes "get_item ls LS_MODE_V3 = None" and "get_item ls LS_MODE = Some x"
  shows "\<exists>j. snd (loadInitialTreeModes ls) = keepExpandedOnly (coerceModeMap j) \<and>
    j = loadVersioned ls LS_MODE 1 (JObj []) (Some (\<lambda>o' _. o')) \<and>
    loadInitialTreeModes ls = (saveVersioned ls LS_MODE_V3 1 (modes_json (keepExpandedOnly (coerceModeMap j))), keepExpandedOnly (coerceModeMap j))"
  using assms by (simp add: loadInitialTreeModes_def Let_def)

text \<open>C28: The one-time sweep keeps the expanded entries of the old mode map and no other, and a second load
  finds the swept map and changes nothing.\<close>

theorem sweep_keeps_expanded_once:
  assumes "\<not> ls_get_throws ls" and "\<not> ls_set_throws ls"
    and "js_get (ls_items ls) LS_MODE_V3 = None" and "js_get (ls_items ls) LS_MODE = Some x"
  shows "js_get (snd (loadInitialTreeModes ls)) i =
      (if js_get (coerceModeMap (loadVersioned ls LS_MODE 1 (JObj []) (Some (\<lambda>o' _. o')))) i = Some Expanded
       then Some Expanded else None) \<and>
    loadInitialTreeModes (fst (loadInitialTreeModes ls)) = loadInitialTreeModes ls"
proof -
  let ?j = "loadVersioned ls LS_MODE 1 (JObj []) (Some (\<lambda>o' _. o'))"
  let ?m = "keepExpandedOnly (coerceModeMap ?j)"
  have ld: "loadInitialTreeModes ls = (saveVersioned ls LS_MODE_V3 1 (modes_json ?m), ?m)"
    using first_load_v2 [of ls x] assms by (simp add: get_item_def)
  have "js_wf (coerceModeMap ?j)" using named_modes_coerce [of ?j] by (simp add: named_modes_def)
  then show ?thesis
    using keepExpandedOnly_get load_saved [OF assms(1,2) named_modes_keep [OF named_modes_coerce [of ?j]]] ld by simp
qed

definition old_storage :: local_storage where
  "old_storage = demo_storage\<lparr>ls_items := [(LS_MODE, RawJson (JObj [(''v'', JNum 1),
     (''data'', JObj [(''a'', JStr ''filtered''), (''b'', JStr ''expanded'')])]))]\<rparr>"

theorem sweep_keeps_expanded_once_witness:
  "js_get (snd (loadInitialTreeModes old_storage)) ''a'' = None \<and>
   js_get (snd (loadInitialTreeModes old_storage)) ''b'' = Some Expanded"
  using sweep_keeps_expanded_once [of old_storage _ "''a''"] sweep_keeps_expanded_once [of old_storage _ "''b''"]
  by (simp add: old_storage_def demo_storage_def LS_MODE_def LS_MODE_V3_def loadVersioned_def get_item_def
      coerceModeMap_def object_entries_def validMode_def)

section \<open>The wire and the expand fetch\<close>

text \<open>C26: Every operation whose activities are the protocol's decodes from its wire form to itself,
  absent optional fields and explicit nulls included.\<close>

theorem decode_roundtrip:
  assumes "op_known op"
  shows "decodeTreeOp (op_json op) = Some op"
  using assms by (rule decode_op_json)

theorem decode_roundtrip_witness:
  "decodeTreeOp (op_json (NodeFacet ''a'' \<lparr>f_activity = Some ActBusy, f_verb = Some JNull, f_flags = None\<rparr>)) =
    Some (NodeFacet ''a'' \<lparr>f_activity = Some ActBusy, f_verb = Some JNull, f_flags = None\<rparr>)"
  by (rule decode_roundtrip) simp

text \<open>C22: The paginated fetch returns once the server stops promising pages after some number of calls,
  whatever it answered before, and emits pages with at most one restart between them.\<close>

theorem fetch_returns:
  assumes "\<And>n c r. N \<le> n \<Longrightarrow> fetcher n c = Some r \<Longrightarrow> \<not> r_hasMore r"
  shows "\<exists>ops out. fetchChildren fetcher i = Some (ops, out) \<and> one_restart i ops"
proof -
  obtain r where r: "fetchChildren fetcher i = Some r"
    using fetch_loop_returns [of N fetcher i 0 None False "[]" "[]"] assms by (auto simp: fetchChildren_def)
  then show ?thesis using fetchChildren_shape by (cases r) blast
qed

definition demo_page :: "string \<Rightarrow> string option \<Rightarrow> bool \<Rightarrow> children_response" where
  "demo_page k cur stale = \<lparr>r_nodes = [demo_node k (Some ''a'') ActIdle 1], r_hasMore = (cur \<noteq> None), r_cursor = cur,
     r_stale = stale\<rparr>"

text \<open>A page, then a stale cursor, then the terminal page.\<close>

definition demo_fetcher :: tree_fetcher where
  "demo_fetcher n c = (if n = 0 then Some (demo_page ''x'' (Some ''x'') False)
     else if n = 1 then Some (demo_page ''z'' (Some ''z'') True) else Some (demo_page ''y'' None False))"

theorem fetch_returns_witness:
  "\<exists>ops out. fetchChildren demo_fetcher ''a'' = Some (ops, out) \<and> one_restart ''a'' ops"
  by (rule fetch_returns [of 2]) (auto simp: demo_fetcher_def demo_page_def)

lemma demo_fetch:
  "fetchChildren demo_fetcher ''a'' = Some ([NodeChildren ''a'' [demo_node ''x'' (Some ''a'') ActIdle 1] True (Some ''x''),
     NodeRemove ''x'', NodeChildren ''a'' [demo_node ''y'' (Some ''a'') ActIdle 1] False None], Done)"
  by (simp add: fetchChildren_def fetch_loop.simps [of demo_fetcher] demo_fetcher_def demo_page_def Let_def demo_node_def)

text \<open>C21: When the server answers pages, each naming the next, and then a stale cursor, the fetch has emitted
  exactly those pages, then the removal of every child they brought, each once, and then the pages of a
  second round that starts again at the first page and runs to its end; the stale answer itself is not
  applied. Applied to a map with every node under its own id, this leaves no child of the abandoned
  pages behind that the second round did not bring again.\<close>

theorem restart_is_clean:
  assumes "fetchChildren fetcher i = Some (ops, out)"
    and "serves fetcher 0 None rs" and "\<forall>r \<in> set rs. \<not> r_stale r" and "rs = [] \<or> cursor_after None rs \<noteq> None"
    and "fetcher (length rs) (cursor_after None rs) = Some r" and "r_stale r"
  shows "\<exists>rs'. serves fetcher (Suc (length rs)) None rs' \<and> round_over fetcher (Suc (length rs)) None rs' out \<and>
    ops = map (page_op i) rs @ map NodeRemove (dedupe (child_ids rs)) @ map (page_op i) rs' \<and>
    (\<forall>m m'. tm_wf m \<and> applyOps m ops = Some m' \<longrightarrow> (\<forall>k \<in> set (child_ids rs) - set (child_ids rs'). js_get m' k = None))"
proof -
  obtain rs' where rs': "serves fetcher (Suc (length rs)) None rs'" "round_over fetcher (Suc (length rs)) None rs' out"
    and ops: "ops = map (page_op i) rs @ map NodeRemove (dedupe (child_ids rs)) @ map (page_op i) rs'"
    using fetch_restart [OF assms] by blast
  have "js_get m' k = None" if "tm_wf m" "applyOps m ops = Some m'" "k \<in> set (child_ids rs) - set (child_ids rs')" for m m' k
    using restart_leaves_nothing [of m i "map (page_op i) rs" "map (page_op i) rs'" m' k] that by (simp add: ops)
  then show ?thesis by (intro exI [of _ rs'] conjI rs' ops) blast
qed

text \<open>A page with \<^verbatim>\<open>x\<close>, a stale cursor, the terminal page with \<^verbatim>\<open>y\<close>: afterwards \<^verbatim>\<open>x\<close> is gone.\<close>

theorem restart_is_clean_witness:
  "\<exists>ops m'. fetchChildren demo_fetcher ''a'' = Some (ops, Done) \<and> NodeRemove ''x'' \<in> set ops \<and>
    applyOps (seedTree [demo_node ''a'' None ActIdle 0]) ops = Some m' \<and> js_get m' ''x'' = None"
proof -
  let ?ops = "[NodeChildren ''a'' [demo_node ''x'' (Some ''a'') ActIdle 1] True (Some ''x''),
     NodeRemove ''x'', NodeChildren ''a'' [demo_node ''y'' (Some ''a'') ActIdle 1] False None]"
  let ?rs = "[demo_page ''x'' (Some ''x'') False]"
  obtain m' where m': "applyOps (seedTree [demo_node ''a'' None ActIdle 0]) ?ops = Some m'"
    by (simp add: applyOps_def seedTree_def demo_node_def loadedDescendants_def bfs.simps children_of_def
        bucket_push_def js_set_def js_values_def Let_def js_delete_all_def js_delete_def)
  have "serves demo_fetcher 0 None ?rs" "\<forall>r \<in> set ?rs. \<not> r_stale r" "?rs = [] \<or> cursor_after None ?rs \<noteq> None"
    "demo_fetcher (length ?rs) (cursor_after None ?rs) = Some (demo_page ''z'' (Some ''z'') True)"
    "r_stale (demo_page ''z'' (Some ''z'') True)"
    by (simp_all add: demo_fetcher_def cursor_after_def next_cursor_def demo_page_def)
  from restart_is_clean [OF demo_fetch this] obtain rs' where
    "?ops = map (page_op ''a'') ?rs @ map NodeRemove (dedupe (child_ids ?rs)) @ map (page_op ''a'') rs'"
    and gone: "\<forall>m m'. tm_wf m \<and> applyOps m ?ops = Some m' \<longrightarrow> (\<forall>k \<in> set (child_ids ?rs) - set (child_ids rs'). js_get m' k = None)"
    by (elim exE conjE) (rule that)
  then have "map (page_op ''a'') rs' = [NodeChildren ''a'' [demo_node ''y'' (Some ''a'') ActIdle 1] False None]"
    by (simp add: dedupe_def demo_page_def page_op_def demo_node_def)
  then have "set (child_ids rs') = {''y''}"
    by (auto simp: map_eq_Cons_conv page_op_def demo_node_def)
  moreover have "set (child_ids ?rs) = {''x''}" by (simp add: demo_page_def demo_node_def)
  ultimately have "js_get m' ''x'' = None" using gone [rule_format, OF conjI, OF tm_wf_seedTree m', of "''x''"] by simp
  then show ?thesis using demo_fetch m' by auto
qed

section \<open>The pinned group\<close>

text \<open>C24: On a map with every node under its own id (as C3 gives) and at most 10000 nodes (the cap of the
  upward walk) the pinned group consists of exactly the resident pins that have no pinned id strictly
  above them, in the order of the pins, so no selected node lies below another; it repeats none when the
  pin list has no duplicates. When moreover there are no parent cycles and every parent named is
  resident, each resident pin is either selected itself or lies below a selected node.\<close>

theorem pins_shown_once:
  assumes "tm_wf m" and "length m \<le> depth_cap"
  shows "map nid (selectPinnedNodes m pins) =
      filter (\<lambda>i. js_get m i \<noteq> None \<and> \<not> (\<exists>a \<in> set pins. (i, a) \<in> (parent_rel m)\<^sup>+)) pins \<and>
    (\<forall>a \<in> set (selectPinnedNodes m pins). \<forall>b \<in> set (selectPinnedNodes m pins). (nid a, nid b) \<notin> (parent_rel m)\<^sup>+) \<and>
    (distinct pins \<longrightarrow> distinct (map nid (selectPinnedNodes m pins))) \<and>
    (acyclic (parent_rel m) \<and> parents_resident m \<longrightarrow> (\<forall>i \<in> set pins. js_get m i \<noteq> None \<longrightarrow>
       (\<exists>n \<in> set (selectPinnedNodes m pins). i = nid n \<or> (i, nid n) \<in> (parent_rel m)\<^sup>+)))"
proof (intro conjI ballI impI)
  show "map nid (selectPinnedNodes m pins) =
      filter (\<lambda>i. js_get m i \<noteq> None \<and> \<not> (\<exists>a \<in> set pins. (i, a) \<in> (parent_rel m)\<^sup>+)) pins"
    by (simp only: selectPinnedNodes_ids [OF assms(1)] hasPinnedAncestor_iff [OF assms(2)])
  show "distinct (map nid (selectPinnedNodes m pins))" if "distinct pins"
    by (rule distinct_selectPinnedNodes [OF assms(1) that])
  show "(nid a, nid b) \<notin> (parent_rel m)\<^sup>+"
    if "a \<in> set (selectPinnedNodes m pins)" "b \<in> set (selectPinnedNodes m pins)" for a b
    using selected_pins_unnested [OF assms] that .
  show "\<exists>n \<in> set (selectPinnedNodes m pins). i = nid n \<or> (i, nid n) \<in> (parent_rel m)\<^sup>+"
    if "acyclic (parent_rel m) \<and> parents_resident m" "i \<in> set pins" "js_get m i \<noteq> None" for i
    using pin_covered [OF assms] that by blast
qed

definition demo_tree :: tree_flat_map where
  "demo_tree = seedTree [demo_node ''a'' None ActIdle 1, demo_node ''b'' (Some ''a'') ActIdle 2]"

lemma demo_tree_get: "js_get demo_tree k = (if k = ''b'' then Some (demo_node ''b'' (Some ''a'') ActIdle 2)
    else if k = ''a'' then Some (demo_node ''a'' None ActIdle 1) else None)"
  by (simp add: demo_tree_def seedTree_def demo_node_def)

lemma demo_tree_rel: "parent_rel demo_tree = {(''b'', ''a'')}"
  by (auto simp: parent_rel_def demo_tree_get demo_node_def split: if_splits)

theorem pins_shown_once_witness:
  "map nid (selectPinnedNodes demo_tree [''b'', ''a'']) = [''a''] \<and> distinct (map nid (selectPinnedNodes demo_tree [''b'', ''a''])) \<and>
    (\<exists>n \<in> set (selectPinnedNodes demo_tree [''b'', ''a'']). ''b'' = nid n \<or> (''b'', nid n) \<in> (parent_rel demo_tree)\<^sup>+)"
proof -
  have small: "length demo_tree \<le> depth_cap" by (simp add: demo_tree_def seedTree_def demo_node_def js_set_def depth_cap_def)
  have wf: "tm_wf demo_tree" unfolding demo_tree_def by (rule tm_wf_seedTree)
  have "acyclic (parent_rel demo_tree)" by (simp add: demo_tree_rel acyclic_insert) (simp add: acyclic_def)
  moreover have "parents_resident demo_tree" by (simp add: parents_resident_def demo_tree_rel demo_tree_get)
  moreover have "(parent_rel demo_tree)\<^sup>+ = {(''b'', ''a'')}" by (simp add: demo_tree_rel trancl_insert)
  ultimately show ?thesis
    using pins_shown_once [OF wf small, of "[''b'', ''a'']"] by (simp add: demo_tree_get)
qed

text \<open>The residency of the parents is needed: a resident pin below a pinned id that is not in the
  map is shown nowhere.\<close>

lemma pin_below_absent_pin_lost:
  "selectPinnedNodes (seedTree [demo_node ''b'' (Some ''a'') ActIdle 2]) [''a'', ''b''] = []"
proof -
  let ?m = "seedTree [demo_node ''b'' (Some ''a'') ActIdle 2]"
  have get: "js_get ?m k = (if k = ''b'' then Some (demo_node ''b'' (Some ''a'') ActIdle 2) else None)" for k
    by (simp add: seedTree_def demo_node_def)
  have "length ?m \<le> depth_cap" by (simp add: seedTree_def depth_cap_def js_set_def)
  moreover have "(''b'', ''a'') \<in> parent_rel ?m" by (simp add: parent_rel_def get) (simp add: demo_node_def)
  ultimately have "hasPinnedAncestor ?m ''b'' [''a'', ''b'']" using hasPinnedAncestor_iff by fastforce
  then show ?thesis by (simp add: selectPinnedNodes_def get List.map_filter_simps)
qed

text \<open>C25: Collapsing a node off the parent cycles drops exactly its loaded descendants that are not
  protected, marks the node unloaded and leaves every other node as it was.\<close>

theorem collapse_drops_unprotected:
  "map_option (\<lambda>m'. js_get m' k) (collapseNode (seedTree nodes) i prot) =
     (if on_cycle (seedTree nodes) i then None
      else Some (if js_get (seedTree nodes) i = None then js_get (seedTree nodes) k
        else if k = i then map_option (\<lambda>n. n\<lparr>loaded := False\<rparr>) (js_get (seedTree nodes) i)
        else if k \<in> subtree (seedTree nodes) i \<and> \<not> is_protected prot k then None
        else js_get (seedTree nodes) k))"
proof (cases "collapseNode (seedTree nodes) i prot")
  case None
  then show ?thesis using collapseNode_returns [OF tm_wf_seedTree, of nodes i prot] by simp
next
  case (Some m')
  have "\<not> on_cycle (seedTree nodes) i"
    using Some collapseNode_returns [OF tm_wf_seedTree, of nodes i prot] by simp
  then show ?thesis
    using Some collapseNode_get [OF tm_wf_seedTree _ Some, of _ k]
    by (cases "js_get (seedTree nodes) i") (auto simp: collapseNode_def)
qed

end
