(* ===== verification/DragReorder.thy ===== *)
theory DragReorder
  imports Prelude "HOL-Library.Multiset"
begin

text \<open>
  \<^verbatim>\<open>web/src/lib/dragReorder.ts\<close>: the two pure list reorderings. Both only permute their
  list; \<^verbatim>\<open>reorderRelative\<close> puts the dragged item next to its target and leaves the rest in
  order.
\<close>

text \<open>\<^verbatim>\<open>next.splice(to, 0, item)\<close> after \<^verbatim>\<open>next.splice(from, 1)\<close>.\<close>

definition moveItem :: "'a list \<Rightarrow> int \<Rightarrow> int \<Rightarrow> 'a list" where
  "moveItem arr i j =
     (if i < 0 \<or> i \<ge> int (length arr) \<or> j < 0 \<or> j \<ge> int (length arr) \<or> i = j then arr
      else let item = arr ! nat i;
               nxt = take (nat i) arr @ drop (nat i + 1) arr
           in take (nat j) nxt @ item # drop (nat j) nxt)"

datatype drop_pos = Before | After

definition reorderRelative :: "'a list \<Rightarrow> 'a \<Rightarrow> 'a \<Rightarrow> drop_pos \<Rightarrow> 'a list" where
  "reorderRelative arr dragged target pos =
     (if dragged = target \<or> dragged \<notin> set arr \<or> target \<notin> set arr then arr
      else let without = filter (\<lambda>x. x \<noteq> dragged) arr;
               toIdx = nat (index_of without target) + (if pos = After then 1 else 0)
           in take toIdx without @ dragged # drop toIdx without)"

lemma mset_insert_at: "mset (take n xs @ x # drop n xs) = add_mset x (mset xs)"
proof -
  have "mset (take n xs @ x # drop n xs) = add_mset x (mset (take n xs @ drop n xs))"
    by (simp del: append_take_drop_id)
  then show ?thesis by simp
qed

lemma moveItem_mset: "mset (moveItem arr i j) = mset arr"
proof (cases "i < 0 \<or> i \<ge> int (length arr) \<or> j < 0 \<or> j \<ge> int (length arr) \<or> i = j")
  case False
  then have i: "nat i < length arr" by auto
  let ?nxt = "take (nat i) arr @ drop (nat i + 1) arr"
  have "moveItem arr i j = take (nat j) ?nxt @ arr ! nat i # drop (nat j) ?nxt"
    using False by (simp only: moveItem_def Let_def if_False)
  then have "mset (moveItem arr i j) = add_mset (arr ! nat i) (mset ?nxt)"
    by (simp only: mset_insert_at)
  also have "\<dots> = mset (take (nat i) arr @ arr ! nat i # drop (Suc (nat i)) arr)" by simp
  also have "\<dots> = mset arr" by (simp only: id_take_nth_drop [OF i, symmetric])
  finally show ?thesis .
qed (auto simp: moveItem_def)

text \<open>The moved item lands on the requested index.\<close>

lemma moveItem_nth:
  assumes "0 \<le> i" "i < int (length arr)" "0 \<le> j" "j < int (length arr)"
  shows "moveItem arr i j ! nat j = arr ! nat i"
proof (cases "i = j")
  case False
  let ?nxt = "take (nat i) arr @ drop (nat i + 1) arr"
  have "moveItem arr i j = take (nat j) ?nxt @ arr ! nat i # drop (nat j) ?nxt"
  proof -
    have "\<not> (i < 0 \<or> i \<ge> int (length arr) \<or> j < 0 \<or> j \<ge> int (length arr) \<or> i = j)"
      using False assms by linarith
    then show ?thesis by (simp only: moveItem_def Let_def if_False)
  qed
  moreover have "length (take (nat j) ?nxt) = nat j" using assms by simp
  ultimately show ?thesis by (metis nth_append_length)
qed (use assms in \<open>simp add: moveItem_def\<close>)

lemma moveItem_length [simp]: "length (moveItem arr i j) = length arr"
  using moveItem_mset [of arr i j] by (metis size_mset)

lemma filter_other_insert:
  "filter (\<lambda>x. x \<noteq> d) (take n (filter (\<lambda>x. x \<noteq> d) arr) @ d # drop n (filter (\<lambda>x. x \<noteq> d) arr))
    = filter (\<lambda>x. x \<noteq> d) arr"
proof -
  have "filter (\<lambda>x. x \<noteq> d) (take n ys @ d # drop n ys) = filter (\<lambda>x. x \<noteq> d) (take n ys @ drop n ys)" for ys
    by (simp del: append_take_drop_id)
  then show ?thesis by simp
qed

lemma reorderRelative_cases:
  obtains "reorderRelative arr d t pos = arr"
  | n where "d \<noteq> t" "d \<in> set arr" "t \<in> set arr"
      "reorderRelative arr d t pos = take n (filter (\<lambda>x. x \<noteq> d) arr) @ d # drop n (filter (\<lambda>x. x \<noteq> d) arr)"
  by (cases "d = t \<or> d \<notin> set arr \<or> t \<notin> set arr") (auto simp: reorderRelative_def Let_def)

lemma reorderRelative_others:
  "filter (\<lambda>x. x \<noteq> d) (reorderRelative arr d t pos) = filter (\<lambda>x. x \<noteq> d) arr"
  by (rule reorderRelative_cases [of arr d t pos]) (simp_all only: filter_other_insert)

lemma reorderRelative_set [simp]: "set (reorderRelative arr d t pos) = set arr"
proof (rule reorderRelative_cases [of arr d t pos])
  fix n
  assume d: "d \<in> set arr"
    and eq: "reorderRelative arr d t pos = take n (filter (\<lambda>x. x \<noteq> d) arr) @ d # drop n (filter (\<lambda>x. x \<noteq> d) arr)"
  have "set_mset (mset (reorderRelative arr d t pos)) = insert d (set (filter (\<lambda>x. x \<noteq> d) arr))"
    unfolding eq mset_insert_at by simp
  then show ?thesis using d by auto
qed simp

lemma reorderRelative_mset: "distinct arr \<Longrightarrow> mset (reorderRelative arr d t pos) = mset arr"
proof (rule reorderRelative_cases [of arr d t pos])
  fix n
  assume dist: "distinct arr" and d: "d \<in> set arr"
    and eq: "reorderRelative arr d t pos = take n (filter (\<lambda>x. x \<noteq> d) arr) @ d # drop n (filter (\<lambda>x. x \<noteq> d) arr)"
  have "filter (\<lambda>x. x \<noteq> d) arr = remove1 d arr"
    using dist by (induction arr) auto
  then show ?thesis unfolding eq mset_insert_at using d by simp
qed simp

lemma reorderRelative_distinct [simp]: "distinct arr \<Longrightarrow> distinct (reorderRelative arr dragged target pos)"
  using reorderRelative_mset mset_eq_imp_distinct_iff by metis

text \<open>The dragged item ends up right before or right after its target.\<close>

lemma reorderRelative_adjacent:
  assumes "dragged \<noteq> target" "dragged \<in> set arr" "target \<in> set arr"
  shows "\<exists>xs ys. reorderRelative arr dragged target pos
    = xs @ (if pos = Before then [dragged, target] else [target, dragged]) @ ys"
proof -
  let ?w = "filter (\<lambda>x. x \<noteq> dragged) arr"
  define n where "n = nat (index_of ?w target)"
  have t: "target \<in> set ?w" using assms by simp
  then have n: "n < length ?w" "?w ! n = target"
    using index_of_present [OF t] nth_index_of [OF t] by (auto simp: n_def)
  then have drop: "drop n ?w = target # drop (Suc n) ?w" and take: "take (Suc n) ?w = take n ?w @ [target]"
    by (metis Cons_nth_drop_Suc) (metis n take_Suc_conv_app_nth)
  show ?thesis
  proof (cases pos)
    case Before
    then have "reorderRelative arr dragged target pos = take n ?w @ [dragged, target] @ drop (Suc n) ?w"
      using assms drop by (simp add: reorderRelative_def Let_def n_def)
    then show ?thesis using Before by auto
  next
    case After
    then have "reorderRelative arr dragged target pos = take (Suc n) ?w @ dragged # drop (Suc n) ?w"
      using assms by (simp add: reorderRelative_def Let_def n_def)
    then show ?thesis using After take by auto
  qed
qed

end
