(* ===== verification/Authority.thy ===== *)
theory Authority
  imports Main
begin

text \<open>
  The interface \<^verbatim>\<open>pins.ts\<close> and \<^verbatim>\<open>labels.ts\<close> share: a client copy of a server document that
  carries a revision, adopted under a monotonicity guard. The laws are the guard's two
  branches; the lemmas are what they give for documents that arrive out of order.
\<close>

locale cas_authority =
  fixes adopt :: "'d \<Rightarrow> 's \<Rightarrow> 's"
    and rev_of :: "'d \<Rightarrow> int"
    and current :: "'s \<Rightarrow> int"
    and shows_doc :: "'s \<Rightarrow> 'd \<Rightarrow> bool"
  assumes adopt_current: "current s \<le> rev_of d \<Longrightarrow> current (adopt d s) = rev_of d \<and> shows_doc (adopt d s) d"
    and adopt_stale: "rev_of d < current s \<Longrightarrow> adopt d s = s"
begin

lemma adopt_monotone: "current s \<le> current (adopt d s)"
  using adopt_current [of s d] adopt_stale [of d s] by (cases "current s \<le> rev_of d") auto

lemma adopt_max: "current (adopt d s) = max (current s) (rev_of d)"
  using adopt_current [of s d] adopt_stale [of d s] by (cases "current s \<le> rev_of d") auto

lemma adopts_monotone: "current s \<le> current (fold adopt ds s)"
proof (induction ds arbitrary: s)
  case (Cons d ds)
  then show ?case using adopt_monotone [of s d] order_trans by fastforce
qed simp

lemma adopt_bound: "current s \<le> b \<Longrightarrow> rev_of d \<le> b \<Longrightarrow> current (adopt d s) \<le> b"
  using adopt_current [of s d] adopt_stale [of d s] by (cases "current s \<le> rev_of d") auto

lemma adopts_stale: "(\<And>d. d \<in> set ds \<Longrightarrow> rev_of d < current s) \<Longrightarrow> fold adopt ds s = s"
  by (induction ds) (auto simp: adopt_stale)

lemma adopts_bound:
  "current s \<le> b \<Longrightarrow> (\<And>d. d \<in> set ds \<Longrightarrow> rev_of d \<le> b) \<Longrightarrow> current (fold adopt ds s) \<le> b"
  by (induction ds arbitrary: s) (auto intro: adopt_bound)

text \<open>Among documents that all pass through the guard the newest wins, in whatever order they arrive.\<close>

lemma newest_wins:
  assumes d: "d \<in> set ds" and fresh: "current s \<le> rev_of d"
    and newest: "\<And>e. e \<in> set ds \<Longrightarrow> e \<noteq> d \<Longrightarrow> rev_of e < rev_of d"
  shows "current (fold adopt ds s) = rev_of d" and "shows_doc (fold adopt ds s) d"
proof -
  obtain xs ys where ds: "ds = xs @ d # ys" and last: "d \<notin> set ys"
    using d by (meson split_list_last)
  have "current (fold adopt xs s) \<le> rev_of d"
    using newest ds by (intro adopts_bound [OF fresh]) force
  from adopt_current [OF this]
  have cur: "current (adopt d (fold adopt xs s)) = rev_of d" and sh: "shows_doc (adopt d (fold adopt xs s)) d"
    by simp_all
  have "fold adopt ys (adopt d (fold adopt xs s)) = adopt d (fold adopt xs s)"
    using newest ds last cur by (intro adopts_stale) auto
  then show "current (fold adopt ds s) = rev_of d" and "shows_doc (fold adopt ds s) d"
    using cur sh by (simp_all add: ds)
qed

end

end
