(* ===== verification/Pins.thy ===== *)
theory Pins
  imports DragReorder VersionedStore Authority
begin

text \<open>
  \<^verbatim>\<open>web/src/pins.ts\<close>: the client facade over the worker-wide pin authority. Its signals are
  the fields of \<open>pins_state\<close>. An async action runs to its \<^verbatim>\<open>await putPins(...)\<close> and leaves a
  continuation: the local variables the rest of the function still uses. A response
  resumes one continuation, which may issue one more PUT. Between the two any other event
  may run, so every interleaving of frames, clicks and responses is a list of events.
\<close>

section \<open>Documents and responses\<close>

record pin_doc =
  pd_revision :: int
  pd_initialized :: bool
  pd_order :: "string list"

definition coercePinDoc :: "json \<Rightarrow> pin_doc option" where
  "coercePinDoc j =
     (if \<not> is_object j then None
      else Some \<lparr>pd_revision = (case as_number (json_field j ''revision'') of Some r \<Rightarrow> r | None \<Rightarrow> 0),
                 pd_initialized = (case as_bool (json_field j ''initialized'') of Some b \<Rightarrow> b | None \<Rightarrow> False),
                 pd_order = string_array (json_field j ''orderedSessionIds'')\<rparr>)"

definition parseUnknownIds :: "json \<Rightarrow> string list" where
  "parseUnknownIds j =
     (if \<not> is_object j then []
      else if json_field j ''error'' \<noteq> Some (JStr ''unknown_session'') then []
      else string_array (json_field j ''unknownIds''))"

text \<open>
  What \<^verbatim>\<open>fetch\<close> settles to: a thrown error, or a status and a body (\<open>JNull\<close> when the body is not
  JSON, which is what the \<^verbatim>\<open>catch\<close> of \<^verbatim>\<open>res.json()\<close> yields).
\<close>

datatype http_response = NetworkError | Http int json

record put_result =
  pr_status :: int
  pr_doc :: "pin_doc option"
  pr_unknownIds :: "string list"

definition putPins_result :: "http_response \<Rightarrow> put_result" where
  "putPins_result resp =
     (case resp of
        NetworkError \<Rightarrow> \<lparr>pr_status = 0, pr_doc = None, pr_unknownIds = []\<rparr>
      | Http st body \<Rightarrow>
          if st = 200 \<or> st = 409 then \<lparr>pr_status = st, pr_doc = coercePinDoc body, pr_unknownIds = []\<rparr>
          else if st = 400 then \<lparr>pr_status = 400, pr_doc = None, pr_unknownIds = parseUnknownIds body\<rparr>
          else \<lparr>pr_status = st, pr_doc = None, pr_unknownIds = []\<rparr>)"

datatype pin_error = PinConflict | PinNetwork | PinError

definition failure_kind :: "put_result \<Rightarrow> pin_error" where
  "failure_kind r = (if pr_status r = 0 then PinNetwork else PinError)"

section \<open>State\<close>

datatype pins_mode = Legacy | Server

record pins_state =
  pinsMode :: pins_mode
  legacyPinnedSet :: "string list"
  legacyOrderArr :: "string list"
  serverOrder :: "string list"
  serverRevision :: int
  serverInitialized :: bool
  pendingCount :: nat
  pinsPendingSig :: bool
  pinsErrorSig :: "pin_error option"
  migrationAttempted :: bool
  p_storage :: local_storage

definition LS_PINNED :: string where "LS_PINNED = ''vh.pinned.v1''"
definition LS_ORDER :: string where "LS_ORDER = ''vh.pinned-order.v1''"

definition strings_json :: "string list \<Rightarrow> json" where
  "strings_json xs = JArr (map JStr xs)"

definition coerceStringArray :: "json \<Rightarrow> json" where
  "coerceStringArray o' = strings_json (string_array (Some o'))"

definition load_strings :: "local_storage \<Rightarrow> string \<Rightarrow> string list" where
  "load_strings ls key = string_array (Some (loadVersioned ls key 1 (JArr []) (Some (\<lambda>o' _. coerceStringArray o'))))"

definition init_pins :: "local_storage \<Rightarrow> pins_state" where
  "init_pins ls = \<lparr>pinsMode = Legacy, legacyPinnedSet = dedupe (load_strings ls LS_PINNED),
     legacyOrderArr = load_strings ls LS_ORDER, serverOrder = [], serverRevision = 0, serverInitialized = False,
     pendingCount = 0, pinsPendingSig = False, pinsErrorSig = None, migrationAttempted = False, p_storage = ls\<rparr>"

definition incPending :: "pins_state \<Rightarrow> pins_state" where
  "incPending s = s\<lparr>pendingCount := pendingCount s + 1, pinsPendingSig := True\<rparr>"

text \<open>\<^verbatim>\<open>Math.max(0, pendingCount - 1)\<close> is the subtraction of \<open>nat\<close>.\<close>

definition decPending :: "pins_state \<Rightarrow> pins_state" where
  "decPending s = s\<lparr>pendingCount := pendingCount s - 1,
     pinsPendingSig := (if pendingCount s - 1 = 0 then False else pinsPendingSig s)\<rparr>"

definition reconcileLegacyOrder :: "string list \<Rightarrow> string list \<Rightarrow> string list" where
  "reconcileLegacyOrder st order =
     (let kept = fold (\<lambda>i acc. if i \<in> set st \<and> i \<notin> set acc then acc @ [i] else acc) order []
      in fold (\<lambda>i acc. if i \<notin> set acc then acc @ [i] else acc) st kept)"

definition pinned :: "pins_state \<Rightarrow> string list" where
  "pinned s = (if pinsMode s = Server then dedupe (serverOrder s) else legacyPinnedSet s)"

definition isPinned :: "pins_state \<Rightarrow> string \<Rightarrow> bool" where
  "isPinned s i = (if pinsMode s = Server then i \<in> set (serverOrder s) else i \<in> set (legacyPinnedSet s))"

definition reconciledPinnedOrder :: "pins_state \<Rightarrow> string list" where
  "reconciledPinnedOrder s =
     (if pinsMode s = Server then serverOrder s else reconcileLegacyOrder (legacyPinnedSet s) (legacyOrderArr s))"

section \<open>Persistence\<close>

definition save_strings :: "string \<Rightarrow> string list \<Rightarrow> pins_state \<Rightarrow> pins_state" where
  "save_strings key xs s = s\<lparr>p_storage := saveVersioned (p_storage s) key 1 (strings_json xs)\<rparr>"

definition legacyPersistPinned :: "string list \<Rightarrow> pins_state \<Rightarrow> pins_state" where
  "legacyPersistPinned nxt s = save_strings LS_PINNED nxt (s\<lparr>legacyPinnedSet := nxt\<rparr>)"

definition legacyPersistOrder :: "string list \<Rightarrow> pins_state \<Rightarrow> pins_state" where
  "legacyPersistOrder nxt s = save_strings LS_ORDER nxt (s\<lparr>legacyOrderArr := nxt\<rparr>)"

definition writeLegacyShadow :: "string list \<Rightarrow> pins_state \<Rightarrow> pins_state" where
  "writeLegacyShadow order s = save_strings LS_ORDER order (save_strings LS_PINNED order s)"

definition readLegacyReconciledSeed :: "pins_state \<Rightarrow> string list" where
  "readLegacyReconciledSeed s =
     reconcileLegacyOrder (dedupe (load_strings (p_storage s) LS_PINNED)) (load_strings (p_storage s) LS_ORDER)"

section \<open>Adoption and rollback\<close>

definition adoptServerDoc :: "pin_doc \<Rightarrow> pins_state \<Rightarrow> pins_state" where
  "adoptServerDoc doc s = writeLegacyShadow (pd_order doc)
     (s\<lparr>serverOrder := pd_order doc, serverRevision := pd_revision doc,
        serverInitialized := pd_initialized doc, pinsErrorSig := None\<rparr>)"

definition applyServerOrder :: "string list \<Rightarrow> pins_state \<Rightarrow> pins_state" where
  "applyServerOrder order s = s\<lparr>serverOrder := order\<rparr>"

definition adoptPutResponse :: "pin_doc \<Rightarrow> pins_state \<Rightarrow> pins_state" where
  "adoptPutResponse doc s = (if pd_revision doc < serverRevision s then s else adoptServerDoc doc s)"

definition rollbackOrderIfUnchanged :: "string list \<Rightarrow> int \<Rightarrow> pins_state \<Rightarrow> pins_state" where
  "rollbackOrderIfUnchanged baseline issueRevision s =
     (if serverRevision s \<noteq> issueRevision then s else applyServerOrder baseline s)"

definition setError :: "pin_error \<Rightarrow> pins_state \<Rightarrow> pins_state" where
  "setError e s = s\<lparr>pinsErrorSig := Some e\<rparr>"

definition clearPinsError :: "pins_state \<Rightarrow> pins_state" where
  "clearPinsError s = s\<lparr>pinsErrorSig := None\<rparr>"

section \<open>Requests and continuations\<close>

record put_request =
  rq_baseRevision :: int
  rq_order :: "string list"
  rq_initializeOnly :: bool

datatype intent = Pin string | Unpin string

fun applyMembershipIntent :: "intent \<Rightarrow> string list \<Rightarrow> string list" where
  "applyMembershipIntent (Pin i) order = (if i \<in> set order then order else order @ [i])"
| "applyMembershipIntent (Unpin i) order = filter (\<lambda>x. x \<noteq> i) order"

datatype put_cont =
    AwaitMigration
  | AwaitMember intent "string list" int
  | AwaitMemberRetry "string list" int
  | AwaitReorder string string drop_pos "string list" int
  | AwaitHeal "string list" int

text \<open>An action's result: the state at its first await or return, and the PUT it waits for.\<close>

type_synonym started = "pins_state \<times> (put_request \<times> put_cont) option"

definition put :: "int \<Rightarrow> string list \<Rightarrow> put_cont \<Rightarrow> pins_state \<Rightarrow> started" where
  "put base order k s = (s, Some (\<lparr>rq_baseRevision = base, rq_order = order, rq_initializeOnly = False\<rparr>, k))"

text \<open>Leaving the \<^verbatim>\<open>try\<close> block: its \<^verbatim>\<open>finally\<close> runs.\<close>

definition finish :: "pins_state \<Rightarrow> started" where
  "finish s = (decPending s, None)"

definition performMembershipMutation :: "intent \<Rightarrow> pins_state \<Rightarrow> started" where
  "performMembershipMutation intent s0 =
     (let s = incPending s0;
          baseOrder = serverOrder s;
          baseRev = serverRevision s;
          target = applyMembershipIntent intent baseOrder
      in if target = baseOrder then finish s
         else put baseRev target (AwaitMember intent baseOrder baseRev)
                (applyServerOrder target (clearPinsError s)))"

text \<open>
  The 400 self-heal both mutations share up to the recomputation of the intent, which
  \<open>recompute\<close> yields for the cleaned base (\<open>None\<close> when it is moot).
\<close>

definition self_heal :: "string list \<Rightarrow> int \<Rightarrow> string list \<Rightarrow> (string list \<Rightarrow> string list option) \<Rightarrow> pins_state \<Rightarrow> started" where
  "self_heal baseOrder baseRev unknown recompute s =
     (let cleanedBase = filter (\<lambda>i. i \<notin> set unknown) baseOrder;
          s1 = (if cleanedBase \<noteq> baseOrder then writeLegacyShadow cleanedBase s else s)
      in case recompute cleanedBase of
           None \<Rightarrow> finish (applyServerOrder cleanedBase s1)
         | Some retryTarget \<Rightarrow>
             if retryTarget = cleanedBase then finish (applyServerOrder cleanedBase s1)
             else put baseRev retryTarget (AwaitHeal cleanedBase baseRev) (applyServerOrder retryTarget s1))"

text \<open>\<^verbatim>\<open>res.status === st && res.doc\<close>\<close>

definition doc_at :: "int \<Rightarrow> put_result \<Rightarrow> pin_doc option" where
  "doc_at st res = (if pr_status res = st then pr_doc res else None)"

definition resume_member :: "intent \<Rightarrow> string list \<Rightarrow> int \<Rightarrow> put_result \<Rightarrow> pins_state \<Rightarrow> started" where
  "resume_member intent baseOrder baseRev res s =
     (case doc_at 200 res of
        Some doc \<Rightarrow> finish (adoptPutResponse doc s)
      | None \<Rightarrow>
     (case doc_at 409 res of
        Some doc \<Rightarrow>
          (let s1 = adoptPutResponse doc s;
               adoptedOrder = serverOrder s1;
               retryTarget = applyMembershipIntent intent adoptedOrder
           in if retryTarget = adoptedOrder then finish s1
              else put (serverRevision s1) retryTarget (AwaitMemberRetry adoptedOrder (serverRevision s1))
                     (applyServerOrder retryTarget s1))
      | None \<Rightarrow>
          if pr_status res = 400 \<and> pr_unknownIds res \<noteq> []
          then self_heal baseOrder baseRev (pr_unknownIds res) (\<lambda>base. Some (applyMembershipIntent intent base)) s
          else finish (setError (failure_kind res) (rollbackOrderIfUnchanged baseOrder baseRev s))))"

text \<open>A retry: adopt on 200, adopt and surface on 409, else roll back to its baseline.\<close>

definition resume_retry :: "string list \<Rightarrow> int \<Rightarrow> put_result \<Rightarrow> pins_state \<Rightarrow> started" where
  "resume_retry baseline rv res s =
     (case doc_at 200 res of
        Some doc \<Rightarrow> finish (adoptPutResponse doc s)
      | None \<Rightarrow>
     (case doc_at 409 res of
        Some doc \<Rightarrow> finish (setError PinConflict (adoptPutResponse doc s))
      | None \<Rightarrow> finish (setError (failure_kind res) (rollbackOrderIfUnchanged baseline rv s))))"

definition performReorder :: "string \<Rightarrow> string \<Rightarrow> drop_pos \<Rightarrow> pins_state \<Rightarrow> started" where
  "performReorder draggedId targetId pos s0 =
     (let s = incPending s0;
          baseOrder = serverOrder s;
          baseRev = serverRevision s;
          target = reorderRelative baseOrder draggedId targetId pos
      in if target = baseOrder then finish s
         else put baseRev target (AwaitReorder draggedId targetId pos baseOrder baseRev)
                (applyServerOrder target (clearPinsError s)))"

definition resume_reorder ::
  "string \<Rightarrow> string \<Rightarrow> drop_pos \<Rightarrow> string list \<Rightarrow> int \<Rightarrow> put_result \<Rightarrow> pins_state \<Rightarrow> started" where
  "resume_reorder draggedId targetId pos baseOrder baseRev res s =
     (case doc_at 200 res of
        Some doc \<Rightarrow> finish (adoptPutResponse doc s)
      | None \<Rightarrow>
     (case doc_at 409 res of
        Some doc \<Rightarrow> finish (setError PinConflict (adoptPutResponse doc s))
      | None \<Rightarrow>
          if pr_status res = 400 \<and> pr_unknownIds res \<noteq> []
          then self_heal baseOrder baseRev (pr_unknownIds res)
                 (\<lambda>base. if draggedId \<in> set (pr_unknownIds res) then None
                         else Some (reorderRelative base draggedId targetId pos)) s
          else finish (setError (failure_kind res) (rollbackOrderIfUnchanged baseOrder baseRev s))))"

definition runMigration :: "string list \<Rightarrow> pins_state \<Rightarrow> started" where
  "runMigration seed s =
     (incPending s, Some (\<lparr>rq_baseRevision = 0, rq_order = seed, rq_initializeOnly = True\<rparr>, AwaitMigration))"

definition resume_migration :: "put_result \<Rightarrow> pins_state \<Rightarrow> started" where
  "resume_migration res s =
     (case pr_doc res of
        Some doc \<Rightarrow>
          if pr_status res = 200 \<or> pr_status res = 409 then finish (adoptPutResponse doc s)
          else finish (setError (failure_kind res) s)
      | None \<Rightarrow> finish (setError (failure_kind res) s))"

fun resume :: "put_cont \<Rightarrow> put_result \<Rightarrow> pins_state \<Rightarrow> started" where
  "resume AwaitMigration res s = resume_migration res s"
| "resume (AwaitMember intent base rv) res s = resume_member intent base rv res s"
| "resume (AwaitMemberRetry base rv) res s = resume_retry base rv res s"
| "resume (AwaitReorder d t pos base rv) res s = resume_reorder d t pos base rv res s"
| "resume (AwaitHeal base rv) res s = resume_retry base rv res s"

section \<open>Frames and actions\<close>

definition applyPinsSnapshot :: "json \<Rightarrow> pins_state \<Rightarrow> started" where
  "applyPinsSnapshot raw s =
     (case coercePinDoc raw of
        None \<Rightarrow> (s, None)
      | Some doc \<Rightarrow>
          (let seed = (if pd_initialized doc then [] else readLegacyReconciledSeed s);
               s1 = s\<lparr>pinsMode := Server, serverRevision := pd_revision doc, serverInitialized := pd_initialized doc,
                      serverOrder := (if pd_initialized doc then pd_order doc else seed), pinsErrorSig := None\<rparr>
           in if pd_initialized doc then (writeLegacyShadow (pd_order doc) s1, None)
              else (let s2 = writeLegacyShadow seed s1
                    in if \<not> migrationAttempted s2 \<and> length seed > 0
                       then runMigration seed (s2\<lparr>migrationAttempted := True\<rparr>)
                       else (s2, None))))"

definition applyPinsUpdated :: "json \<Rightarrow> pins_state \<Rightarrow> pins_state" where
  "applyPinsUpdated raw s =
     (case coercePinDoc raw of
        None \<Rightarrow> s
      | Some doc \<Rightarrow>
          (let s1 = (if pinsMode s \<noteq> Server then s\<lparr>pinsMode := Server\<rparr> else s)
           in if pd_revision doc < serverRevision s1 then s1 else adoptServerDoc doc s1))"

definition legacyTogglePin :: "string \<Rightarrow> pins_state \<Rightarrow> pins_state" where
  "legacyTogglePin i s =
     (if i \<in> set (legacyPinnedSet s)
      then let s1 = legacyPersistPinned (filter (\<lambda>x. x \<noteq> i) (legacyPinnedSet s)) s
           in legacyPersistOrder (filter (\<lambda>x. x \<noteq> i) (legacyOrderArr s1)) s1
      else let s1 = legacyPersistPinned (legacyPinnedSet s @ [i]) s
           in legacyPersistOrder
                (filter (\<lambda>x. x \<noteq> i) (reconcileLegacyOrder (legacyPinnedSet s1) (legacyOrderArr s1)) @ [i]) s1)"

definition legacyMovePinnedTo :: "string \<Rightarrow> string \<Rightarrow> drop_pos \<Rightarrow> pins_state \<Rightarrow> pins_state" where
  "legacyMovePinnedTo d t pos s =
     (let order = reconcileLegacyOrder (legacyPinnedSet s) (legacyOrderArr s);
          nxt = reorderRelative order d t pos
      in if nxt \<noteq> order then legacyPersistOrder nxt s else s)"

text \<open>The neighbour \<^verbatim>\<open>order[i + delta]\<close>, absent at the boundary (or when it is the empty string).\<close>

definition neighbour :: "string list \<Rightarrow> string \<Rightarrow> int \<Rightarrow> string option" where
  "neighbour order i delta =
     (if index_of order i < 0 then None
      else case array_get order (index_of order i + delta) of
             Some n \<Rightarrow> if n = [] then None else Some n
           | None \<Rightarrow> None)"

definition legacyMovePinnedByOffset :: "string \<Rightarrow> int \<Rightarrow> pins_state \<Rightarrow> pins_state" where
  "legacyMovePinnedByOffset i delta s =
     (case neighbour (reconcileLegacyOrder (legacyPinnedSet s) (legacyOrderArr s)) i delta of
        None \<Rightarrow> s
      | Some n \<Rightarrow> legacyMovePinnedTo i n (if delta < 0 then Before else After) s)"

definition dropPinnedSession :: "string \<Rightarrow> pins_state \<Rightarrow> pins_state" where
  "dropPinnedSession i s =
     (if pinsMode s \<noteq> Server then s
      else if i \<notin> set (serverOrder s) then s
      else let nxt = filter (\<lambda>x. x \<noteq> i) (serverOrder s)
           in writeLegacyShadow nxt (applyServerOrder nxt s))"

definition togglePin :: "string \<Rightarrow> pins_state \<Rightarrow> started" where
  "togglePin i s =
     (if pinsMode s = Server
      then performMembershipMutation (if i \<in> set (serverOrder s) then Unpin i else Pin i) s
      else (legacyTogglePin i s, None))"

definition movePinnedByOffset :: "string \<Rightarrow> int \<Rightarrow> pins_state \<Rightarrow> started" where
  "movePinnedByOffset i delta s =
     (if pinsMode s = Server
      then case neighbour (serverOrder s) i delta of
             None \<Rightarrow> (s, None)
           | Some n \<Rightarrow> performReorder i n (if delta < 0 then Before else After) s
      else (legacyMovePinnedByOffset i delta s, None))"

text \<open>The test hook loads the legacy state again and forgets the server's.\<close>

definition resetPinnedForTest :: "pins_state \<Rightarrow> pins_state" where
  "resetPinnedForTest s = init_pins (p_storage s)"

section \<open>The facade as a machine\<close>

text \<open>
  The facade with the PUTs it has sent (oldest first) and the calls still waiting. A response
  names the waiting call it settles.
\<close>

record pins_sys =
  pins :: pins_state
  waiting :: "put_cont list"
  sent :: "put_request list"

datatype pins_event =
    PinsSnapshot json
  | PinsUpdated json
  | TogglePin string
  | MoveByOffset string int
  | DropPinned string
  | ClearError
  | Settle nat http_response

definition launch :: "put_cont list \<Rightarrow> put_request list \<Rightarrow> started \<Rightarrow> pins_sys" where
  "launch ks rs st =
     (case st of
        (s, None) \<Rightarrow> \<lparr>pins = s, waiting = ks, sent = rs\<rparr>
      | (s, Some (r, k)) \<Rightarrow> \<lparr>pins = s, waiting = ks @ [k], sent = rs @ [r]\<rparr>)"

fun pins_step :: "pins_sys \<Rightarrow> pins_event \<Rightarrow> pins_sys" where
  "pins_step y (PinsSnapshot raw) = launch (waiting y) (sent y) (applyPinsSnapshot raw (pins y))"
| "pins_step y (PinsUpdated raw) = y\<lparr>pins := applyPinsUpdated raw (pins y)\<rparr>"
| "pins_step y (TogglePin i) = launch (waiting y) (sent y) (togglePin i (pins y))"
| "pins_step y (MoveByOffset i delta) = launch (waiting y) (sent y) (movePinnedByOffset i delta (pins y))"
| "pins_step y (DropPinned i) = y\<lparr>pins := dropPinnedSession i (pins y)\<rparr>"
| "pins_step y ClearError = y\<lparr>pins := clearPinsError (pins y)\<rparr>"
| "pins_step y (Settle k resp) =
     (if k < length (waiting y)
      then launch (take k (waiting y) @ drop (Suc k) (waiting y)) (sent y)
             (resume (waiting y ! k) (putPins_result resp) (pins y))
      else y)"

definition init_sys :: "local_storage \<Rightarrow> pins_sys" where
  "init_sys ls = \<lparr>pins = init_pins ls, waiting = [], sent = []\<rparr>"

end
