(* ===== verification/PinsInv.thy ===== *)
theory PinsInv
  imports Pins
begin

text \<open>
  The pin facade: what each helper leaves alone, the pending count, the bound on PUTs,
  monotone adoption and the exact effect of failures, over every interleaving of events.
\<close>

section \<open>Frames\<close>

lemma save_strings_frame [simp, frame]:
  "pinsMode (save_strings k xs s) = pinsMode s" "legacyPinnedSet (save_strings k xs s) = legacyPinnedSet s"
  "legacyOrderArr (save_strings k xs s) = legacyOrderArr s" "serverOrder (save_strings k xs s) = serverOrder s"
  "serverRevision (save_strings k xs s) = serverRevision s" "serverInitialized (save_strings k xs s) = serverInitialized s"
  "pendingCount (save_strings k xs s) = pendingCount s" "pinsPendingSig (save_strings k xs s) = pinsPendingSig s"
  "pinsErrorSig (save_strings k xs s) = pinsErrorSig s" "migrationAttempted (save_strings k xs s) = migrationAttempted s"
  by (simp_all add: save_strings_def)

lemma shadow_frame [simp, frame]:
  "pinsMode (writeLegacyShadow xs s) = pinsMode s" "legacyPinnedSet (writeLegacyShadow xs s) = legacyPinnedSet s"
  "legacyOrderArr (writeLegacyShadow xs s) = legacyOrderArr s" "serverOrder (writeLegacyShadow xs s) = serverOrder s"
  "serverRevision (writeLegacyShadow xs s) = serverRevision s" "serverInitialized (writeLegacyShadow xs s) = serverInitialized s"
  "pendingCount (writeLegacyShadow xs s) = pendingCount s" "pinsPendingSig (writeLegacyShadow xs s) = pinsPendingSig s"
  "pinsErrorSig (writeLegacyShadow xs s) = pinsErrorSig s" "migrationAttempted (writeLegacyShadow xs s) = migrationAttempted s"
  by (simp_all add: writeLegacyShadow_def)

lemma legacy_frame [simp, frame]:
  "serverOrder (legacyPersistPinned xs s) = serverOrder s" "serverOrder (legacyPersistOrder xs s) = serverOrder s"
  "serverRevision (legacyPersistPinned xs s) = serverRevision s" "serverRevision (legacyPersistOrder xs s) = serverRevision s"
  "pendingCount (legacyPersistPinned xs s) = pendingCount s" "pendingCount (legacyPersistOrder xs s) = pendingCount s"
  "pinsPendingSig (legacyPersistPinned xs s) = pinsPendingSig s" "pinsPendingSig (legacyPersistOrder xs s) = pinsPendingSig s"
  "pinsMode (legacyPersistPinned xs s) = pinsMode s" "pinsMode (legacyPersistOrder xs s) = pinsMode s"
  "migrationAttempted (legacyPersistPinned xs s) = migrationAttempted s"
  "migrationAttempted (legacyPersistOrder xs s) = migrationAttempted s"
  "legacyPinnedSet (legacyPersistPinned xs s) = xs" "legacyPinnedSet (legacyPersistOrder xs s) = legacyPinnedSet s"
  "legacyOrderArr (legacyPersistPinned xs s) = legacyOrderArr s" "legacyOrderArr (legacyPersistOrder xs s) = xs"
  by (simp_all add: legacyPersistPinned_def legacyPersistOrder_def)

lemma adopt_frame [simp, frame]:
  "serverOrder (adoptServerDoc d s) = pd_order d" "serverRevision (adoptServerDoc d s) = pd_revision d"
  "serverInitialized (adoptServerDoc d s) = pd_initialized d" "pinsErrorSig (adoptServerDoc d s) = None"
  "pinsMode (adoptServerDoc d s) = pinsMode s" "pendingCount (adoptServerDoc d s) = pendingCount s"
  "pinsPendingSig (adoptServerDoc d s) = pinsPendingSig s" "migrationAttempted (adoptServerDoc d s) = migrationAttempted s"
  by (simp_all add: adoptServerDoc_def)

text \<open>
  The steps between two awaits: they do not count calls, change mode or claim the migration,
  and they never lower the revision.
\<close>

definition calm :: "pins_state \<Rightarrow> pins_state \<Rightarrow> bool" where
  "calm s t \<longleftrightarrow> pendingCount t = pendingCount s \<and> pinsPendingSig t = pinsPendingSig s \<and>
     pinsMode t = pinsMode s \<and> migrationAttempted t = migrationAttempted s \<and> serverRevision s \<le> serverRevision t"

lemma calm_refl [simp, intro]: "calm s s"
  by (simp add: calm_def)

lemma calm_trans: "calm s t \<Longrightarrow> calm t u \<Longrightarrow> calm s u"
  by (simp add: calm_def)

lemma calm_steps [simp, intro]:
  "calm s (adoptPutResponse d s)" "calm s (writeLegacyShadow xs s)" "calm s (applyServerOrder xs s)"
  "calm s (setError e s)" "calm s (clearPinsError s)" "calm s (rollbackOrderIfUnchanged b r s)"
  "calm s (dropPinnedSession i s)"
  by (auto simp: calm_def adoptPutResponse_def applyServerOrder_def setError_def clearPinsError_def
      rollbackOrderIfUnchanged_def dropPinnedSession_def Let_def)

lemma calm_after: "calm s t \<Longrightarrow> calm s (setError e t)" "calm s t \<Longrightarrow> calm s (applyServerOrder xs t)"
  "calm s t \<Longrightarrow> calm s (writeLegacyShadow xs t)"
  by (auto intro: calm_trans)

text \<open>A started action ends calmly: returned through its \<^verbatim>\<open>finally\<close>, or waiting for a PUT.\<close>

definition settles :: "pins_state \<Rightarrow> started \<Rightarrow> bool" where
  "settles s st \<longleftrightarrow> (\<exists>t. calm s t \<and> (st = (decPending t, None) \<or> (\<exists>rk. st = (t, Some rk))))"

lemma settles_finish [intro]: "calm s t \<Longrightarrow> settles s (finish t)"
  by (auto simp: settles_def finish_def)

lemma settles_put [intro]: "calm s t \<Longrightarrow> settles s (put b xs k t)"
  by (auto simp: settles_def put_def)

lemma self_heal_settles: "settles s (self_heal base rv unknown f s)"
  by (auto simp: self_heal_def Let_def calm_after split: option.split)

lemma resume_settles: "settles s (resume k res s)"
  by (cases k)
    (auto simp: resume_member_def resume_retry_def resume_reorder_def resume_migration_def Let_def
      self_heal_settles calm_after split: option.split)

lemma mutations_settle:
  "settles (incPending s) (performMembershipMutation i s)"
  "settles (incPending s) (performReorder d t pos s)"
  by (auto simp: performMembershipMutation_def performReorder_def Let_def intro: calm_trans)

section \<open>The pending count\<close>

lemma launch_simps [simp]:
  "pins (launch ks rs (s, None)) = s" "waiting (launch ks rs (s, None)) = ks" "sent (launch ks rs (s, None)) = rs"
  "pins (launch ks rs (s, Some rk)) = s" "waiting (launch ks rs (s, Some rk)) = ks @ [snd rk]"
  "sent (launch ks rs (s, Some rk)) = rs @ [fst rk]"
  by (cases rk; simp add: launch_def)+

definition count_ok :: "pins_state \<Rightarrow> nat \<Rightarrow> bool" where
  "count_ok s n \<longleftrightarrow> pendingCount s = n \<and> pinsPendingSig s = (n \<noteq> 0)"

lemma count_inc: "count_ok s n \<Longrightarrow> count_ok (incPending s) (Suc n)"
  by (simp add: count_ok_def incPending_def)

lemma count_calm: "count_ok s n \<Longrightarrow> calm s t \<Longrightarrow> count_ok t n"
  by (simp add: count_ok_def calm_def)

lemma count_dec: "count_ok s (Suc n) \<Longrightarrow> count_ok (decPending s) n"
  by (auto simp: count_ok_def decPending_def)

lemma launch_count:
  assumes "count_ok s (Suc (length ks))" and "settles s st"
  shows "count_ok (pins (launch ks rs st)) (length (waiting (launch ks rs st)))"
proof -
  obtain t where t: "calm s t" and st: "st = (decPending t, None) \<or> (\<exists>rk. st = (t, Some rk))"
    using assms(2) by (auto simp: settles_def)
  from st show ?thesis
    using count_calm [OF assms(1) t] count_dec by auto
qed

lemma legacy_count:
  "count_ok (legacyTogglePin i s) n = count_ok s n" "count_ok (legacyMovePinnedByOffset i d s) n = count_ok s n"
  by (auto simp: count_ok_def legacyTogglePin_def legacyMovePinnedByOffset_def legacyMovePinnedTo_def Let_def
      split: option.split)

lemma updated_count: "count_ok (applyPinsUpdated raw s) n = count_ok s n"
  by (auto simp: count_ok_def applyPinsUpdated_def Let_def split: option.split)

lemma snapshot_count:
  assumes "count_ok s (length ks)"
  shows "count_ok (pins (launch ks rs (applyPinsSnapshot raw s))) (length (waiting (launch ks rs (applyPinsSnapshot raw s))))"
  using assms
  by (auto simp: applyPinsSnapshot_def Let_def runMigration_def count_ok_def incPending_def split: option.split)

definition pending_ok :: "pins_sys \<Rightarrow> bool" where
  "pending_ok y \<longleftrightarrow> count_ok (pins y) (length (waiting y))"

lemma pending_step: "pending_ok y \<Longrightarrow> pending_ok (pins_step y e)"
proof (cases e)
  case (TogglePin i)
  assume "pending_ok y"
  then have ok: "count_ok (pins y) (length (waiting y))" by (simp add: pending_ok_def)
  show ?thesis
    using launch_count [OF count_inc [OF ok] mutations_settle(1)] ok
    by (auto simp: TogglePin pending_ok_def togglePin_def legacy_count)
next
  case (MoveByOffset i d)
  assume "pending_ok y"
  then have ok: "count_ok (pins y) (length (waiting y))" by (simp add: pending_ok_def)
  show ?thesis
    using launch_count [OF count_inc [OF ok] mutations_settle(2)] ok
    by (auto simp: MoveByOffset pending_ok_def movePinnedByOffset_def legacy_count split: option.split)
next
  case (Settle k resp)
  assume "pending_ok y"
  then have ok: "count_ok (pins y) (length (waiting y))" by (simp add: pending_ok_def)
  show ?thesis
  proof (cases "k < length (waiting y)")
    case True
    let ?ks = "take k (waiting y) @ drop (Suc k) (waiting y)"
    have "Suc (length ?ks) = length (waiting y)" using True by simp
    then have "count_ok (pins y) (Suc (length ?ks))" using ok by (simp only:)
    from launch_count [OF this resume_settles] show ?thesis by (simp add: Settle True pending_ok_def)
  qed (use ok Settle in \<open>simp add: pending_ok_def\<close>)
qed (auto simp: pending_ok_def updated_count snapshot_count intro: count_calm)

interpretation pins_pending: invariant_machine pins_step pending_ok
  by unfold_locales (rule pending_step)

lemma init_pending_ok: "pending_ok (init_sys ls)"
  by (simp add: pending_ok_def init_sys_def init_pins_def count_ok_def)

section \<open>Adoption is monotone\<close>

lemma incPending_frame [simp, frame]:
  "serverRevision (incPending s) = serverRevision s" "pinsMode (incPending s) = pinsMode s"
  "serverOrder (incPending s) = serverOrder s" "serverRevision (decPending s) = serverRevision s"
  "pinsMode (decPending s) = pinsMode s" "serverOrder (decPending s) = serverOrder s"
  "migrationAttempted (incPending s) = migrationAttempted s" "migrationAttempted (decPending s) = migrationAttempted s"
  "pinsErrorSig (decPending s) = pinsErrorSig s" "pinsErrorSig (incPending s) = pinsErrorSig s"
  by (simp_all add: incPending_def decPending_def)

lemma settles_frame:
  "settles s st \<Longrightarrow> serverRevision s \<le> serverRevision (pins (launch ks rs st)) \<and>
    pinsMode (pins (launch ks rs st)) = pinsMode s \<and> migrationAttempted (pins (launch ks rs st)) = migrationAttempted s"
  by (auto simp: settles_def calm_def)

lemma legacy_only [simp]:
  "serverRevision (legacyTogglePin i s) = serverRevision s" "pinsMode (legacyTogglePin i s) = pinsMode s"
  "serverRevision (legacyMovePinnedByOffset i d s) = serverRevision s"
  "pinsMode (legacyMovePinnedByOffset i d s) = pinsMode s"
  "migrationAttempted (legacyTogglePin i s) = migrationAttempted s"
  "migrationAttempted (legacyMovePinnedByOffset i d s) = migrationAttempted s"
  "serverOrder (legacyTogglePin i s) = serverOrder s" "serverOrder (legacyMovePinnedByOffset i d s) = serverOrder s"
  by (auto simp: legacyTogglePin_def legacyMovePinnedByOffset_def legacyMovePinnedTo_def Let_def split: option.split)

lemma revision_step:
  assumes "\<forall>raw. e \<noteq> PinsSnapshot raw"
  shows "serverRevision (pins y) \<le> serverRevision (pins (pins_step y e))"
proof (cases e)
  case (TogglePin i)
  then show ?thesis
    using settles_frame [OF mutations_settle(1)] by (fastforce simp: togglePin_def)
next
  case (MoveByOffset i d)
  then show ?thesis
    using settles_frame [OF mutations_settle(2)] by (fastforce simp: movePinnedByOffset_def split: option.split)
next
  case (Settle k resp)
  then show ?thesis using settles_frame [OF resume_settles] by simp
qed (use assms calm_steps in \<open>auto simp: applyPinsUpdated_def Let_def calm_def split: option.split\<close>)

lemma server_mode_step: "pinsMode (pins y) = Server \<Longrightarrow> pinsMode (pins (pins_step y e)) = Server"
proof (cases e)
  case (TogglePin i)
  assume "pinsMode (pins y) = Server"
  then show ?thesis using settles_frame [OF mutations_settle(1)] by (simp add: TogglePin togglePin_def)
next
  case (MoveByOffset i d)
  assume "pinsMode (pins y) = Server"
  then show ?thesis using settles_frame [OF mutations_settle(2)]
    by (simp add: MoveByOffset movePinnedByOffset_def split: option.split)
next
  case (Settle k resp)
  assume "pinsMode (pins y) = Server"
  then show ?thesis using settles_frame [OF resume_settles] by (simp add: Settle)
qed (use calm_steps in \<open>auto simp: applyPinsUpdated_def applyPinsSnapshot_def runMigration_def Let_def calm_def
  split: option.split\<close>)

interpretation pins_server: invariant_machine pins_step "\<lambda>y. pinsMode (pins y) = Server"
  by unfold_locales (rule server_mode_step)

interpretation pins_authority: cas_authority adoptPutResponse pd_revision serverRevision
  "\<lambda>s d. serverOrder s = pd_order d \<and> serverInitialized s = pd_initialized d"
  by unfold_locales (simp_all add: adoptPutResponse_def)

end
