(* ===== verification/PinsThms.thy ===== *)
theory PinsThms
  imports PinsInv
begin

text \<open>
  The pin facade, continued: the bound on the PUTs of a run, the lists a PUT may carry, and
  what each answer does to the order shown.
\<close>

section \<open>How many PUTs\<close>

text \<open>The PUTs a waiting call may still issue.\<close>

fun retries :: "put_cont \<Rightarrow> nat" where
  "retries (AwaitMember i base rv) = 1"
| "retries (AwaitReorder d t pos base rv) = 1"
| "retries k = 0"

definition put_budget :: "pins_sys \<Rightarrow> nat" where
  "put_budget y = length (sent y) + sum_list (map retries (waiting y)) + (if migrationAttempted (pins y) then 0 else 1)"

fun user_action :: "pins_event \<Rightarrow> bool" where
  "user_action (TogglePin i) = True"
| "user_action (MoveByOffset i d) = True"
| "user_action e = False"

text \<open>The waiting call a step leaves behind, if any.\<close>

definition next_cont :: "started \<Rightarrow> put_cont option" where
  "next_cont st = map_option snd (snd st)"

lemma next_cont_finish [simp]: "next_cont (finish s) = None"
  and next_cont_put [simp]: "next_cont (put b xs k s) = Some k"
  by (simp_all add: next_cont_def finish_def put_def)

lemma self_heal_cont: "next_cont (self_heal base rv unknown f s) = Some k \<Longrightarrow> retries k = 0"
  by (auto simp: self_heal_def Let_def split: option.splits if_splits)

lemma resume_cont: "next_cont (resume k res s) = Some k' \<Longrightarrow> retries k' = 0 \<and> retries k = 1"
  by (cases k)
    (auto simp: resume_member_def resume_retry_def resume_reorder_def resume_migration_def Let_def
      dest: self_heal_cont split: option.splits if_splits)

lemma launch_budget:
  "length (sent (launch ks rs st)) + sum_list (map retries (waiting (launch ks rs st)))
    = length rs + sum_list (map retries ks) + (case next_cont st of Some k \<Rightarrow> Suc (retries k) | None \<Rightarrow> 0)"
  by (cases st; cases "snd st") (auto simp: next_cont_def)

lemma mutation_cont:
  "next_cont (performMembershipMutation i s) = Some k \<Longrightarrow> retries k = 1"
  "next_cont (performReorder d t pos s) = Some k \<Longrightarrow> retries k = 1"
  by (auto simp: performMembershipMutation_def performReorder_def Let_def split: if_splits)

lemma toggle_cont: "next_cont (togglePin i s) = Some k \<Longrightarrow> retries k = 1"
  using mutation_cont(1) by (auto simp: togglePin_def next_cont_def split: if_splits)

lemma move_cont: "next_cont (movePinnedByOffset i d s) = Some k \<Longrightarrow> retries k = 1"
  using mutation_cont(2) by (auto simp: movePinnedByOffset_def next_cont_def split: if_splits option.splits)

lemma action_migration:
  "migrationAttempted (fst (togglePin i s)) = migrationAttempted s"
  "migrationAttempted (fst (movePinnedByOffset i d s)) = migrationAttempted s"
  "migrationAttempted (fst (resume k res s)) = migrationAttempted s"
proof -
  have fst_pins: "fst st = pins (launch [] [] st)" for st by (cases st; cases "snd st") auto
  show "migrationAttempted (fst (togglePin i s)) = migrationAttempted s"
    using settles_frame [OF mutations_settle(1), where ks = "[]" and rs = "[]"] by (simp add: togglePin_def fst_pins)
  show "migrationAttempted (fst (movePinnedByOffset i d s)) = migrationAttempted s"
    using settles_frame [OF mutations_settle(2), where ks = "[]" and rs = "[]"]
    by (simp add: movePinnedByOffset_def fst_pins split: option.split)
  show "migrationAttempted (fst (resume k res s)) = migrationAttempted s"
    using settles_frame [OF resume_settles, where ks = "[]" and rs = "[]"] by (simp add: fst_pins)
qed

lemma pins_launch [simp]: "pins (launch ks rs st) = fst st"
  by (cases st; cases "snd st") auto

lemma snapshot_budget:
  "(case next_cont (applyPinsSnapshot raw s) of Some k \<Rightarrow> Suc (retries k) | None \<Rightarrow> 0)
      + (if migrationAttempted (fst (applyPinsSnapshot raw s)) then 0 else 1)
    \<le> (if migrationAttempted s then 0 else 1 :: nat)"
  by (auto simp: applyPinsSnapshot_def runMigration_def next_cont_def Let_def split: option.split)

lemma drop_nth_sum:
  "k < length xs \<Longrightarrow> sum_list (map f (take k xs @ drop (Suc k) xs)) + f (xs ! k) = (sum_list (map f xs) :: nat)"
  by (subst (3) id_take_nth_drop [of k xs]) simp_all

lemma budget_step: "put_budget (pins_step y e) \<le> put_budget y + (if user_action e then 2 else 0)"
proof (cases e)
  case (PinsSnapshot raw)
  then show ?thesis using snapshot_budget [of raw "pins y"]
    by (simp add: put_budget_def launch_budget)
next
  case (TogglePin i)
  then show ?thesis using toggle_cont [of i "pins y"]
    by (simp add: put_budget_def launch_budget action_migration split: option.split)
next
  case (MoveByOffset i d)
  then show ?thesis using move_cont [of i d "pins y"]
    by (simp add: put_budget_def launch_budget action_migration split: option.split)
next
  case (Settle k resp)
  show ?thesis
  proof (cases "k < length (waiting y)")
    case True
    have "(case next_cont (resume (waiting y ! k) (putPins_result resp) (pins y)) of Some k' \<Rightarrow> Suc (retries k') | None \<Rightarrow> 0)
        \<le> retries (waiting y ! k)"
      using resume_cont [of "waiting y ! k" "putPins_result resp" "pins y"] by (simp split: option.split)
    then show ?thesis using drop_nth_sum [OF True, of retries]
      by (simp add: Settle True put_budget_def launch_budget action_migration del: map_append)
  qed (simp add: Settle)
qed (auto simp: put_budget_def applyPinsUpdated_def dropPinnedSession_def clearPinsError_def Let_def
    applyServerOrder_def split: option.split)

lemma budget_run:
  "put_budget (foldl pins_step y es) \<le> put_budget y + 2 * length (filter user_action es)"
proof (induction es arbitrary: y)
  case (Cons e es)
  show ?case using Cons.IH [of "pins_step y e"] budget_step [of y e]
    by (cases "user_action e") simp_all
qed simp

section \<open>What a PUT may carry\<close>

lemma fold_append_absent:
  "distinct acc \<Longrightarrow> distinct (fold (\<lambda>i acc. if P i \<and> i \<notin> set acc then acc @ [i] else acc) xs acc) \<and>
    set (fold (\<lambda>i acc. if P i \<and> i \<notin> set acc then acc @ [i] else acc) xs acc) = set acc \<union> {i \<in> set xs. P i}"
  by (induction xs arbitrary: acc) auto

lemma reconcile_distinct [simp]: "distinct (reconcileLegacyOrder st order)"
  and reconcile_set [simp]: "set (reconcileLegacyOrder st order) = set st"
proof -
  let ?kept = "fold (\<lambda>i acc. if i \<in> set st \<and> i \<notin> set acc then acc @ [i] else acc) order []"
  have kept: "distinct ?kept" "set ?kept = {i \<in> set order. i \<in> set st}"
    using fold_append_absent [of "[]" "\<lambda>i. i \<in> set st" order] by auto
  show "distinct (reconcileLegacyOrder st order)" "set (reconcileLegacyOrder st order) = set st"
    using fold_append_absent [OF kept(1), of "\<lambda>_. True" st] kept(2) by (auto simp: reconcileLegacyOrder_def)
qed

text \<open>The ids the order knows keep their order; the others follow in membership order.\<close>

lemma fold_append_filter:
  "fold (\<lambda>i acc. if P i \<and> i \<notin> set acc then acc @ [i] else acc) xs (filter P acc)
      = filter P (fold (\<lambda>x acc. if x \<in> set acc then acc else acc @ [x]) xs acc)"
proof (induction xs arbitrary: acc)
  case (Cons x xs)
  show ?case using Cons.IH [of "acc @ [x]"] Cons.IH [of acc] by auto
qed simp

lemma dedupe_filter: "dedupe (filter P xs) = filter P (dedupe xs)"
proof -
  have "fold (\<lambda>x acc. if x \<in> set acc then acc else acc @ [x]) (filter P xs) acc
      = fold (\<lambda>i acc. if P i \<and> i \<notin> set acc then acc @ [i] else acc) xs acc" for acc :: "'a list"
  proof (induction xs arbitrary: acc)
    case (Cons x xs)
    show ?case using Cons.IH [of "acc @ [x]"] Cons.IH [of acc] by auto
  qed simp
  from this [of "[]"] show ?thesis using fold_append_filter [of P xs "[]"] by (simp add: dedupe_def)
qed

lemma fold_append_missing:
  "distinct acc \<Longrightarrow> fold (\<lambda>i acc. if i \<notin> set acc then acc @ [i] else acc) xs acc = acc @ filter (\<lambda>i. i \<notin> set acc) (dedupe xs)"
proof (induction xs arbitrary: acc)
  case (Cons x xs)
  have step: "dedupe (x # xs) = x # filter (\<lambda>i. i \<noteq> x) (dedupe xs)" for x and xs :: "'a list"
  proof -
    have "fold (\<lambda>x acc. if x \<in> set acc then acc else acc @ [x]) xs (acc @ ys)
      = acc @ fold (\<lambda>x acc. if x \<in> set acc then acc else acc @ [x]) (filter (\<lambda>i. i \<notin> set acc) xs) ys" for acc ys
    proof (induction xs arbitrary: ys)
      case (Cons z zs)
      show ?case using Cons.IH [of ys] Cons.IH [of "ys @ [z]"] by auto
    qed simp
    from this [of "[x]" "[]"] show ?thesis by (simp add: dedupe_def [of "x # xs"] dedupe_def [symmetric] dedupe_filter)
  qed
  show ?case
  proof (cases "x \<in> set acc")
    case True
    then have "filter (\<lambda>i. i \<notin> set acc) (dedupe xs) = filter (\<lambda>i. i \<notin> set acc) (filter (\<lambda>i. i \<noteq> x) (dedupe xs))"
      by (auto simp: intro: filter_cong)
    then show ?thesis using Cons.IH [OF Cons.prems] True by (simp add: step)
  next
    case False
    then show ?thesis using Cons.IH [of "acc @ [x]"] Cons.prems by (simp add: step conj_commute)
  qed
qed (simp add: dedupe_def)

lemma reconcile_closed:
  "reconcileLegacyOrder st order = filter (\<lambda>i. i \<in> set st) (dedupe order) @ filter (\<lambda>i. i \<notin> set order) (dedupe st)"
proof -
  let ?kept = "filter (\<lambda>i. i \<in> set st) (dedupe order)"
  have "fold (\<lambda>i acc. if i \<in> set st \<and> i \<notin> set acc then acc @ [i] else acc) order [] = ?kept"
    using fold_append_filter [of "\<lambda>i. i \<in> set st" order "[]"] by (simp add: dedupe_def)
  then have "reconcileLegacyOrder st order = fold (\<lambda>i acc. if i \<notin> set acc then acc @ [i] else acc) st ?kept"
    by (simp add: reconcileLegacyOrder_def Let_def)
  also have "\<dots> = ?kept @ filter (\<lambda>i. i \<notin> set ?kept) (dedupe st)"
    by (rule fold_append_missing) simp
  also have "filter (\<lambda>i. i \<notin> set ?kept) (dedupe st) = filter (\<lambda>i. i \<notin> set order) (dedupe st)"
    by (intro filter_cong) auto
  finally show ?thesis .
qed

lemma reconcile_complete: "distinct xs \<Longrightarrow> set xs = set st \<Longrightarrow> reconcileLegacyOrder st xs = xs"
  by (simp add: reconcile_closed)

lemma reconcile_without:
  "reconcileLegacyOrder (filter (\<lambda>x. x \<noteq> i) st) (filter (\<lambda>x. x \<noteq> i) order)
    = filter (\<lambda>x. x \<noteq> i) (reconcileLegacyOrder st order)"
proof -
  have "filter (\<lambda>j. j \<in> set (filter (\<lambda>x. x \<noteq> i) st)) (filter (\<lambda>x. x \<noteq> i) (dedupe order))
      = filter (\<lambda>x. x \<noteq> i) (filter (\<lambda>j. j \<in> set st) (dedupe order))"
    and "filter (\<lambda>j. j \<notin> set (filter (\<lambda>x. x \<noteq> i) order)) (filter (\<lambda>x. x \<noteq> i) (dedupe st))
      = filter (\<lambda>x. x \<noteq> i) (filter (\<lambda>j. j \<notin> set order) (dedupe st))"
    unfolding filter_filter by (auto intro: filter_cong)
  then show ?thesis by (simp only: reconcile_closed dedupe_filter filter_append)
qed

lemma legacy_toggle_order:
  assumes "pinsMode s = Legacy"
  shows "reconciledPinnedOrder (fst (togglePin i s)) =
    (if isPinned s i then filter (\<lambda>x. x \<noteq> i) (reconciledPinnedOrder s)
     else filter (\<lambda>x. x \<noteq> i) (reconcileLegacyOrder (legacyPinnedSet s @ [i]) (legacyOrderArr s)) @ [i])"
proof (cases "i \<in> set (legacyPinnedSet s)")
  case True
  then show ?thesis using assms
    by (simp add: togglePin_def legacyTogglePin_def Let_def reconciledPinnedOrder_def isPinned_def reconcile_without)
next
  case False
  let ?r = "filter (\<lambda>x. x \<noteq> i) (reconcileLegacyOrder (legacyPinnedSet s @ [i]) (legacyOrderArr s)) @ [i]"
  have "reconcileLegacyOrder (legacyPinnedSet s @ [i]) ?r = ?r"
    by (rule reconcile_complete) auto
  then show ?thesis using assms False
    by (simp add: togglePin_def legacyTogglePin_def Let_def reconciledPinnedOrder_def isPinned_def)
qed

lemma legacy_toggle_membership:
  "pinsMode s = Legacy \<Longrightarrow> isPinned (fst (togglePin i s)) j = (if j = i then \<not> isPinned s i else isPinned s j)"
  by (auto simp: togglePin_def legacyTogglePin_def Let_def isPinned_def)

fun wait_base :: "put_cont \<Rightarrow> string list" where
  "wait_base (AwaitMember i base rv) = base"
| "wait_base (AwaitMemberRetry base rv) = base"
| "wait_base (AwaitReorder d t pos base rv) = base"
| "wait_base (AwaitHeal base rv) = base"
| "wait_base AwaitMigration = []"

definition orders_distinct :: "pins_sys \<Rightarrow> bool" where
  "orders_distinct y \<longleftrightarrow> distinct (serverOrder (pins y)) \<and> (\<forall>k \<in> set (waiting y). distinct (wait_base k)) \<and>
     (\<forall>r \<in> set (sent y). distinct (rq_order r))"

text \<open>The server's side of the contract: the documents it sends have no duplicates.\<close>

definition doc_distinct :: "json \<Rightarrow> bool" where
  "doc_distinct j = (case coercePinDoc j of Some d \<Rightarrow> distinct (pd_order d) | None \<Rightarrow> True)"

fun server_ok :: "pins_event \<Rightarrow> bool" where
  "server_ok (PinsSnapshot j) = doc_distinct j"
| "server_ok (PinsUpdated j) = doc_distinct j"
| "server_ok (Settle k (Http st j)) = doc_distinct j"
| "server_ok e = True"

definition started_distinct :: "started \<Rightarrow> bool" where
  "started_distinct st \<longleftrightarrow> distinct (serverOrder (fst st)) \<and>
     (case snd st of Some (r, k) \<Rightarrow> distinct (rq_order r) \<and> distinct (wait_base k) | None \<Rightarrow> True)"

lemma distinct_intent [simp]: "distinct xs \<Longrightarrow> distinct (applyMembershipIntent i xs)"
  by (cases i) auto

lemma order_after [simp]:
  "serverOrder (setError e s) = serverOrder s" "serverOrder (clearPinsError s) = serverOrder s"
  "serverOrder (applyServerOrder xs s) = xs"
  "serverRevision (setError e s) = serverRevision s" "serverRevision (clearPinsError s) = serverRevision s"
  "serverRevision (applyServerOrder xs s) = serverRevision s"
  by (simp_all add: setError_def clearPinsError_def applyServerOrder_def)

lemma distinct_adopt: "distinct (serverOrder s) \<Longrightarrow> distinct (pd_order d) \<Longrightarrow> distinct (serverOrder (adoptPutResponse d s))"
  by (simp add: adoptPutResponse_def)

lemma distinct_rollback:
  "distinct (serverOrder s) \<Longrightarrow> distinct base \<Longrightarrow> distinct (serverOrder (rollbackOrderIfUnchanged base r s))"
  by (simp add: rollbackOrderIfUnchanged_def)

lemma self_heal_distinct:
  assumes "distinct base" and "\<And>b t. distinct b \<Longrightarrow> f b = Some t \<Longrightarrow> distinct t"
  shows "started_distinct (self_heal base rv unknown f s)"
proof -
  have "distinct (filter (\<lambda>i. i \<notin> set unknown) base)" using assms(1) by simp
  with assms(2) [OF this] show ?thesis
    by (auto simp: self_heal_def started_distinct_def Let_def finish_def put_def split: option.split)
qed

lemma resume_distinct:
  assumes "distinct (serverOrder s)" and "distinct (wait_base k)" and "\<And>d. pr_doc res = Some d \<Longrightarrow> distinct (pd_order d)"
  shows "started_distinct (resume k res s)"
proof -
  have doc: "distinct (pd_order d)" if "doc_at st res = Some d" for st d
    using assms(3) that by (auto simp: doc_at_def split: if_splits)
  have fin: "started_distinct (finish t)" if "distinct (serverOrder t)" for t
    using that by (simp add: started_distinct_def finish_def)
  show ?thesis
  proof (cases k)
    case AwaitMigration
    then show ?thesis using assms(1,3)
      by (auto simp: resume_migration_def intro!: fin distinct_adopt split: option.split)
  next
    case (AwaitMember i base rv)
    have wait: "started_distinct (put rv' t (AwaitMemberRetry b r) u)"
      if "distinct (serverOrder u)" "distinct t" "distinct b" for rv' b t r u
      using that by (simp add: started_distinct_def put_def)
    then show ?thesis using assms AwaitMember doc
      by (auto simp: resume_member_def Let_def
          intro!: fin wait distinct_adopt distinct_rollback distinct_intent self_heal_distinct split: option.split)
  qed (use assms(1,2) doc in \<open>auto simp: resume_retry_def resume_reorder_def
      intro!: fin distinct_adopt distinct_rollback self_heal_distinct split: option.split if_splits\<close>)
qed

lemma snapshot_distinct:
  "distinct (serverOrder s) \<Longrightarrow> doc_distinct raw \<Longrightarrow> started_distinct (applyPinsSnapshot raw s)"
  by (auto simp: applyPinsSnapshot_def started_distinct_def doc_distinct_def runMigration_def Let_def
      readLegacyReconciledSeed_def split: option.splits)

lemma action_distinct:
  assumes "distinct (serverOrder s)"
  shows "started_distinct (togglePin i s)" "started_distinct (movePinnedByOffset i d s)"
  using assms
  by (auto simp: togglePin_def movePinnedByOffset_def performMembershipMutation_def performReorder_def
      started_distinct_def finish_def put_def Let_def split: option.split)

lemma orders_distinct_launch:
  "started_distinct st \<Longrightarrow> (\<forall>k \<in> set ks. distinct (wait_base k)) \<Longrightarrow> (\<forall>r \<in> set rs. distinct (rq_order r)) \<Longrightarrow>
    orders_distinct (launch ks rs st)"
  by (cases st; cases "snd st") (auto simp: orders_distinct_def started_distinct_def)

lemma orders_distinct_step:
  assumes inv: "orders_distinct y" and ok: "server_ok e"
  shows "orders_distinct (pins_step y e)"
proof -
  have o: "distinct (serverOrder (pins y))" and w: "\<forall>k \<in> set (waiting y). distinct (wait_base k)"
    and r: "\<forall>r \<in> set (sent y). distinct (rq_order r)"
    using inv by (simp_all add: orders_distinct_def)
  show ?thesis
  proof (cases e)
    case (PinsSnapshot raw)
    then show ?thesis using orders_distinct_launch [OF snapshot_distinct [OF o] w r] ok by simp
  next
    case (PinsUpdated raw)
    then show ?thesis using inv ok
      by (auto simp: orders_distinct_def applyPinsUpdated_def doc_distinct_def Let_def split: option.splits)
  next
    case (TogglePin i)
    then show ?thesis using orders_distinct_launch [OF action_distinct(1) [OF o] w r] by simp
  next
    case (MoveByOffset i d)
    then show ?thesis using orders_distinct_launch [OF action_distinct(2) [OF o] w r] by simp
  next
    case (Settle k resp)
    show ?thesis
    proof (cases "k < length (waiting y)")
      case True
      let ?k = "waiting y ! k" and ?res = "putPins_result resp"
      have "distinct (pd_order d)" if "pr_doc ?res = Some d" for d
        using that ok by (cases resp) (auto simp: Settle putPins_result_def doc_distinct_def split: if_splits)
      moreover have "distinct (wait_base ?k)" using w True by simp
      ultimately have "started_distinct (resume ?k ?res (pins y))" using o by (intro resume_distinct)
      moreover have "\<forall>k \<in> set (take k (waiting y) @ drop (Suc k) (waiting y)). distinct (wait_base k)"
        using w by (auto dest: in_set_takeD in_set_dropD)
      ultimately show ?thesis using orders_distinct_launch [OF _ _ r] by (simp add: Settle True)
    qed (use inv Settle in simp)
  qed (use inv in \<open>auto simp: orders_distinct_def dropPinnedSession_def Let_def\<close>)
qed

lemma orders_distinct_run:
  "orders_distinct y \<Longrightarrow> list_all server_ok es \<Longrightarrow> orders_distinct (foldl pins_step y es)"
  by (induction es arbitrary: y) (auto intro: orders_distinct_step)

lemma orders_distinct_init: "orders_distinct (init_sys ls)"
  by (simp add: orders_distinct_def init_sys_def init_pins_def)

section \<open>Answers\<close>

text \<open>An answer that confirms nothing and asks for no self-heal.\<close>

definition plain_failure :: "put_result \<Rightarrow> bool" where
  "plain_failure res \<longleftrightarrow> doc_at 200 res = None \<and> doc_at 409 res = None \<and> \<not> (pr_status res = 400 \<and> pr_unknownIds res \<noteq> [])"

text \<open>The revision a waiting call was issued at; the migration never rolls back.\<close>

fun wait_rev :: "put_cont \<Rightarrow> int option" where
  "wait_rev (AwaitMember i base rv) = Some rv"
| "wait_rev (AwaitMemberRetry base rv) = Some rv"
| "wait_rev (AwaitReorder d t pos base rv) = Some rv"
| "wait_rev (AwaitHeal base rv) = Some rv"
| "wait_rev AwaitMigration = None"

lemma plain_failure_result:
  assumes "plain_failure res"
  shows "resume k res s = finish (setError (failure_kind res)
    (if wait_rev k = Some (serverRevision s) then applyServerOrder (wait_base k) s else s))"
proof -
  have no: "doc_at 200 res = None" "doc_at 409 res = None" "\<not> (pr_status res = 400 \<and> pr_unknownIds res \<noteq> [])"
    using assms by (simp_all add: plain_failure_def)
  show ?thesis
  proof (cases k)
    case AwaitMigration
    have "resume_migration res s = finish (setError (failure_kind res) s)"
      using no(1,2) by (auto simp: resume_migration_def doc_at_def split: option.split if_splits)
    then show ?thesis by (simp add: AwaitMigration)
  qed (use no(3) in \<open>auto simp: resume_member_def resume_retry_def resume_reorder_def no(1,2) rollbackOrderIfUnchanged_def\<close>)
qed

text \<open>A click, then a failure with nothing in between: the order is the one before the click.\<close>

lemma failed_action_restores:
  assumes start: "togglePin i s = (s1, Some (r, k)) \<or> movePinnedByOffset i d s = (s1, Some (r, k))"
    and fail: "plain_failure res"
  shows "\<exists>t. resume k res s1 = (t, None) \<and> serverOrder t = serverOrder s \<and>
    serverRevision t = serverRevision s \<and> pinsErrorSig t = Some (failure_kind res)"
proof -
  have "wait_rev k = Some (serverRevision s1) \<and> wait_base k = serverOrder s \<and> serverRevision s1 = serverRevision s"
    using start
    by (auto simp: togglePin_def movePinnedByOffset_def performMembershipMutation_def performReorder_def
        finish_def put_def Let_def split: if_splits option.splits)
  then show ?thesis
    by (simp add: plain_failure_result [OF fail] finish_def) (simp add: setError_def)
qed

lemma self_heal_settled:
  assumes heal: "self_heal base rv unknown f s = (s1, st)"
  shows "(st = None \<and> serverOrder s1 = filter (\<lambda>i. i \<notin> set unknown) base \<or>
     (\<exists>t. f (filter (\<lambda>i. i \<notin> set unknown) base) = Some t \<and> serverOrder s1 = t \<and>
       st = Some (\<lparr>rq_baseRevision = rv, rq_order = t, rq_initializeOnly = False\<rparr>,
                  AwaitHeal (filter (\<lambda>i. i \<notin> set unknown) base) rv))) \<and> serverRevision s1 = serverRevision s"
  using heal by (auto simp: self_heal_def Let_def finish_def put_def split: option.splits if_splits)

section \<open>Confirmed documents\<close>

text \<open>
  The document an event confirms under the revision guard: a live update frame, or an answer
  of a PUT with the status 200 or 409. A snapshot frame is adopted without the guard.
\<close>

definition answered :: "put_result \<Rightarrow> pin_doc option" where
  "answered res = (if pr_status res = 200 \<or> pr_status res = 409 then pr_doc res else None)"

fun confirmed :: "pins_sys \<Rightarrow> pins_event \<Rightarrow> pin_doc option" where
  "confirmed y (PinsUpdated raw) = coercePinDoc raw"
| "confirmed y (Settle k resp) = (if k < length (waiting y) then answered (putPins_result resp) else None)"
| "confirmed y e = None"

fun confirmed_run :: "pins_sys \<Rightarrow> pins_event list \<Rightarrow> pin_doc list" where
  "confirmed_run y [] = []"
| "confirmed_run y (e # es) = (case confirmed y e of Some d \<Rightarrow> [d] | None \<Rightarrow> []) @ confirmed_run (pins_step y e) es"

fun is_snapshot :: "pins_event \<Rightarrow> bool" where
  "is_snapshot (PinsSnapshot raw) = True"
| "is_snapshot e = False"

lemma resume_revision:
  "serverRevision (fst (resume k res s)) =
     (case answered res of Some d \<Rightarrow> max (serverRevision s) (pd_revision d) | None \<Rightarrow> serverRevision s)"
proof -
  have heal: "serverRevision (fst (self_heal b r u f t)) = serverRevision t" for b r u f t
    by (auto simp: self_heal_def Let_def finish_def put_def split: option.split)
  have roll: "serverRevision (rollbackOrderIfUnchanged b r t) = serverRevision t" for b r t
    by (simp add: rollbackOrderIfUnchanged_def)
  note defs = resume_member_def resume_retry_def resume_reorder_def resume_migration_def answered_def doc_at_def
    Let_def finish_def put_def pins_authority.adopt_max heal roll
  show ?thesis by (cases k) (auto simp: defs split: option.split)
qed

lemma mutation_revision:
  "serverRevision (fst (performMembershipMutation i s)) = serverRevision s"
  "serverRevision (fst (performReorder d t pos s)) = serverRevision s"
  by (auto simp: performMembershipMutation_def performReorder_def Let_def finish_def put_def)

lemma confirmed_step:
  assumes "\<not> is_snapshot e"
  shows "serverRevision (pins (pins_step y e)) =
    (case confirmed y e of Some d \<Rightarrow> max (serverRevision (pins y)) (pd_revision d) | None \<Rightarrow> serverRevision (pins y))"
proof (cases e)
  case (Settle k resp)
  then show ?thesis by (simp add: resume_revision split: option.split)
next
  case (DropPinned i)
  then show ?thesis by (simp add: dropPinnedSession_def Let_def)
qed (use assms in \<open>auto simp: togglePin_def movePinnedByOffset_def mutation_revision applyPinsUpdated_def Let_def
  split: option.split\<close>)

lemma confirmed_revision:
  "list_all (\<lambda>e. \<not> is_snapshot e) es \<Longrightarrow>
    serverRevision (pins (foldl pins_step y es)) = fold max (map pd_revision (confirmed_run y es)) (serverRevision (pins y))"
proof (induction es arbitrary: y)
  case (Cons e es)
  then show ?case using confirmed_step [of e y] by (simp add: max.commute split: option.split)
qed simp

text \<open>
  The events that only confirm or discard: a live update, an answer with the status 200 and a
  document, and the dismissal of the error.
\<close>

fun plain_confirm :: "pins_event \<Rightarrow> bool" where
  "plain_confirm (PinsUpdated raw) = True"
| "plain_confirm (Settle k (Http st body)) = (st = 200 \<and> coercePinDoc body \<noteq> None)"
| "plain_confirm ClearError = True"
| "plain_confirm e = False"

lemma resume_plain:
  assumes "coercePinDoc body = Some d"
  shows "resume k (putPins_result (Http 200 body)) s = finish (adoptPutResponse d s)"
  using assms
  by (cases k) (simp_all add: putPins_result_def resume_member_def resume_retry_def resume_reorder_def
      resume_migration_def doc_at_def)

definition shown_doc :: "pins_sys \<Rightarrow> string list \<times> bool" where
  "shown_doc y = (serverOrder (pins y), serverInitialized (pins y))"

lemma plain_step:
  assumes "plain_confirm e"
  shows "shown_doc (pins_step y e) =
    (case confirmed y e of
       Some d \<Rightarrow> if pd_revision d < serverRevision (pins y) then shown_doc y else (pd_order d, pd_initialized d)
     | None \<Rightarrow> shown_doc y)"
proof (cases e)
  case (PinsUpdated raw)
  then show ?thesis by (simp add: shown_doc_def applyPinsUpdated_def Let_def split: option.split)
next
  case ClearError
  then show ?thesis by (simp add: shown_doc_def clearPinsError_def)
next
  case (Settle k resp)
  with assms obtain body d where resp: "resp = Http 200 body" and d: "coercePinDoc body = Some d"
    by (cases resp) auto
  then have "answered (putPins_result resp) = Some d" by (simp add: answered_def putPins_result_def)
  then show ?thesis
    using resume_plain [OF d, of "waiting y ! k" "pins y"]
    by (simp add: Settle resp shown_doc_def finish_def decPending_def adoptPutResponse_def)
qed (use assms in simp_all)

lemma stale_confirms_keep:
  "list_all plain_confirm es \<Longrightarrow> \<forall>d \<in> set (confirmed_run y es). pd_revision d < serverRevision (pins y) \<Longrightarrow>
    shown_doc (foldl pins_step y es) = shown_doc y"
proof (induction es arbitrary: y)
  case (Cons e es)
  have "\<not> is_snapshot e" using Cons.prems(1) by (cases e) auto
  then have "serverRevision (pins (pins_step y e)) = serverRevision (pins y)"
    using confirmed_step [of e y] Cons.prems(2) by (simp split: option.splits)
  then show ?case using Cons plain_step [of e y] by (simp split: option.splits)
qed simp

end
