(* ===== verification/PinProps.thy ===== *)
theory PinProps
  imports PinsThms
begin

text \<open>
  The properties of the pin facade over every interleaving of frames, clicks, drops and
  answers, each with a use on a concrete session.
\<close>

section \<open>A concrete session\<close>

definition empty_storage :: local_storage where
  "empty_storage = \<lparr>ls_items = [], ls_get_throws = False, ls_set_throws = False, ls_writes = 0\<rparr>"

text \<open>The facade after a snapshot of revision 3 with two pins.\<close>

definition demo_pins :: pins_state where
  "demo_pins = (init_pins empty_storage)\<lparr>pinsMode := Server, serverRevision := 3, serverInitialized := True,
     serverOrder := [''a'', ''b'']\<rparr>"

lemma demo_pins_fields [simp]:
  "pinsMode demo_pins = Server" "serverRevision demo_pins = 3" "serverOrder demo_pins = [''a'', ''b'']"
  by (simp_all add: demo_pins_def)

definition pin_response :: "int \<Rightarrow> string list \<Rightarrow> json" where
  "pin_response rv ids = JObj [(''revision'', JNum rv), (''initialized'', JBool True),
     (''orderedSessionIds'', JArr (map JStr ids))]"

section \<open>The migration\<close>

lemma put_not_initialize [simp]:
  "put b xs k s = (t, Some (r, k')) \<Longrightarrow> \<not> rq_initializeOnly r"
  by (auto simp: put_def)

definition claims :: "started \<Rightarrow> bool" where
  "claims st = (case snd st of Some (r, k) \<Rightarrow> rq_initializeOnly r | None \<Rightarrow> False)"

lemma claims_simps [simp]: "\<not> claims (finish s)" "\<not> claims (put b xs k s)" "\<not> claims (s, None)"
  by (simp_all add: claims_def finish_def put_def)

lemma heal_claims [simp]: "\<not> claims (self_heal base rv unknown f s)"
  by (auto simp: self_heal_def Let_def split: option.split)

lemma resume_claims [simp]: "\<not> claims (resume k res s)"
  by (cases k) (auto simp: resume_member_def resume_retry_def resume_reorder_def resume_migration_def Let_def split: option.split)

lemma action_claims [simp]: "\<not> claims (togglePin i s)" "\<not> claims (movePinnedByOffset i d s)"
  by (auto simp: togglePin_def movePinnedByOffset_def performMembershipMutation_def performReorder_def Let_def
      split: option.split)

lemma snapshot_claims:
  "claims (applyPinsSnapshot raw s) \<longleftrightarrow>
     migrationAttempted (fst (applyPinsSnapshot raw s)) \<and> \<not> migrationAttempted s"
  by (auto simp: applyPinsSnapshot_def runMigration_def claims_def Let_def split: option.split)

lemma snapshot_keeps_attempt: "migrationAttempted s \<Longrightarrow> migrationAttempted (fst (applyPinsSnapshot raw s))"
  by (auto simp: applyPinsSnapshot_def runMigration_def Let_def split: option.split)

definition claim_count :: "pins_sys \<Rightarrow> nat" where
  "claim_count y = length (filter rq_initializeOnly (sent y))"

lemma launch_claims:
  "claim_count (launch ks rs st) = length (filter rq_initializeOnly rs) + (if claims st then 1 else 0)"
  by (auto simp: claim_count_def launch_def claims_def split: prod.split option.split)

definition claims_ok :: "pins_sys \<Rightarrow> bool" where
  "claims_ok y \<longleftrightarrow> claim_count y = (if migrationAttempted (pins y) then 1 else 0)"

lemma claims_ok_launch:
  assumes "claims_ok y" and "\<not> claims st" and "migrationAttempted (fst st) = migrationAttempted (pins y)"
  shows "claims_ok (launch ks (sent y) st)"
  using assms unfolding claims_ok_def launch_claims by (simp add: claim_count_def)

lemma claims_step: "claims_ok y \<Longrightarrow> claims_ok (pins_step y e)"
proof (cases e)
  case (PinsSnapshot raw)
  assume "claims_ok y"
  then show ?thesis
    using PinsSnapshot snapshot_claims [of raw "pins y"] snapshot_keeps_attempt [of "pins y" raw]
    by (auto simp: claims_ok_def launch_claims) (auto simp: claim_count_def)
qed (auto simp: action_migration claims_ok_launch, auto simp: claims_ok_def claim_count_def applyPinsUpdated_def
    dropPinnedSession_def clearPinsError_def applyServerOrder_def Let_def split: option.split)

lemma claims_init: "claims_ok (init_sys ls)"
  by (simp add: claims_ok_def claim_count_def init_sys_def init_pins_def)

interpretation pins_claims: invariant_machine pins_step claims_ok
  by unfold_locales (rule claims_step)

text \<open>C29: However many snapshots a session sees, the legacy pins are offered to the server at most once;
  every other PUT is a plain one.\<close>

theorem migration_offered_once:
  "length (filter rq_initializeOnly (sent (foldl pins_step (init_sys ls) es))) \<le> 1"
  using pins_claims.run_preserves [OF claims_init, of ls es] by (simp add: claims_ok_def claim_count_def split: if_splits)

section \<open>Counting\<close>

text \<open>C9: Over every interleaving of events, the pending count is the number of calls whose PUT is still
  unanswered, and the pending signal is on exactly while there is one.\<close>

theorem pending_counts_waiting:
  "pendingCount (pins (foldl pins_step (init_sys ls) es)) = length (waiting (foldl pins_step (init_sys ls) es)) \<and>
   pinsPendingSig (pins (foldl pins_step (init_sys ls) es)) = (waiting (foldl pins_step (init_sys ls) es) \<noteq> [])"
  using pins_pending.run_preserves [OF init_pending_ok, of ls es] by (simp add: pending_ok_def count_ok_def)

text \<open>C10: A session sends at most two PUTs for each click (the second the single retry after a conflict or
  a self-heal) and one for the migration, whatever the server answers.\<close>

theorem puts_bounded:
  "length (sent (foldl pins_step (init_sys ls) es)) \<le> 1 + 2 * length (filter user_action es)"
  using budget_run [of "init_sys ls" es] by (simp add: put_budget_def init_sys_def split: if_splits)

section \<open>What a PUT carries\<close>

text \<open>C11: When the server's lists have no duplicates, neither has any list the facade sends: not after
  optimistic clicks, retries, self-heals, drops or the migration, in any interleaving.\<close>

theorem put_lists_distinct:
  assumes "list_all server_ok es"
  shows "list_all (\<lambda>r. distinct (rq_order r)) (sent (foldl pins_step (init_sys ls) es)) \<and>
    distinct (serverOrder (pins (foldl pins_step (init_sys ls) es)))"
  using orders_distinct_run [OF orders_distinct_init assms, of ls] by (simp add: orders_distinct_def list_all_iff)

theorem put_lists_distinct_witness:
  "list_all (\<lambda>r. distinct (rq_order r)) (sent (foldl pins_step (init_sys empty_storage)
     [PinsSnapshot (pin_response 3 [''a'']), TogglePin ''b'', Settle 0 (Http 409 (pin_response 4 [''c'', ''a'']))]))"
  by (rule put_lists_distinct [THEN conjunct1]) (simp add: doc_distinct_def coercePinDoc_def pin_response_def is_object_def string_array_def List.map_filter_simps)

text \<open>C30: After a conflict whose document is at least as fresh as the client's, the one retry re-applies the
  same intent to the server's list at the server's revision, or is skipped when it is already met.\<close>

theorem conflict_rebases_intent:
  assumes "pr_status res = 409" and "pr_doc res = Some d" and "serverRevision s \<le> pd_revision d"
  shows "serverOrder (fst (resume (AwaitMember i base rv) res s)) = applyMembershipIntent i (pd_order d) \<and>
    serverRevision (fst (resume (AwaitMember i base rv) res s)) = pd_revision d \<and>
    snd (resume (AwaitMember i base rv) res s) =
      (if applyMembershipIntent i (pd_order d) = pd_order d then None
       else Some (\<lparr>rq_baseRevision = pd_revision d, rq_order = applyMembershipIntent i (pd_order d), rq_initializeOnly = False\<rparr>,
                  AwaitMemberRetry (pd_order d) (pd_revision d)))"
  using assms
  by (auto simp: resume_member_def doc_at_def adoptPutResponse_def finish_def put_def applyServerOrder_def Let_def)

theorem conflict_rebases_intent_witness:
  "snd (resume (AwaitMember (Pin ''z'') [''a'', ''b''] 3)
      \<lparr>pr_status = 409, pr_doc = Some \<lparr>pd_revision = 7, pd_initialized = True, pd_order = [''q'']\<rparr>, pr_unknownIds = []\<rparr> demo_pins)
    = Some (\<lparr>rq_baseRevision = 7, rq_order = [''q'', ''z''], rq_initializeOnly = False\<rparr>, AwaitMemberRetry [''q''] 7)"
  using conflict_rebases_intent [of "\<lparr>pr_status = 409, pr_doc = Some \<lparr>pd_revision = 7, pd_initialized = True,
      pd_order = [''q'']\<rparr>, pr_unknownIds = []\<rparr>" "\<lparr>pd_revision = 7, pd_initialized = True, pd_order = [''q'']\<rparr>" demo_pins
      "Pin ''z''" "[''a'', ''b'']" 3]
  by simp

section \<open>Failures\<close>

definition net_failure :: put_result where
  "net_failure = \<lparr>pr_status = 0, pr_doc = None, pr_unknownIds = []\<rparr>"

lemma net_failure_plain [simp]: "plain_failure net_failure"
  by (simp add: plain_failure_def net_failure_def doc_at_def)

lemma demo_toggle:
  "togglePin ''z'' demo_pins = (applyServerOrder [''a'', ''b'', ''z''] (clearPinsError (incPending demo_pins)),
     Some (\<lparr>rq_baseRevision = 3, rq_order = [''a'', ''b'', ''z''], rq_initializeOnly = False\<rparr>,
           AwaitMember (Pin ''z'') [''a'', ''b''] 3))"
  by (simp add: togglePin_def performMembershipMutation_def put_def Let_def)

text \<open>C31: A click whose PUT fails with nothing in between leaves the order and the revision as they were
  before the click and shows the error.\<close>

theorem failed_click_restores:
  assumes "togglePin i s = (s1, Some (r, k)) \<or> movePinnedByOffset i d s = (s1, Some (r, k))" and "plain_failure res"
  shows "\<exists>t. resume k res s1 = (t, None) \<and> serverOrder t = serverOrder s \<and>
    serverRevision t = serverRevision s \<and> pinsErrorSig t = Some (failure_kind res)"
  using assms by (rule failed_action_restores)

theorem failed_click_restores_witness:
  "\<exists>t. resume (AwaitMember (Pin ''z'') [''a'', ''b''] 3) net_failure (fst (togglePin ''z'' demo_pins)) = (t, None) \<and>
    serverOrder t = [''a'', ''b''] \<and> serverRevision t = 3"
proof -
  have "togglePin ''z'' demo_pins = (fst (togglePin ''z'' demo_pins),
      Some (\<lparr>rq_baseRevision = 3, rq_order = [''a'', ''b'', ''z''], rq_initializeOnly = False\<rparr>,
            AwaitMember (Pin ''z'') [''a'', ''b''] 3))"
    by (simp add: demo_toggle)
  from failed_click_restores [OF disjI1 [OF this] net_failure_plain] show ?thesis by auto
qed

text \<open>C12: A failed PUT rolls back to the list it started from only if the revision is still the one it
  was sent at; a frame adopted meanwhile is left as it is.\<close>

theorem late_failure_keeps_fresher_frame:
  assumes "plain_failure res"
  shows "serverOrder (fst (resume k res s)) = (if wait_rev k = Some (serverRevision s) then wait_base k else serverOrder s) \<and>
    serverRevision (fst (resume k res s)) = serverRevision s \<and> snd (resume k res s) = None \<and>
    pinsErrorSig (fst (resume k res s)) = Some (failure_kind res)"
  using plain_failure_result [OF assms, of k s] by (simp add: finish_def setError_def applyServerOrder_def)

theorem late_failure_keeps_fresher_frame_witness:
  "serverOrder (fst (resume (AwaitMember (Pin ''z'') [''a''] 2) net_failure demo_pins)) = [''a'', ''b'']"
  using late_failure_keeps_fresher_frame [OF net_failure_plain, of "AwaitMember (Pin ''z'') [''a''] 2" demo_pins] by simp

text \<open>C32: A session dropped while a click's PUT is in flight comes back when that PUT fails: the drop leaves
  the revision alone, so the rollback to the list before the click still applies.\<close>

theorem dropped_session_returns:
  assumes "togglePin i s = (s1, Some (r, k))" and "plain_failure res"
  shows "serverOrder (fst (resume k res (dropPinnedSession d s1))) = serverOrder s"
proof -
  have k: "wait_base k = serverOrder s" "wait_rev k = Some (serverRevision s)" "serverRevision s1 = serverRevision s"
    using assms(1) by (auto simp: togglePin_def performMembershipMutation_def put_def finish_def Let_def split: if_splits)
  have "serverRevision (dropPinnedSession d s1) = serverRevision s1"
    by (simp add: dropPinnedSession_def applyServerOrder_def Let_def)
  then show ?thesis
    using plain_failure_result [OF assms(2), of k "dropPinnedSession d s1"] k by (simp add: finish_def)
qed

theorem dropped_session_returns_witness:
  "serverOrder (dropPinnedSession ''a'' (fst (togglePin ''z'' demo_pins))) = [''b'', ''z''] \<and>
   serverOrder (fst (resume (AwaitMember (Pin ''z'') [''a'', ''b''] 3) net_failure
     (dropPinnedSession ''a'' (fst (togglePin ''z'' demo_pins))))) = [''a'', ''b'']"
proof -
  have "serverOrder (fst (resume (AwaitMember (Pin ''z'') [''a'', ''b''] 3) net_failure
     (dropPinnedSession ''a'' (applyServerOrder [''a'', ''b'', ''z''] (clearPinsError (incPending demo_pins)))))) = serverOrder demo_pins"
    by (rule dropped_session_returns [OF demo_toggle net_failure_plain])
  then show ?thesis
    by (simp add: demo_toggle dropPinnedSession_def clearPinsError_def applyServerOrder_def Let_def)
qed

section \<open>Adoption\<close>

text \<open>C13: Start from a snapshot, which is adopted whatever its revision, and let any events without a further
  snapshot follow: clicks, drops, update frames, and answers in any order. The client's revision is then the
  greatest among the snapshot's and those of all update frames and 200 or 409 answers since. If from the
  arrival of the newest of these documents on nothing but update frames, 200 answers and dismissals of the
  error arrive, all confirmed documents after it being older, the client ends on its list and initialised
  flag, whatever came before it. The same holds of an initialised snapshot that is itself the newest.\<close>

theorem newest_document_wins:
  assumes "coercePinDoc raw = Some d0" and "list_all (\<lambda>e. \<not> is_snapshot e) es"
  shows "let y1 = pins_step y (PinsSnapshot raw); z = foldl pins_step y1 es in
    serverRevision (pins z) = Max (pd_revision ` set (d0 # confirmed_run y1 es)) \<and>
    (\<forall>xs e ys d. es = xs @ e # ys \<and> list_all plain_confirm (e # ys) \<and> confirmed (foldl pins_step y1 xs) e = Some d \<and>
       (\<forall>d' \<in> set (d0 # confirmed_run y1 xs). pd_revision d' \<le> pd_revision d) \<and>
       (\<forall>d' \<in> set (confirmed_run (pins_step (foldl pins_step y1 xs) e) ys). pd_revision d' < pd_revision d) \<longrightarrow>
       shown_doc z = (pd_order d, pd_initialized d)) \<and>
    (pd_initialized d0 \<and> list_all plain_confirm es \<and> (\<forall>d' \<in> set (confirmed_run y1 es). pd_revision d' < pd_revision d0) \<longrightarrow>
       shown_doc z = (pd_order d0, True))"
proof -
  let ?y = "pins_step y (PinsSnapshot raw)"
  have start: "serverRevision (pins ?y) = pd_revision d0" "pd_initialized d0 \<longrightarrow> shown_doc ?y = (pd_order d0, True)"
    using assms(1) by (simp_all add: applyPinsSnapshot_def runMigration_def shown_doc_def Let_def)
  have rev: "serverRevision (pins (foldl pins_step ?y xs)) = Max (pd_revision ` set (d0 # confirmed_run ?y xs))"
    if "list_all (\<lambda>e. \<not> is_snapshot e) xs" for xs
    using confirmed_revision [OF that, of ?y] Max.set_eq_fold [of "pd_revision d0" "map pd_revision (confirmed_run ?y xs)"]
    by (simp add: start(1) del: pins_step.simps)
  have "shown_doc (foldl pins_step ?y es) = (pd_order d, pd_initialized d)"
    if es: "es = xs @ e # ys" and plain: "list_all plain_confirm (e # ys)"
      and d: "confirmed (foldl pins_step ?y xs) e = Some d"
      and before: "\<forall>d' \<in> set (d0 # confirmed_run ?y xs). pd_revision d' \<le> pd_revision d"
      and after: "\<forall>d' \<in> set (confirmed_run (pins_step (foldl pins_step ?y xs) e) ys). pd_revision d' < pd_revision d" for xs e ys d
  proof -
    let ?x = "foldl pins_step ?y xs"
    have "serverRevision (pins ?x) \<le> pd_revision d"
      using rev [of xs] assms(2) before by (simp add: es del: pins_step.simps)
    moreover have "\<not> is_snapshot e" using assms(2) by (simp add: es)
    ultimately have "serverRevision (pins (pins_step ?x e)) = pd_revision d"
      "shown_doc (pins_step ?x e) = (pd_order d, pd_initialized d)"
      using confirmed_step [of e ?x] plain_step [of e ?x] plain d by (simp_all del: pins_step.simps)
    then show ?thesis using stale_confirms_keep [of ys "pins_step ?x e"] plain after by (simp add: es del: pins_step.simps)
  qed
  moreover have "shown_doc (foldl pins_step ?y es) = (pd_order d0, True)"
    if "pd_initialized d0" "list_all plain_confirm es" "\<forall>d' \<in> set (confirmed_run ?y es). pd_revision d' < pd_revision d0"
    using stale_confirms_keep [of es ?y] that start by (simp del: pins_step.simps)
  ultimately show ?thesis using rev [OF assms(2)] unfolding Let_def by blast
qed

lemma pin_response_doc [simp]:
  "coercePinDoc (pin_response rv ids) = Some \<lparr>pd_revision = rv, pd_initialized = True, pd_order = ids\<rparr>"
  by (simp add: pin_response_def coercePinDoc_def is_object_def)

text \<open>A snapshot of revision 3, a click, the update of revision 5, and only then the click's answer, of
  revision 4: the client ends on revision 5.\<close>

theorem newest_document_wins_witness:
  "let z = foldl pins_step (pins_step (init_sys empty_storage) (PinsSnapshot (pin_response 3 [''a''])))
       [TogglePin ''b'', PinsUpdated (pin_response 5 [''x'']), Settle 0 (Http 200 (pin_response 4 [''a'', ''b'']))]
   in serverRevision (pins z) = 5 \<and> shown_doc z = ([''x''], True)"
proof -
  let ?update = "PinsUpdated (pin_response 5 [''x''])" and ?late = "Settle 0 (Http 200 (pin_response 4 [''a'', ''b'']))"
  let ?d = "\<lambda>rv ids. \<lparr>pd_revision = rv, pd_initialized = True, pd_order = ids\<rparr> :: pin_doc"
  let ?y1 = "pins_step (init_sys empty_storage) (PinsSnapshot (pin_response 3 [''a'']))"
  let ?x = "pins_step ?y1 (TogglePin ''b'')"
  have "waiting (pins_step ?x ?update) = [AwaitMember (Pin ''b'') [''a''] 3]"
    by (simp add: applyPinsSnapshot_def togglePin_def performMembershipMutation_def put_def clearPinsError_def
        init_sys_def Let_def)
  then have docs: "confirmed ?y1 (TogglePin ''b'') = None" "confirmed ?x ?update = Some (?d 5 [''x''])"
    "confirmed (pins_step ?x ?update) ?late = Some (?d 4 [''a'', ''b''])"
    by (simp_all add: answered_def putPins_result_def del: pins_step.simps)
  note t = newest_document_wins [of "pin_response 3 [''a'']" "?d 3 [''a'']" "[TogglePin ''b'', ?update, ?late]" "init_sys empty_storage",
      OF pin_response_doc, unfolded Let_def]
  have "serverRevision (pins (foldl pins_step ?y1 [TogglePin ''b'', ?update, ?late])) = 5"
    using conjunct1 [OF t] by (simp add: docs del: pins_step.simps confirmed.simps)
  moreover have "shown_doc (foldl pins_step ?y1 [TogglePin ''b'', ?update, ?late]) = ([''x''], True)"
    using t [THEN conjunct2, THEN conjunct1, THEN spec [of _ "[TogglePin ''b'']"], THEN spec [of _ ?update],
        THEN spec [of _ "[?late]"], THEN spec [of _ "?d 5 [''x'']"]]
    by (simp add: docs del: pins_step.simps confirmed.simps)
  ultimately show ?thesis unfolding Let_def by blast
qed

text \<open>The self-heal does not look at the revision: unpinning an id the server rejects as unknown writes
  the cleaned list of the click over whatever a frame brought meanwhile, and keeps that frame's revision.\<close>

lemma heal_overwrites_fresher_frame:
  assumes "pr_status res = 400" and "pr_unknownIds res = [i]"
  shows "serverOrder (fst (resume (AwaitMember (Unpin i) base rv) res s)) = filter (\<lambda>x. x \<noteq> i) base \<and>
    serverRevision (fst (resume (AwaitMember (Unpin i) base rv) res s)) = serverRevision s"
  using assms
  by (auto simp: resume_member_def doc_at_def self_heal_def finish_def applyServerOrder_def Let_def)

end
