(* ===== verification/Labels.thy ===== *)
theory Labels
  imports VersionedStore Authority DragReorder "HOL-Library.Word"
begin

text \<open>
  \<^verbatim>\<open>web/src/labels.ts\<close>: the client facade over the project's label authority (exclusive
  groups of root sessions, and tags). A mutation is an intent, a pure transform of the
  whole document; \<^verbatim>\<open>performMutation\<close> applies it optimistically, PUTs the result and rebases
  the same intent once on a 409 or 400. As for the pins, an action runs to its \<^verbatim>\<open>await\<close> and
  leaves a continuation, here with the scope generation it was started in.
\<close>

section \<open>Documents\<close>

record label_group =
  lg_id :: string
  lg_name :: string
  lg_color :: string
  lg_collapsed :: bool
  lg_roots :: "string list"

record label_tag =
  lt_id :: string
  lt_name :: string
  lt_color :: string

type_synonym tag_assign = "(string, string list) jsmap"

record labels_doc =
  ld_revision :: int
  ld_groups :: "label_group list"
  ld_tags :: "label_tag list"
  ld_assign :: tag_assign

definition string_or_empty :: "json option \<Rightarrow> string" where
  "string_or_empty j = (case as_string j of Some s \<Rightarrow> s | None \<Rightarrow> [])"

text \<open>\<^verbatim>\<open>if (r === "" || seen.has(r)) continue; seen.add(r); out.push(r);\<close>\<close>

definition dedupe_nonempty :: "string list \<Rightarrow> string list" where
  "dedupe_nonempty rs = fold (\<lambda>r out. if r = [] \<or> r \<in> set out then out else out @ [r]) rs []"

text \<open>One raw group: \<open>None\<close> when the loop continues before the duplicate test.\<close>

definition coerce_group :: "json \<Rightarrow> label_group option" where
  "coerce_group rg =
     (if \<not> is_object rg then None
      else let i = string_or_empty (json_field rg ''id'')
           in if i = [] then None
              else Some \<lparr>lg_id = i, lg_name = string_or_empty (json_field rg ''name''),
                lg_color = string_or_empty (json_field rg ''color''),
                lg_collapsed = (case as_bool (json_field rg ''collapsed'') of Some b \<Rightarrow> b | None \<Rightarrow> False),
                lg_roots = dedupe_nonempty (string_array (json_field rg ''orderedRootSessionIds''))\<rparr>)"

definition coerce_groups :: "json list \<Rightarrow> label_group list" where
  "coerce_groups rgs =
     fold (\<lambda>rg groups. case coerce_group rg of
             None \<Rightarrow> groups
           | Some g \<Rightarrow> if lg_id g \<in> lg_id ` set groups then groups else groups @ [g]) rgs []"

text \<open>Exclusive groups: a root stays in the first group that lists it.\<close>

definition claim_roots :: "string list \<Rightarrow> string list \<Rightarrow> string list \<times> string list" where
  "claim_roots owner rs =
     fold (\<lambda>r (owner, kept). if r \<in> set owner then (owner, kept) else (owner @ [r], kept @ [r])) rs (owner, [])"

definition exclusive_groups :: "label_group list \<Rightarrow> label_group list" where
  "exclusive_groups groups =
     snd (fold (\<lambda>g (owner, out).
             let (owner', kept) = claim_roots owner (lg_roots g)
             in (owner', out @ [if length kept \<noteq> length (lg_roots g) then g\<lparr>lg_roots := kept\<rparr> else g]))
           groups ([], []))"

definition coerce_tag :: "json \<Rightarrow> label_tag option" where
  "coerce_tag rt =
     (if \<not> is_object rt then None
      else let i = string_or_empty (json_field rt ''id'')
           in if i = [] then None
              else Some \<lparr>lt_id = i, lt_name = string_or_empty (json_field rt ''name''),
                lt_color = string_or_empty (json_field rt ''color'')\<rparr>)"

definition coerce_tags :: "json list \<Rightarrow> label_tag list" where
  "coerce_tags rts =
     fold (\<lambda>rt tags. case coerce_tag rt of
             None \<Rightarrow> tags
           | Some t \<Rightarrow> if lt_id t \<in> lt_id ` set tags then tags else tags @ [t]) rts []"

definition coerce_assign :: "string list \<Rightarrow> json option \<Rightarrow> tag_assign" where
  "coerce_assign tagIds raw =
     (case raw of
        Some (JObj kvs) \<Rightarrow>
          fold (\<lambda>(rootId, rawIds) out.
                  if rootId = [] then out
                  else let cleaned = fold (\<lambda>tid acc. if tid = [] \<or> tid \<in> set acc then acc
                                              else if tid \<notin> set tagIds then acc else acc @ [tid])
                                       (string_array (Some rawIds)) []
                       in if length cleaned > 0 then js_set rootId cleaned out else out) kvs []
      | _ \<Rightarrow> [])"

definition array_or_empty :: "json option \<Rightarrow> json list" where
  "array_or_empty j = (case as_array j of Some xs \<Rightarrow> xs | None \<Rightarrow> [])"

definition coerceLabelsDoc :: "json \<Rightarrow> labels_doc option" where
  "coerceLabelsDoc j =
     (if \<not> is_object j then None
      else let groups = exclusive_groups (coerce_groups (array_or_empty (json_field j ''groups'')));
               tags = coerce_tags (array_or_empty (json_field j ''tags''))
           in Some \<lparr>ld_revision = (case as_number (json_field j ''revision'') of Some r \<Rightarrow> r | None \<Rightarrow> 0),
                ld_groups = groups, ld_tags = tags,
                ld_assign = coerce_assign (map lt_id tags) (json_field j ''tagIdsByRootSessionId'')\<rparr>)"

section \<open>Intents\<close>

text \<open>\<^verbatim>\<open>newId\<close>: a prefix and two hex digits for each of the random bytes.\<close>

definition hex_digit :: "nat \<Rightarrow> char" where
  "hex_digit n = char_of (if n < 10 then 48 + n else 87 + n)"

definition newId :: "string \<Rightarrow> 8 word list \<Rightarrow> string" where
  "newId pfx bytes = pfx @ concat (map (\<lambda>b. [hex_digit (unat b div 16), hex_digit (unat b mod 16)]) bytes)"

datatype label_intent =
    CreateGroup string string string
  | RenameGroup string string
  | SetGroupColor string string
  | DeleteGroup string
  | ReorderGroup string int
  | MoveRootToGroup string "string option"
  | ToggleGroupCollapse string
  | CreateTag string string string
  | DeleteTag string
  | AddRootTag string string
  | RemoveRootTag string string

definition createGroup :: "8 word list \<Rightarrow> string \<Rightarrow> string \<Rightarrow> label_intent" where
  "createGroup bytes name color = CreateGroup (newId ''lg-'' bytes) name color"

definition createTag :: "8 word list \<Rightarrow> string \<Rightarrow> string \<Rightarrow> label_intent" where
  "createTag bytes name color = CreateTag (newId ''lt-'' bytes) name color"

text \<open>\<^verbatim>\<open>groups.map((g) => g.id !== groupId ? g : {...g, ...})\<close>, the document itself when no group matches.\<close>

definition edit_group :: "string \<Rightarrow> (label_group \<Rightarrow> label_group) \<Rightarrow> labels_doc \<Rightarrow> labels_doc" where
  "edit_group i f d =
     (if i \<in> lg_id ` set (ld_groups d)
      then d\<lparr>ld_groups := map (\<lambda>g. if lg_id g \<noteq> i then g else f g) (ld_groups d)\<rparr> else d)"

definition reorder_group :: "string \<Rightarrow> int \<Rightarrow> labels_doc \<Rightarrow> labels_doc" where
  "reorder_group i newIndex d =
     (let k = index_of (map lg_id (ld_groups d)) i;
          clamped = max 0 (min newIndex (int (length (ld_groups d)) - 1))
      in if k < 0 then d
         else if k = clamped then d
         else d\<lparr>ld_groups := moveItem (ld_groups d) k clamped\<rparr>)"

definition move_root :: "string \<Rightarrow> string option \<Rightarrow> label_group \<Rightarrow> label_group" where
  "move_root r target g =
     (let filtered = filter (\<lambda>x. x \<noteq> r) (lg_roots g)
      in if Some (lg_id g) = target then g\<lparr>lg_roots := filtered @ [r]\<rparr>
         else if length filtered = length (lg_roots g) then g
         else g\<lparr>lg_roots := filtered\<rparr>)"

definition strip_tag :: "string \<Rightarrow> tag_assign \<Rightarrow> tag_assign" where
  "strip_tag t a = fold (\<lambda>(root, ids) out.
     let filtered = filter (\<lambda>x. x \<noteq> t) ids in if length filtered > 0 then js_set root filtered out else out) a []"

fun apply_intent :: "label_intent \<Rightarrow> labels_doc \<Rightarrow> labels_doc" where
  "apply_intent (CreateGroup i name color) d = d\<lparr>ld_groups := ld_groups d @
     [\<lparr>lg_id = i, lg_name = name, lg_color = color, lg_collapsed = False, lg_roots = []\<rparr>]\<rparr>"
| "apply_intent (RenameGroup i name) d = edit_group i (\<lambda>g. g\<lparr>lg_name := name\<rparr>) d"
| "apply_intent (SetGroupColor i color) d = edit_group i (\<lambda>g. g\<lparr>lg_color := color\<rparr>) d"
| "apply_intent (DeleteGroup i) d = d\<lparr>ld_groups := filter (\<lambda>g. lg_id g \<noteq> i) (ld_groups d)\<rparr>"
| "apply_intent (ReorderGroup i n) d = reorder_group i n d"
| "apply_intent (MoveRootToGroup r target) d = d\<lparr>ld_groups := map (move_root r target) (ld_groups d)\<rparr>"
| "apply_intent (ToggleGroupCollapse i) d = edit_group i (\<lambda>g. g\<lparr>lg_collapsed := \<not> lg_collapsed g\<rparr>) d"
| "apply_intent (CreateTag i name color) d = d\<lparr>ld_tags := ld_tags d @ [\<lparr>lt_id = i, lt_name = name, lt_color = color\<rparr>]\<rparr>"
| "apply_intent (DeleteTag t) d = d\<lparr>ld_tags := filter (\<lambda>x. lt_id x \<noteq> t) (ld_tags d), ld_assign := strip_tag t (ld_assign d)\<rparr>"
| "apply_intent (AddRootTag r t) d =
     (if t \<notin> lt_id ` set (ld_tags d) then d
      else let cur = (case js_get (ld_assign d) r of Some ids \<Rightarrow> ids | None \<Rightarrow> [])
           in if t \<in> set cur then d else d\<lparr>ld_assign := js_set r (cur @ [t]) (ld_assign d)\<rparr>)"
| "apply_intent (RemoveRootTag r t) d =
     (case js_get (ld_assign d) r of
        None \<Rightarrow> d
      | Some cur \<Rightarrow>
          if t \<notin> set cur then d
          else let filtered = filter (\<lambda>x. x \<noteq> t) cur
               in if length filtered = 0 then d\<lparr>ld_assign := js_delete r (ld_assign d)\<rparr>
                  else d\<lparr>ld_assign := js_set r filtered (ld_assign d)\<rparr>)"

definition contentEqual :: "labels_doc \<Rightarrow> labels_doc \<Rightarrow> bool" where
  "contentEqual a b \<longleftrightarrow> ld_groups a = ld_groups b \<and> ld_tags a = ld_tags b \<and>
     length (js_keys (ld_assign a)) = length (js_keys (ld_assign b)) \<and>
     list_all (\<lambda>k. js_get (ld_assign b) k \<noteq> None \<and> js_get (ld_assign a) k = js_get (ld_assign b) k)
       (js_keys (ld_assign a))"

section \<open>State, adoption and rollback\<close>

datatype label_error = LabelsConflict | LabelsNetwork | LabelsError

record labels_state =
  serverGroups :: "label_group list"
  serverTags :: "label_tag list"
  serverTagAssign :: tag_assign
  l_revision :: int
  connectedSig :: bool
  l_pendingCount :: nat
  labelsPendingSig :: bool
  labelsErrorSig :: "label_error option"
  labelsScopeGen :: nat

definition init_labels :: labels_state where
  "init_labels = \<lparr>serverGroups = [], serverTags = [], serverTagAssign = [], l_revision = 0, connectedSig = False,
     l_pendingCount = 0, labelsPendingSig = False, labelsErrorSig = None, labelsScopeGen = 0\<rparr>"

definition l_incPending :: "labels_state \<Rightarrow> labels_state" where
  "l_incPending s = s\<lparr>l_pendingCount := l_pendingCount s + 1, labelsPendingSig := True\<rparr>"

definition l_decPending :: "labels_state \<Rightarrow> labels_state" where
  "l_decPending s = s\<lparr>l_pendingCount := l_pendingCount s - 1,
     labelsPendingSig := (if l_pendingCount s - 1 = 0 then False else labelsPendingSig s)\<rparr>"

definition resetLabelsScope :: "labels_state \<Rightarrow> labels_state" where
  "resetLabelsScope s = s\<lparr>serverGroups := [], serverTags := [], serverTagAssign := [], l_revision := 0,
     connectedSig := False, labelsPendingSig := False, labelsErrorSig := None, l_pendingCount := 0,
     labelsScopeGen := labelsScopeGen s + 1\<rparr>"

definition currentServerDoc :: "labels_state \<Rightarrow> labels_doc" where
  "currentServerDoc s = \<lparr>ld_revision = l_revision s, ld_groups = serverGroups s, ld_tags = serverTags s,
     ld_assign = serverTagAssign s\<rparr>"

definition applyDoc :: "labels_doc \<Rightarrow> labels_state \<Rightarrow> labels_state" where
  "applyDoc d s = s\<lparr>serverGroups := ld_groups d, serverTags := ld_tags d, serverTagAssign := ld_assign d\<rparr>"

definition l_adoptServerDoc :: "labels_doc \<Rightarrow> labels_state \<Rightarrow> labels_state" where
  "l_adoptServerDoc d s = s\<lparr>serverGroups := ld_groups d, serverTags := ld_tags d, serverTagAssign := ld_assign d,
     l_revision := ld_revision d, connectedSig := True, labelsErrorSig := None\<rparr>"

definition l_adoptPutResponse :: "labels_doc \<Rightarrow> labels_state \<Rightarrow> labels_state" where
  "l_adoptPutResponse d s = (if ld_revision d < l_revision s then s else l_adoptServerDoc d s)"

definition rollbackDocIfUnchanged :: "labels_doc \<Rightarrow> int \<Rightarrow> labels_state \<Rightarrow> labels_state" where
  "rollbackDocIfUnchanged baseline issueRevision s =
     (if l_revision s \<noteq> issueRevision then s else applyDoc baseline s)"

definition l_setError :: "label_error \<Rightarrow> labels_state \<Rightarrow> labels_state" where
  "l_setError e s = s\<lparr>labelsErrorSig := Some e\<rparr>"

definition clearLabelsError :: "labels_state \<Rightarrow> labels_state" where
  "clearLabelsError s = s\<lparr>labelsErrorSig := None\<rparr>"

text \<open>The test hook also goes back to the first scope.\<close>

definition resetLabelsForTest :: "labels_state \<Rightarrow> labels_state" where
  "resetLabelsForTest s = (resetLabelsScope s)\<lparr>labelsScopeGen := 0\<rparr>"

section \<open>The mutation engine\<close>

datatype l_response = L_NetworkError | L_Http int json

record l_result =
  lr_status :: int
  lr_doc :: "labels_doc option"

definition putLabels_result :: "l_response \<Rightarrow> l_result" where
  "putLabels_result resp =
     (case resp of
        L_NetworkError \<Rightarrow> \<lparr>lr_status = 0, lr_doc = None\<rparr>
      | L_Http st body \<Rightarrow>
          if st = 200 \<or> st = 409 then \<lparr>lr_status = st, lr_doc = coerceLabelsDoc body\<rparr>
          else if st = 400 then \<lparr>lr_status = 400, lr_doc = coerceLabelsDoc body\<rparr>
          else \<lparr>lr_status = st, lr_doc = None\<rparr>)"

definition l_failure :: "l_result \<Rightarrow> label_error" where
  "l_failure r = (if lr_status r = 0 then LabelsNetwork else LabelsError)"

text \<open>A PUT in flight: its base revision and the document it carries.\<close>

record l_request =
  lq_baseRevision :: int
  lq_doc :: labels_doc

datatype l_cont =
    AwaitFirst label_intent labels_doc int nat
  | AwaitRetry labels_doc int nat

fun cont_gen :: "l_cont \<Rightarrow> nat" where
  "cont_gen (AwaitFirst i d r g) = g"
| "cont_gen (AwaitRetry d r g) = g"

type_synonym l_started = "labels_state \<times> (l_request \<times> l_cont) option"

definition l_put :: "int \<Rightarrow> labels_doc \<Rightarrow> l_cont \<Rightarrow> labels_state \<Rightarrow> l_started" where
  "l_put base d k s = (s, Some (\<lparr>lq_baseRevision = base, lq_doc = d\<rparr>, k))"

definition l_finish :: "labels_state \<Rightarrow> l_started" where
  "l_finish s = (l_decPending s, None)"

definition performMutation :: "label_intent \<Rightarrow> labels_state \<Rightarrow> l_started" where
  "performMutation intent s0 =
     (let s = l_incPending s0;
          scopeGen = labelsScopeGen s;
          baseDoc = currentServerDoc s;
          baseRev = l_revision s;
          target = apply_intent intent baseDoc
      in if contentEqual target baseDoc then l_finish s
         else l_put baseRev target (AwaitFirst intent baseDoc baseRev scopeGen)
                (applyDoc target (clearLabelsError s)))"

definition l_doc_at :: "int list \<Rightarrow> l_result \<Rightarrow> labels_doc option" where
  "l_doc_at sts res = (if lr_status res \<in> set sts then lr_doc res else None)"

text \<open>A result of another scope is dropped: nothing changes, and the \<^verbatim>\<open>finally\<close> does not count.\<close>

fun l_resume :: "l_cont \<Rightarrow> l_result \<Rightarrow> labels_state \<Rightarrow> l_started" where
  "l_resume (AwaitFirst intent baseDoc baseRev scopeGen) res s =
     (if scopeGen \<noteq> labelsScopeGen s then (s, None)
      else case l_doc_at [200] res of
             Some d \<Rightarrow> l_finish (l_adoptPutResponse d s)
           | None \<Rightarrow>
          (case l_doc_at [409, 400] res of
             Some d \<Rightarrow>
               (let s1 = l_adoptPutResponse d s;
                    adoptedDoc = currentServerDoc s1;
                    retryTarget = apply_intent intent adoptedDoc
                in if contentEqual retryTarget adoptedDoc then l_finish s1
                   else l_put (l_revision s1) retryTarget (AwaitRetry adoptedDoc (l_revision s1) scopeGen)
                          (applyDoc retryTarget s1))
           | None \<Rightarrow> l_finish (l_setError (l_failure res) (rollbackDocIfUnchanged baseDoc baseRev s))))"
| "l_resume (AwaitRetry adoptedDoc retryRev scopeGen) res s =
     (if scopeGen \<noteq> labelsScopeGen s then (s, None)
      else case l_doc_at [200] res of
             Some d \<Rightarrow> l_finish (l_adoptPutResponse d s)
           | None \<Rightarrow>
          (case l_doc_at [409, 400] res of
             Some d \<Rightarrow> l_finish (l_setError LabelsConflict (l_adoptPutResponse d s))
           | None \<Rightarrow> l_finish (l_setError (l_failure res) (rollbackDocIfUnchanged adoptedDoc retryRev s))))"

section \<open>Frames, the local drop, and the machine\<close>

definition applyLabelsSnapshot :: "json \<Rightarrow> labels_state \<Rightarrow> labels_state" where
  "applyLabelsSnapshot raw s = (case coerceLabelsDoc raw of None \<Rightarrow> s | Some d \<Rightarrow> l_adoptServerDoc d s)"

definition applyLabelsUpdated :: "json \<Rightarrow> labels_state \<Rightarrow> labels_state" where
  "applyLabelsUpdated raw s =
     (case coerceLabelsDoc raw of
        None \<Rightarrow> s
      | Some d \<Rightarrow> if ld_revision d < l_revision s then s else l_adoptServerDoc d s)"

definition drop_root :: "string \<Rightarrow> label_group \<Rightarrow> label_group" where
  "drop_root i g = (let filtered = filter (\<lambda>r. r \<noteq> i) (lg_roots g)
     in if length filtered = length (lg_roots g) then g else g\<lparr>lg_roots := filtered\<rparr>)"

definition dropLabelRoot :: "string \<Rightarrow> labels_state \<Rightarrow> labels_state" where
  "dropLabelRoot i s =
     (if \<not> connectedSig s then s
      else let cur = currentServerDoc s;
               groups = map (drop_root i) (ld_groups cur);
               assign = (if js_has (ld_assign cur) i then js_delete i (ld_assign cur) else ld_assign cur);
               changed = (\<exists>g \<in> set (ld_groups cur). length (filter (\<lambda>r. r \<noteq> i) (lg_roots g)) \<noteq> length (lg_roots g))
                 \<or> js_has (ld_assign cur) i
           in if \<not> changed then s else applyDoc (cur\<lparr>ld_groups := groups, ld_assign := assign\<rparr>) s)"

record labels_sys =
  labels :: labels_state
  l_waiting :: "l_cont list"
  l_sent :: "l_request list"

datatype labels_event =
    LabelsSnapshot json
  | LabelsUpdated json
  | Mutate label_intent
  | DropRoot string
  | ClearLabelsError
  | ResetScope
  | LabelsSettle nat l_response

definition l_launch :: "l_cont list \<Rightarrow> l_request list \<Rightarrow> l_started \<Rightarrow> labels_sys" where
  "l_launch ks rs st =
     (case st of
        (s, None) \<Rightarrow> \<lparr>labels = s, l_waiting = ks, l_sent = rs\<rparr>
      | (s, Some (r, k)) \<Rightarrow> \<lparr>labels = s, l_waiting = ks @ [k], l_sent = rs @ [r]\<rparr>)"

fun labels_step :: "labels_sys \<Rightarrow> labels_event \<Rightarrow> labels_sys" where
  "labels_step y (LabelsSnapshot raw) = y\<lparr>labels := applyLabelsSnapshot raw (labels y)\<rparr>"
| "labels_step y (LabelsUpdated raw) = y\<lparr>labels := applyLabelsUpdated raw (labels y)\<rparr>"
| "labels_step y (Mutate i) = l_launch (l_waiting y) (l_sent y) (performMutation i (labels y))"
| "labels_step y (DropRoot r) = y\<lparr>labels := dropLabelRoot r (labels y)\<rparr>"
| "labels_step y ClearLabelsError = y\<lparr>labels := clearLabelsError (labels y)\<rparr>"
| "labels_step y ResetScope = y\<lparr>labels := resetLabelsScope (labels y)\<rparr>"
| "labels_step y (LabelsSettle k resp) =
     (if k < length (l_waiting y)
      then l_launch (take k (l_waiting y) @ drop (Suc k) (l_waiting y)) (l_sent y)
             (l_resume (l_waiting y ! k) (putLabels_result resp) (labels y))
      else y)"

definition init_labels_sys :: labels_sys where
  "init_labels_sys = \<lparr>labels = init_labels, l_waiting = [], l_sent = []\<rparr>"

end
