(* ===== verification/LabelsDoc.thy ===== *)
theory LabelsDoc
  imports Labels
begin

text \<open>
  Label documents: the coercion of a frame always yields a well-formed document and leaves
  a well-formed one alone, every intent keeps documents well formed, and what the intents
  do to the membership of a root.
\<close>

section \<open>Well-formed documents\<close>

definition groups_wf :: "label_group list \<Rightarrow> bool" where
  "groups_wf gs \<longleftrightarrow> distinct (map lg_id gs) \<and> [] \<notin> lg_id ` set gs \<and>
     distinct (concat (map lg_roots gs)) \<and> [] \<notin> set (concat (map lg_roots gs))"

definition tags_wf :: "label_tag list \<Rightarrow> bool" where
  "tags_wf ts \<longleftrightarrow> distinct (map lt_id ts) \<and> [] \<notin> lt_id ` set ts"

definition assign_wf :: "string list \<Rightarrow> tag_assign \<Rightarrow> bool" where
  "assign_wf tids a \<longleftrightarrow> js_wf a \<and>
     (\<forall>(r, ids) \<in> set a. r \<noteq> [] \<and> ids \<noteq> [] \<and> distinct ids \<and> [] \<notin> set ids \<and> set ids \<subseteq> set tids)"

definition ldoc_wf :: "labels_doc \<Rightarrow> bool" where
  "ldoc_wf d \<longleftrightarrow> groups_wf (ld_groups d) \<and> tags_wf (ld_tags d) \<and> assign_wf (map lt_id (ld_tags d)) (ld_assign d)"

section \<open>The coercion\<close>

lemma dedupe_nonempty_wf [simp]: "distinct (dedupe_nonempty rs)" "[] \<notin> set (dedupe_nonempty rs)"
proof -
  let ?f = "\<lambda>r out. if r = [] \<or> r \<in> set out then out else out @ [r]"
  have "distinct out \<and> [] \<notin> set out \<Longrightarrow> distinct (fold ?f rs out) \<and> [] \<notin> set (fold ?f rs out)" for out :: "string list"
  proof (induction rs arbitrary: out)
    case (Cons r rs)
    have "distinct (?f r out) \<and> [] \<notin> set (?f r out)" using Cons.prems by auto
    then show ?case using Cons.IH [of "?f r out"] by simp
  qed simp
  from this [of "[]"] show "distinct (dedupe_nonempty rs)" "[] \<notin> set (dedupe_nonempty rs)"
    by (simp_all add: dedupe_nonempty_def)
qed

lemma dedupe_nonempty_same: "distinct rs \<Longrightarrow> [] \<notin> set rs \<Longrightarrow> dedupe_nonempty rs = rs"
proof -
  have "distinct (out @ rs) \<Longrightarrow> [] \<notin> set rs \<Longrightarrow>
      fold (\<lambda>r out. if r = [] \<or> r \<in> set out then out else out @ [r]) rs out = out @ rs" for out :: "string list"
  proof (induction rs arbitrary: out)
    case (Cons r rs)
    then show ?case using Cons.IH [of "out @ [r]"] by auto
  qed simp
  from this [of "[]"] show "distinct rs \<Longrightarrow> [] \<notin> set rs \<Longrightarrow> dedupe_nonempty rs = rs"
    by (simp add: dedupe_nonempty_def)
qed

lemma coerce_group_wf:
  "coerce_group rg = Some g \<Longrightarrow> lg_id g \<noteq> [] \<and> distinct (lg_roots g) \<and> [] \<notin> set (lg_roots g)"
  by (auto simp: coerce_group_def Let_def split: if_splits)

definition raw_groups_ok :: "label_group list \<Rightarrow> bool" where
  "raw_groups_ok gs \<longleftrightarrow> distinct (map lg_id gs) \<and> [] \<notin> lg_id ` set gs \<and>
     (\<forall>g \<in> set gs. distinct (lg_roots g) \<and> [] \<notin> set (lg_roots g))"

lemma raw_groups_ok_snoc:
  "raw_groups_ok (gs @ [g]) \<longleftrightarrow> raw_groups_ok gs \<and> lg_id g \<notin> lg_id ` set gs \<and> lg_id g \<noteq> [] \<and>
     distinct (lg_roots g) \<and> [] \<notin> set (lg_roots g)"
  by (auto simp: raw_groups_ok_def)

lemma coerce_groups_ok: "raw_groups_ok (coerce_groups rgs)"
proof -
  let ?f = "\<lambda>rg groups. case coerce_group rg of
             None \<Rightarrow> groups | Some g \<Rightarrow> if lg_id g \<in> lg_id ` set groups then groups else groups @ [g]"
  have "raw_groups_ok gs \<Longrightarrow> raw_groups_ok (fold ?f rgs gs)" for gs
  proof (induction rgs arbitrary: gs)
    case (Cons rg rgs)
    have "raw_groups_ok (?f rg gs)"
      using Cons.prems coerce_group_wf [of rg] by (auto simp: raw_groups_ok_snoc split: option.split)
    then show ?case using Cons.IH [of "?f rg gs"] by simp
  qed simp
  from this [of "[]"] show ?thesis unfolding coerce_groups_def by (simp add: raw_groups_ok_def)
qed

lemma claim_roots_filter:
  "distinct rs \<Longrightarrow> claim_roots owner rs = (owner @ filter (\<lambda>r. r \<notin> set owner) rs, filter (\<lambda>r. r \<notin> set owner) rs)"
proof -
  have "distinct rs \<Longrightarrow> set kept \<subseteq> set own \<Longrightarrow>
    fold (\<lambda>r (owner, kept). if r \<in> set owner then (owner, kept) else (owner @ [r], kept @ [r])) rs (own, kept)
      = (own @ filter (\<lambda>r. r \<notin> set own) rs, kept @ filter (\<lambda>r. r \<notin> set own) rs)" for own kept
  proof (induction rs arbitrary: own kept)
    case (Cons r rs)
    have "filter (\<lambda>x. x \<notin> set (own @ [r])) rs = filter (\<lambda>x. x \<notin> set own) rs"
      using Cons.prems(1) by (intro filter_cong) auto
    then show ?case using Cons.IH [of "kept @ [r]" "own @ [r]"] Cons.IH [of kept own] Cons.prems
      by (cases "r \<in> set own") auto
  qed simp
  from this [of "[]" owner] show "distinct rs \<Longrightarrow> ?thesis" by (simp add: claim_roots_def)
qed

lemma filter_same_length: "length (filter P xs) = length xs \<Longrightarrow> filter P xs = xs"
  using length_filter_less [of _ xs P] by (fastforce simp: filter_id_conv)

definition exclusive_step :: "label_group \<Rightarrow> string list \<times> label_group list \<Rightarrow> string list \<times> label_group list" where
  "exclusive_step g = (\<lambda>(owner, out).
     let (owner', kept) = claim_roots owner (lg_roots g)
     in (owner', out @ [if length kept \<noteq> length (lg_roots g) then g\<lparr>lg_roots := kept\<rparr> else g]))"

lemma exclusive_groups_fold: "exclusive_groups groups = snd (fold exclusive_step groups ([], []))"
  by (simp add: exclusive_groups_def exclusive_step_def [abs_def])

lemma exclusive_step_result:
  assumes "distinct (lg_roots g)"
  shows "exclusive_step g (owner, out) =
    (owner @ filter (\<lambda>r. r \<notin> set owner) (lg_roots g), out @ [g\<lparr>lg_roots := filter (\<lambda>r. r \<notin> set owner) (lg_roots g)\<rparr>])"
  using filter_same_length [of "\<lambda>r. r \<notin> set owner" "lg_roots g"]
  by (auto simp: exclusive_step_def claim_roots_filter [OF assms])

lemma exclusive_fold:
  assumes "\<forall>g \<in> set gs. distinct (lg_roots g) \<and> [] \<notin> set (lg_roots g)"
    and "distinct owner" "[] \<notin> set owner" "owner = concat (map lg_roots out)"
  shows "\<exists>kept. fold exclusive_step gs (owner, out) = (concat (map lg_roots (out @ kept)), out @ kept) \<and>
    map lg_id kept = map lg_id gs \<and> distinct (concat (map lg_roots (out @ kept))) \<and>
    [] \<notin> set (concat (map lg_roots (out @ kept)))"
  using assms
proof (induction gs arbitrary: owner out)
  case (Cons g gs)
  let ?k = "filter (\<lambda>r. r \<notin> set owner) (lg_roots g)"
  let ?out = "out @ [g\<lparr>lg_roots := ?k\<rparr>]"
  have g: "distinct (lg_roots g)" "[] \<notin> set (lg_roots g)" using Cons.prems(1) by auto
  have "distinct (owner @ ?k)" and "[] \<notin> set (owner @ ?k)" and own: "owner @ ?k = concat (map lg_roots ?out)"
    using Cons.prems g by auto
  from Cons.IH [OF _ this] Cons.prems(1) obtain kept where
    kept: "fold exclusive_step gs (owner @ ?k, ?out) = (concat (map lg_roots (?out @ kept)), ?out @ kept)"
    "map lg_id kept = map lg_id gs" "distinct (concat (map lg_roots (?out @ kept)))"
    "[] \<notin> set (concat (map lg_roots (?out @ kept)))"
    by auto
  have "fold exclusive_step (g # gs) (owner, out) = (concat (map lg_roots (?out @ kept)), ?out @ kept)"
    by (simp only: fold_simps exclusive_step_result [OF g(1)] kept(1))
  then show ?case
    using kept(2-4) by (intro exI [of _ "g\<lparr>lg_roots := ?k\<rparr> # kept"]) simp
qed simp

lemma exclusive_groups_wf: "raw_groups_ok gs \<Longrightarrow> groups_wf (exclusive_groups gs)"
proof -
  assume raw: "raw_groups_ok gs"
  then obtain kept where k: "fold exclusive_step gs ([], []) = (concat (map lg_roots kept), kept)"
    "map lg_id kept = map lg_id gs" "distinct (concat (map lg_roots kept))" "[] \<notin> set (concat (map lg_roots kept))"
    using exclusive_fold [of gs "[]" "[]"] by (auto simp: raw_groups_ok_def)
  have "lg_id ` set kept = lg_id ` set gs" using k(2) by (metis list.set_map)
  then show ?thesis
    using raw k by (simp add: exclusive_groups_fold groups_wf_def raw_groups_ok_def)
qed

lemma groups_wf_disjoint: "groups_wf (g # gs) \<Longrightarrow> groups_wf gs"
  by (auto simp: groups_wf_def)

lemma exclusive_groups_same:
  assumes "distinct (concat (map lg_roots gs))"
  shows "exclusive_groups gs = gs"
proof -
  have "distinct (owner @ concat (map lg_roots gs)) \<Longrightarrow> snd (fold exclusive_step gs (owner, out)) = out @ gs" for owner out
  proof (induction gs arbitrary: owner out)
    case (Cons g gs)
    have "filter (\<lambda>r. r \<notin> set owner) (lg_roots g) = lg_roots g"
      using Cons.prems by (auto simp: filter_id_conv)
    moreover have "distinct (lg_roots g)" using Cons.prems by simp
    ultimately have "exclusive_step g (owner, out) = (owner @ lg_roots g, out @ [g])"
      by (simp add: exclusive_step_result)
    then show ?case using Cons.IH [of "owner @ lg_roots g" "out @ [g]"] Cons.prems by simp
  qed simp
  from this [of "[]" "[]"] assms show ?thesis by (simp add: exclusive_groups_fold)
qed

lemma coerce_tag_wf: "coerce_tag rt = Some t \<Longrightarrow> lt_id t \<noteq> []"
  by (auto simp: coerce_tag_def Let_def split: if_splits)

lemma coerce_tags_wf: "tags_wf (coerce_tags rts)"
proof -
  let ?f = "\<lambda>rt tags. case coerce_tag rt of
             None \<Rightarrow> tags | Some t \<Rightarrow> if lt_id t \<in> lt_id ` set tags then tags else tags @ [t]"
  have "tags_wf ts \<Longrightarrow> tags_wf (fold ?f rts ts)" for ts
  proof (induction rts arbitrary: ts)
    case (Cons rt rts)
    have "tags_wf (?f rt ts)"
      using Cons.prems coerce_tag_wf [of rt] by (auto simp: tags_wf_def split: option.split)
    then show ?case using Cons.IH [of "?f rt ts"] by simp
  qed simp
  from this [of "[]"] show ?thesis unfolding coerce_tags_def by (simp add: tags_wf_def)
qed

definition clean_tags :: "string list \<Rightarrow> string list \<Rightarrow> string list" where
  "clean_tags tagIds ids = fold (\<lambda>tid acc. if tid = [] \<or> tid \<in> set acc then acc
      else if tid \<notin> set tagIds then acc else acc @ [tid]) ids []"

lemma clean_tags_wf: "distinct (clean_tags tids ids) \<and> [] \<notin> set (clean_tags tids ids) \<and> set (clean_tags tids ids) \<subseteq> set tids"
proof -
  let ?f = "\<lambda>tid acc. if tid = [] \<or> tid \<in> set acc then acc else if tid \<notin> set tids then acc else acc @ [tid]"
  let ?P = "\<lambda>acc. distinct acc \<and> [] \<notin> set acc \<and> set acc \<subseteq> set tids"
  have "?P acc \<Longrightarrow> ?P (fold ?f ids acc)" for acc
  proof (induction ids arbitrary: acc)
    case (Cons i ids)
    have "?P (?f i acc)" using Cons.prems by auto
    then show ?case using Cons.IH [of "?f i acc"] by simp
  qed simp
  from this [of "[]"] show ?thesis by (simp add: clean_tags_def)
qed

lemma clean_tags_same:
  "distinct ids \<Longrightarrow> [] \<notin> set ids \<Longrightarrow> set ids \<subseteq> set tids \<Longrightarrow> clean_tags tids ids = ids"
proof -
  have "distinct (acc @ ids) \<Longrightarrow> [] \<notin> set ids \<Longrightarrow> set ids \<subseteq> set tids \<Longrightarrow>
     fold (\<lambda>tid acc. if tid = [] \<or> tid \<in> set acc then acc
        else if tid \<notin> set tids then acc else acc @ [tid]) ids acc = acc @ ids" for acc
  proof (induction ids arbitrary: acc)
    case (Cons i ids)
    then show ?case using Cons.IH [of "acc @ [i]"] by auto
  qed simp
  from this [of "[]"] show "distinct ids \<Longrightarrow> [] \<notin> set ids \<Longrightarrow> set ids \<subseteq> set tids \<Longrightarrow> clean_tags tids ids = ids"
    by (simp add: clean_tags_def)
qed

lemma coerce_assign_obj:
  "coerce_assign tids (Some (JObj kvs)) = fold (\<lambda>(rootId, rawIds) out.
      if rootId = [] then out
      else if length (clean_tags tids (string_array (Some rawIds))) > 0
           then js_set rootId (clean_tags tids (string_array (Some rawIds))) out else out) kvs []"
  by (simp only: coerce_assign_def clean_tags_def Let_def option.case json.case)

lemma js_set_entries: "js_wf m \<Longrightarrow> (j, w) \<in> set (js_set k v m) \<Longrightarrow> (j, w) = (k, v) \<or> (j, w) \<in> set m"
  using js_entry_iff [of "js_set k v m" j w] js_entry_iff [of m j w] by (auto split: if_splits)

lemma assign_wf_set:
  assumes "assign_wf tids a" "r \<noteq> []" "ids \<noteq> []" "distinct ids" "[] \<notin> set ids" "set ids \<subseteq> set tids"
  shows "assign_wf tids (js_set r ids a)"
  unfolding assign_wf_def
proof (intro conjI ballI)
  have wf: "js_wf a" using assms(1) by (simp add: assign_wf_def)
  then show "js_wf (js_set r ids a)" by simp
  fix e
  assume "e \<in> set (js_set r ids a)"
  then have "e = (r, ids) \<or> e \<in> set a" using js_set_entries [OF wf] by (metis prod.exhaust)
  then show "case e of (r, ids) \<Rightarrow> r \<noteq> [] \<and> ids \<noteq> [] \<and> distinct ids \<and> [] \<notin> set ids \<and> set ids \<subseteq> set tids"
    using assms by (auto simp: assign_wf_def)
qed

lemma coerce_assign_wf: "assign_wf tids (coerce_assign tids raw)"
proof -
  let ?c = "\<lambda>rawIds. clean_tags tids (string_array (Some rawIds))"
  let ?f = "\<lambda>(rootId, rawIds) out. if rootId = [] then out
      else if length (?c rawIds) > 0 then js_set rootId (?c rawIds) out else out"
  have "assign_wf tids out \<Longrightarrow> assign_wf tids (fold ?f kvs out)" for kvs out
  proof (induction kvs arbitrary: out)
    case (Cons e kvs)
    obtain r raw where e: "e = (r, raw)" by (cases e)
    have "assign_wf tids (?f e out)"
      using Cons.prems clean_tags_wf [of tids "string_array (Some raw)"] by (auto simp: e intro!: assign_wf_set)
    then show ?case using Cons.IH [of "?f e out"] by simp
  qed simp
  from this [of "[]"] have obj: "assign_wf tids (coerce_assign tids (Some (JObj kvs)))" for kvs
    unfolding coerce_assign_obj by (simp add: assign_wf_def)
  have "(\<exists>kvs. raw = Some (JObj kvs)) \<or> coerce_assign tids raw = []"
    by (simp add: coerce_assign_def split: option.split json.split)
  then show ?thesis using obj by (auto simp: assign_wf_def [of tids "[]"])
qed

lemma coerce_wf: "coerceLabelsDoc j = Some d \<Longrightarrow> ldoc_wf d"
  using exclusive_groups_wf [OF coerce_groups_ok] coerce_tags_wf coerce_assign_wf
  by (auto simp: coerceLabelsDoc_def ldoc_wf_def Let_def split: if_splits)

section \<open>Round trip with the wire\<close>

definition group_json :: "label_group \<Rightarrow> json" where
  "group_json g = JObj [(''id'', JStr (lg_id g)), (''name'', JStr (lg_name g)), (''color'', JStr (lg_color g)),
     (''collapsed'', JBool (lg_collapsed g)), (''orderedRootSessionIds'', JArr (map JStr (lg_roots g)))]"

definition tag_json :: "label_tag \<Rightarrow> json" where
  "tag_json t = JObj [(''id'', JStr (lt_id t)), (''name'', JStr (lt_name t)), (''color'', JStr (lt_color t))]"

definition labels_json :: "labels_doc \<Rightarrow> json" where
  "labels_json d = JObj [(''revision'', JNum (ld_revision d)), (''groups'', JArr (map group_json (ld_groups d))),
     (''tags'', JArr (map tag_json (ld_tags d))),
     (''tagIdsByRootSessionId'', JObj (map (\<lambda>(r, ids). (r, JArr (map JStr ids))) (ld_assign d)))]"

lemma coerce_group_json:
  "lg_id g \<noteq> [] \<Longrightarrow> distinct (lg_roots g) \<Longrightarrow> [] \<notin> set (lg_roots g) \<Longrightarrow> coerce_group (group_json g) = Some g"
  by (simp add: coerce_group_def group_json_def is_object_def string_or_empty_def dedupe_nonempty_same)

lemma coerce_groups_json: "raw_groups_ok gs \<Longrightarrow> coerce_groups (map group_json gs) = gs"
proof (induction gs rule: rev_induct)
  case (snoc g gs)
  then show ?case
    by (simp add: raw_groups_ok_snoc coerce_groups_def coerce_group_json)
qed (simp add: coerce_groups_def)

lemma coerce_tag_json: "lt_id t \<noteq> [] \<Longrightarrow> coerce_tag (tag_json t) = Some t"
  by (simp add: coerce_tag_def tag_json_def is_object_def string_or_empty_def)

lemma coerce_tags_json: "tags_wf ts \<Longrightarrow> coerce_tags (map tag_json ts) = ts"
proof (induction ts rule: rev_induct)
  case (snoc t ts)
  then have "tags_wf ts" "lt_id t \<noteq> []" "lt_id t \<notin> lt_id ` set ts" by (auto simp: tags_wf_def)
  then show ?case using snoc.IH by (simp add: coerce_tags_def coerce_tag_json)
qed (simp add: coerce_tags_def)

lemma js_set_fresh: "k \<notin> set (js_keys m) \<Longrightarrow> js_set k v m = m @ [(k, v)]"
  unfolding js_set_def js_keys_def by (induction m) auto

lemma coerce_assign_json:
  assumes "assign_wf tids a"
  shows "coerce_assign tids (Some (JObj (map (\<lambda>(r, ids). (r, JArr (map JStr ids))) a))) = a"
proof -
  let ?f = "\<lambda>(rootId, rawIds) out. if rootId = [] then out
      else if length (clean_tags tids (string_array (Some rawIds))) > 0
           then js_set rootId (clean_tags tids (string_array (Some rawIds))) out else out"
  have "fold ?f (map (\<lambda>(r, ids). (r, JArr (map JStr ids))) a) [] = a"
    using assms
  proof (induction a rule: rev_induct)
    case (snoc e a)
    obtain r ids where e: "e = (r, ids)" by (cases e)
    have wf: "assign_wf tids a" using snoc.prems by (auto simp: assign_wf_def js_wf_def)
    have ids: "r \<noteq> []" "ids \<noteq> []" "distinct ids" "[] \<notin> set ids" "set ids \<subseteq> set tids"
      using snoc.prems by (auto simp: assign_wf_def e)
    have "r \<notin> set (js_keys a)" using snoc.prems by (auto simp: assign_wf_def js_wf_def js_keys_def e)
    then show ?case using snoc.IH [OF wf] ids by (simp add: e clean_tags_same js_set_fresh)
  qed simp
  then show ?thesis unfolding coerce_assign_obj .
qed

lemma groups_wf_raw: "groups_wf gs \<Longrightarrow> raw_groups_ok gs"
  unfolding groups_wf_def raw_groups_ok_def by (auto simp: distinct_concat_iff)

lemma coerce_labels_json: "ldoc_wf d \<Longrightarrow> coerceLabelsDoc (labels_json d) = Some d"
proof -
  assume wf: "ldoc_wf d"
  have "coerce_groups (map group_json (ld_groups d)) = ld_groups d"
    using wf by (intro coerce_groups_json groups_wf_raw) (simp add: ldoc_wf_def)
  moreover have "exclusive_groups (ld_groups d) = ld_groups d"
    using wf by (intro exclusive_groups_same) (simp add: ldoc_wf_def groups_wf_def)
  moreover have "coerce_tags (map tag_json (ld_tags d)) = ld_tags d"
    using wf by (intro coerce_tags_json) (simp add: ldoc_wf_def)
  moreover have "coerce_assign (map lt_id (ld_tags d)) (Some (JObj (map (\<lambda>(r, ids). (r, JArr (map JStr ids))) (ld_assign d)))) = ld_assign d"
    using wf by (intro coerce_assign_json) (simp add: ldoc_wf_def)
  ultimately show ?thesis
    by (simp add: coerceLabelsDoc_def labels_json_def is_object_def array_or_empty_def)
qed

end
