(* ===== verification/LabelsIntents.thy ===== *)
theory LabelsIntents
  imports LabelsDoc
begin

text \<open>
  The label intents: each keeps a document well formed, groups stay exclusive, and replaying
  an intent on its own result (what a rebase after a lost race amounts to) changes nothing
  but for the two creations and the collapse toggle.
\<close>

section \<open>Intents keep documents well formed\<close>

text \<open>What the callers supply: fresh ids for new definitions, non-empty root ids.\<close>

fun intent_ok :: "label_intent \<Rightarrow> labels_doc \<Rightarrow> bool" where
  "intent_ok (CreateGroup i name color) d \<longleftrightarrow> i \<noteq> [] \<and> i \<notin> lg_id ` set (ld_groups d)"
| "intent_ok (CreateTag i name color) d \<longleftrightarrow> i \<noteq> [] \<and> i \<notin> lt_id ` set (ld_tags d)"
| "intent_ok (MoveRootToGroup r target) d \<longleftrightarrow> r \<noteq> []"
| "intent_ok (AddRootTag r t) d \<longleftrightarrow> r \<noteq> []"
| "intent_ok i d \<longleftrightarrow> True"

lemma map_if_ids: "(\<And>g. lg_id (f g) = lg_id g) \<Longrightarrow> map lg_id (map (\<lambda>g. if lg_id g \<noteq> i then g else f g) gs) = map lg_id gs"
  by simp

lemma groups_wf_map:
  assumes "groups_wf gs" and "\<And>g. lg_id (f g) = lg_id g" and "\<And>g. lg_roots (f g) = lg_roots g"
  shows "groups_wf (map f gs)"
proof -
  have "map lg_id (map f gs) = map lg_id gs" and "map lg_roots (map f gs) = map lg_roots gs"
    using assms(2,3) by simp_all
  moreover have "lg_id ` set (map f gs) = lg_id ` set gs" by (simp add: image_image assms(2))
  ultimately show ?thesis using assms(1) by (simp only: groups_wf_def simp_thms)
qed

lemma edit_group_wf:
  assumes "ldoc_wf d" and "\<And>g. lg_id (f g) = lg_id g" and "\<And>g. lg_roots (f g) = lg_roots g"
  shows "ldoc_wf (edit_group i f d)"
  using assms groups_wf_map [of "ld_groups d" "\<lambda>g. if lg_id g \<noteq> i then g else f g"]
  by (simp add: edit_group_def ldoc_wf_def)

lemma groups_wf_mset: "mset gs = mset hs \<Longrightarrow> groups_wf gs \<longleftrightarrow> groups_wf hs"
proof -
  assume m: "mset gs = mset hs"
  have "mset (concat (map lg_roots gs)) = mset (concat (map lg_roots hs))"
  proof -
    have "mset (concat (map lg_roots xs)) = (\<Sum>g \<in># mset xs. mset (lg_roots g))" for xs
      by (induction xs) simp_all
    from this [of gs] this [of hs] show ?thesis by (simp add: m)
  qed
  then have "distinct (concat (map lg_roots gs)) = distinct (concat (map lg_roots hs))"
    and "set (concat (map lg_roots gs)) = set (concat (map lg_roots hs))"
    by (metis mset_eq_imp_distinct_iff) (metis \<open>mset (concat (map lg_roots gs)) = mset (concat (map lg_roots hs))\<close> mset_eq_setD)
  moreover have "distinct (map lg_id gs) = distinct (map lg_id hs)" and "set gs = set hs"
    using m by (metis mset_eq_imp_distinct_iff mset_map) (metis m mset_eq_setD)
  ultimately show ?thesis by (simp only: groups_wf_def)
qed

lemma move_root_fields [simp]:
  "lg_id (move_root r target g) = lg_id g"
  "lg_roots (move_root r target g) = filter (\<lambda>x. x \<noteq> r) (lg_roots g) @ (if Some (lg_id g) = target then [r] else [])"
  using filter_same_length [of "\<lambda>x. x \<noteq> r" "lg_roots g"] by (auto simp: move_root_def Let_def)

lemma move_root_concat_set:
  "set (concat (map lg_roots (map (move_root r target) gs))) =
    set (concat (map lg_roots gs)) - {r} \<union> (if \<exists>g \<in> set gs. Some (lg_id g) = target then {r} else {})"
  by (induction gs) auto

lemma move_root_wf:
  assumes "groups_wf gs" and r: "r \<noteq> []"
  shows "groups_wf (map (move_root r target) gs)"
proof -
  have "distinct (map lg_id gs) \<Longrightarrow> distinct (concat (map lg_roots gs)) \<Longrightarrow>
      distinct (concat (map lg_roots (map (move_root r target) gs)))"
  proof (induction gs)
    case (Cons g gs)
    have tail: "distinct (concat (map lg_roots (map (move_root r target) gs)))"
      using Cons.prems by (intro Cons.IH) simp_all
    have "set (lg_roots (move_root r target g)) \<inter> set (concat (map lg_roots (map (move_root r target) gs))) = {}"
    proof -
      have "\<not> (Some (lg_id g) = target \<and> (\<exists>h \<in> set gs. Some (lg_id h) = target))"
        using Cons.prems(1) by (auto simp: image_iff)
      moreover have "set (lg_roots g) \<inter> set (concat (map lg_roots gs)) = {}" using Cons.prems(2) by simp
      ultimately show ?thesis unfolding move_root_concat_set by auto
    qed
    moreover have "distinct (lg_roots (move_root r target g))" using Cons.prems(2) by simp
    ultimately show ?case using tail by (simp only: list.map concat.simps distinct_append simp_thms)
  qed simp
  moreover have "[] \<notin> set (concat (map lg_roots (map (move_root r target) gs)))"
    using assms unfolding move_root_concat_set groups_wf_def by auto
  moreover have "map lg_id (map (move_root r target) gs) = map lg_id gs"
    and "lg_id ` set (map (move_root r target) gs) = lg_id ` set gs" by (simp_all add: image_image)
  ultimately show ?thesis using assms(1) unfolding groups_wf_def by metis
qed

lemma groups_wf_filter: "groups_wf gs \<Longrightarrow> groups_wf (filter P gs)"
proof (induction gs)
  case (Cons g gs)
  then have "groups_wf (filter P gs)" by (auto intro: Cons.IH groups_wf_disjoint)
  then show ?case using Cons.prems by (auto simp: groups_wf_def)
qed simp

lemma strip_tag_get:
  assumes "js_wf a"
  shows "js_get (strip_tag t a) r = Option.bind (js_get a r)
    (\<lambda>ids. if filter (\<lambda>x. x \<noteq> t) ids = [] then None else Some (filter (\<lambda>x. x \<noteq> t) ids))"
proof -
  let ?f = "\<lambda>(root, ids) out. let filtered = filter (\<lambda>x. x \<noteq> t) ids in if length filtered > 0 then js_set root filtered out else out"
  let ?v = "\<lambda>ids. if filter (\<lambda>x. x \<noteq> t) ids = [] then None else Some (filter (\<lambda>x. x \<noteq> t) ids)"
  have "js_get (fold ?f a out) r = (case Option.bind (js_get a r) ?v of Some v \<Rightarrow> Some v | None \<Rightarrow> js_get out r)" for out
    using assms
  proof (induction a arbitrary: out)
    case (Cons e a)
    obtain k ids where e: "e = (k, ids)" by (cases e)
    have wf: "js_wf a" and new: "js_get a k = None"
      using Cons.prems by (auto simp: js_wf_def e map_of_eq_None_iff)
    show ?case
      using Cons.IH [OF wf, of "?f e out"] new
      by (cases "k = r"; cases "filter (\<lambda>x. x \<noteq> t) ids = []") (simp_all add: e Let_def split: option.split)
  qed simp
  from this [of "[]"] show ?thesis unfolding strip_tag_def by (simp split: option.split)
qed

lemma strip_tag_wf:
  assumes "assign_wf tids a"
  shows "assign_wf (filter (\<lambda>x. x \<noteq> t) tids) (strip_tag t a)"
proof -
  let ?f = "\<lambda>(root, ids) out. let filtered = filter (\<lambda>x. x \<noteq> t) ids in if length filtered > 0 then js_set root filtered out else out"
  let ?T = "filter (\<lambda>x. x \<noteq> t) tids"
  have "assign_wf ?T out \<Longrightarrow> \<forall>(r, ids) \<in> set kvs. r \<noteq> [] \<and> distinct ids \<and> [] \<notin> set ids \<and> set ids \<subseteq> set tids \<Longrightarrow>
      assign_wf ?T (fold ?f kvs out)" for kvs out
  proof (induction kvs arbitrary: out)
    case (Cons e kvs)
    obtain k ids where e: "e = (k, ids)" by (cases e)
    have "assign_wf ?T (?f e out)"
      using Cons.prems by (auto simp: e Let_def intro!: assign_wf_set)
    then show ?case using Cons.IH [of "?f e out"] Cons.prems(2) by simp
  qed simp
  from this [of "[]" a] show ?thesis using assms unfolding strip_tag_def by (auto simp: assign_wf_def)
qed

lemma assign_wf_delete: "assign_wf tids a \<Longrightarrow> assign_wf tids (js_delete r a)"
proof -
  assume wf: "assign_wf tids a"
  have "set (js_delete r a) \<subseteq> set a" by (auto simp: js_delete_def AList.delete_eq)
  moreover have "js_wf (js_delete r a)" using wf by (simp add: assign_wf_def)
  ultimately show ?thesis using wf unfolding assign_wf_def by blast
qed

lemma assign_wf_entry:
  "assign_wf tids a \<Longrightarrow> js_get a r = Some ids \<Longrightarrow> r \<noteq> [] \<and> ids \<noteq> [] \<and> distinct ids \<and> [] \<notin> set ids \<and> set ids \<subseteq> set tids"
  by (fastforce simp: assign_wf_def dest: js_get_mem)

lemma assign_wf_mono: "assign_wf tids a \<Longrightarrow> set tids \<subseteq> set tids' \<Longrightarrow> assign_wf tids' a"
  by (fastforce simp: assign_wf_def)

lemma intent_wf:
  assumes wf: "ldoc_wf d" and ok: "intent_ok i d"
  shows "ldoc_wf (apply_intent i d)"
proof (cases i)
  case (CreateGroup g name color)
  then show ?thesis using wf ok by (auto simp: ldoc_wf_def groups_wf_def)
next
  case (ReorderGroup g n)
  have "groups_wf (moveItem (ld_groups d) a b)" for a b
    using wf groups_wf_mset [OF moveItem_mset] by (simp add: ldoc_wf_def)
  then show ?thesis using wf by (simp add: ReorderGroup reorder_group_def Let_def ldoc_wf_def)
next
  case (DeleteTag t)
  have "map lt_id (filter (\<lambda>x. lt_id x \<noteq> t) (ld_tags d)) = filter (\<lambda>x. x \<noteq> t) (map lt_id (ld_tags d))"
    by (simp add: filter_map comp_def)
  then show ?thesis using wf strip_tag_wf [of "map lt_id (ld_tags d)" "ld_assign d" t]
    by (simp add: DeleteTag ldoc_wf_def tags_wf_def) auto
next
  case (CreateTag t name color)
  then show ?thesis using wf ok by (auto simp: ldoc_wf_def tags_wf_def intro: assign_wf_mono)
next
  case (AddRootTag r t)
  let ?cur = "case js_get (ld_assign d) r of Some ids \<Rightarrow> ids | None \<Rightarrow> []"
  have a: "assign_wf (map lt_id (ld_tags d)) (ld_assign d)" using wf by (simp add: ldoc_wf_def)
  have "distinct ?cur \<and> [] \<notin> set ?cur \<and> set ?cur \<subseteq> set (map lt_id (ld_tags d))"
    using assign_wf_entry [OF a, of r] by (cases "js_get (ld_assign d) r") simp_all
  moreover have "t \<in> lt_id ` set (ld_tags d) \<Longrightarrow> t \<noteq> []" using wf by (force simp: ldoc_wf_def tags_wf_def)
  ultimately show ?thesis using wf ok a
    by (cases "js_get (ld_assign d) r") (auto simp: AddRootTag Let_def ldoc_wf_def intro!: assign_wf_set)
next
  case (RemoveRootTag r t)
  have a: "assign_wf (map lt_id (ld_tags d)) (ld_assign d)" using wf by (simp add: ldoc_wf_def)
  show ?thesis
  proof (cases "js_get (ld_assign d) r")
    case None
    then show ?thesis using wf by (simp add: RemoveRootTag)
  next
    case (Some ids)
    let ?fs = "filter (\<lambda>x. x \<noteq> t) ids"
    have e: "r \<noteq> []" "distinct ?fs" "[] \<notin> set ?fs" "set ?fs \<subseteq> set (map lt_id (ld_tags d))"
      using assign_wf_entry [OF a Some] by auto
    have "assign_wf (map lt_id (ld_tags d)) (js_set r ?fs (ld_assign d))" if "?fs \<noteq> []"
      by (rule assign_wf_set [OF a e(1) that e(2-4)])
    then show ?thesis using wf Some assign_wf_delete [OF a]
      by (simp add: RemoveRootTag Let_def ldoc_wf_def)
  qed
next
  case (RenameGroup g name)
  then show ?thesis using edit_group_wf [OF wf] by simp
next
  case (SetGroupColor g color)
  then show ?thesis using edit_group_wf [OF wf] by simp
next
  case (ToggleGroupCollapse g)
  then show ?thesis using edit_group_wf [OF wf] by simp
qed (use wf ok in \<open>auto simp: ldoc_wf_def move_root_wf groups_wf_filter\<close>)

section \<open>Membership\<close>

definition in_group :: "labels_doc \<Rightarrow> string \<Rightarrow> string \<Rightarrow> bool" where
  "in_group d r i \<longleftrightarrow> (\<exists>g \<in> set (ld_groups d). lg_id g = i \<and> r \<in> set (lg_roots g))"

definition has_tag :: "labels_doc \<Rightarrow> string \<Rightarrow> string \<Rightarrow> bool" where
  "has_tag d r t \<longleftrightarrow> (case js_get (ld_assign d) r of Some ids \<Rightarrow> t \<in> set ids | None \<Rightarrow> False)"

lemma groups_exclusive:
  assumes "ldoc_wf d" and "in_group d r i" and "in_group d r j"
  shows "i = j"
proof -
  have "distinct (concat (map lg_roots gs)) \<Longrightarrow> g \<in> set gs \<Longrightarrow> h \<in> set gs \<Longrightarrow> r \<in> set (lg_roots g) \<Longrightarrow>
      r \<in> set (lg_roots h) \<Longrightarrow> g = h" for gs g h
    by (induction gs) auto
  then show ?thesis using assms unfolding ldoc_wf_def groups_wf_def in_group_def by metis
qed

lemma move_root_membership:
  "in_group (apply_intent (MoveRootToGroup r target) d) x i \<longleftrightarrow>
    (if x = r then target = Some i \<and> i \<in> lg_id ` set (ld_groups d) else in_group d x i)"
  by (auto simp: in_group_def)

lemma add_tag_membership:
  assumes "t \<in> lt_id ` set (ld_tags d)"
  shows "has_tag (apply_intent (AddRootTag r t) d) x u \<longleftrightarrow> has_tag d x u \<or> x = r \<and> u = t"
  using assms by (cases "x = r"; cases "js_get (ld_assign d) r") (auto simp: has_tag_def Let_def)

lemma remove_tag_membership:
  "has_tag (apply_intent (RemoveRootTag r t) d) x u \<longleftrightarrow> has_tag d x u \<and> \<not> (x = r \<and> u = t)"
proof (cases "js_get (ld_assign d) r")
  case None
  then show ?thesis by (auto simp: has_tag_def)
next
  case (Some ids)
  show ?thesis
  proof (cases "t \<in> set ids")
    case False
    then show ?thesis using Some by (auto simp: has_tag_def)
  next
    case True
    then have "js_get (ld_assign (apply_intent (RemoveRootTag r t) d)) x =
        (if x = r then (if filter (\<lambda>x. x \<noteq> t) ids = [] then None else Some (filter (\<lambda>x. x \<noteq> t) ids))
         else js_get (ld_assign d) x)"
      using Some by (simp add: Let_def)
    then show ?thesis using Some by (cases "x = r") (auto simp: has_tag_def filter_empty_conv)
  qed
qed

lemma delete_tag_membership:
  assumes "js_wf (ld_assign d)"
  shows "has_tag (apply_intent (DeleteTag t) d) x u \<longleftrightarrow> has_tag d x u \<and> u \<noteq> t"
  by (cases "js_get (ld_assign d) x") (auto simp: has_tag_def strip_tag_get [OF assms] filter_empty_conv)

section \<open>Replaying an intent\<close>

text \<open>The intents that say what the document should be, not how to change it.\<close>

fun declarative :: "label_intent \<Rightarrow> bool" where
  "declarative (CreateGroup i name color) = False"
| "declarative (CreateTag i name color) = False"
| "declarative (ToggleGroupCollapse i) = False"
| "declarative i = True"

lemma edit_group_twice:
  "(\<And>g. f (f g) = f g) \<Longrightarrow> (\<And>g. lg_id (f g) = lg_id g) \<Longrightarrow> edit_group i f (edit_group i f d) = edit_group i f d"
  by (auto simp: edit_group_def image_iff)

lemma move_root_twice: "move_root r target (move_root r target g) = move_root r target g"
  by (rule label_group.equality) (simp_all add: move_root_def Let_def)

lemma index_of_distinct: "distinct xs \<Longrightarrow> n < length xs \<Longrightarrow> index_of xs (xs ! n) = int n"
proof -
  have "distinct xs \<Longrightarrow> n < length xs \<Longrightarrow> index_from i xs (xs ! n) = i + int n" for i
  proof (induction xs arbitrary: n i)
    case (Cons x xs)
    then show ?case using Cons.IH [of "n - 1" "i + 1"] by (cases n) auto
  qed simp
  then show "distinct xs \<Longrightarrow> n < length xs \<Longrightarrow> ?thesis" by (simp add: index_of_def)
qed

lemma reorder_group_twice:
  assumes "distinct (map lg_id (ld_groups d))"
  shows "reorder_group i n (reorder_group i n d) = reorder_group i n d"
proof -
  let ?gs = "ld_groups d" and ?k = "index_of (map lg_id (ld_groups d)) i"
  let ?c = "max 0 (min n (int (length ?gs) - 1))"
  show ?thesis
  proof (cases "?k < 0 \<or> ?k = ?c")
    case True
    then have "reorder_group i n d = d" by (auto simp: reorder_group_def Let_def)
    then show ?thesis by simp
  next
    case False
    then have i: "i \<in> set (map lg_id ?gs)" using index_of_neg by (metis not_less)
    then have k: "0 \<le> ?k" "?k < int (length ?gs)" using index_of_present by fastforce+
    then have c: "0 \<le> ?c" "?c < int (length ?gs)" by linarith+
    let ?hs = "moveItem ?gs ?k ?c"
    have once: "reorder_group i n d = d\<lparr>ld_groups := ?hs\<rparr>" using False by (simp add: reorder_group_def Let_def)
    have "?hs ! nat ?c = ?gs ! nat ?k" by (rule moveItem_nth [OF k c])
    then have "map lg_id ?hs ! nat ?c = map lg_id ?gs ! nat ?k" using k c by (simp add: nat_less_iff)
    also have "\<dots> = i" by (rule nth_index_of [OF i])
    finally have "map lg_id ?hs ! nat ?c = i" .
    moreover have "distinct (map lg_id ?hs)"
      using assms moveItem_mset [of ?gs ?k ?c] by (metis mset_eq_imp_distinct_iff mset_map)
    ultimately have "index_of (map lg_id ?hs) i = ?c"
      using index_of_distinct [of "map lg_id ?hs" "nat ?c"] c by (simp add: nat_less_iff)
    then show ?thesis unfolding once by (simp add: reorder_group_def Let_def)
  qed
qed

lemma replay_harmless:
  assumes wf: "ldoc_wf d" and i: "declarative i"
  shows "contentEqual (apply_intent i (apply_intent i d)) (apply_intent i d)"
proof -
  have same: "contentEqual x x" if "js_wf (ld_assign x)" for x
    by (auto simp: contentEqual_def list_all_iff js_keys_iff)
  have wf_assign: "js_wf (ld_assign d)" using wf by (simp add: ldoc_wf_def assign_wf_def)
  show ?thesis
  proof (cases i)
    case (DeleteTag t)
    have strip_wf: "js_wf (strip_tag t a)" if "js_wf a" for a
    proof -
      have "js_wf (fold (\<lambda>(root, ids) out. let filtered = filter (\<lambda>x. x \<noteq> t) ids
          in if length filtered > 0 then js_set root filtered out else out) kvs out)" if "js_wf out" for kvs out
        using that
      proof (induction kvs arbitrary: out)
        case (Cons e kvs)
        obtain k ids where e: "e = (k, ids)" by (cases e)
        have "js_wf (let filtered = filter (\<lambda>x. x \<noteq> t) ids in if length filtered > 0 then js_set k filtered out else out)"
          using Cons.prems by (simp add: Let_def)
        then show ?case using Cons.IH by (simp add: e)
      qed simp
      note fold_wf = this
      show ?thesis unfolding strip_tag_def by (rule fold_wf) simp
    qed
    let ?a = "strip_tag t (ld_assign d)"
    have wfa: "js_wf ?a" and wfaa: "js_wf (strip_tag t ?a)" using strip_wf wf_assign by blast+
    have get: "js_get (strip_tag t ?a) k = js_get ?a k" for k
      unfolding strip_tag_get [OF wfa] unfolding strip_tag_get [OF wf_assign]
      by (cases "js_get (ld_assign d) k") auto
    have "set (js_keys (strip_tag t ?a)) = set (js_keys ?a)" using get by (auto simp: js_keys_iff)
    then have "length (js_keys (strip_tag t ?a)) = length (js_keys ?a)"
      using wfa wfaa by (metis distinct_card js_wf_keys)
    then show ?thesis using get by (simp add: DeleteTag contentEqual_def list_all_iff js_keys_iff)
  next
    case (ReorderGroup g n)
    have "distinct (map lg_id (ld_groups d))" using wf by (simp add: ldoc_wf_def groups_wf_def)
    note twice = reorder_group_twice [OF this]
    have "ld_assign (reorder_group g n d) = ld_assign d" by (simp add: reorder_group_def Let_def)
    then show ?thesis unfolding ReorderGroup apply_intent.simps twice by (intro same) (simp add: wf_assign)
  next
    case (MoveRootToGroup r target)
    then show ?thesis using wf_assign by (auto intro!: same simp: move_root_twice comp_def)
  next
    case (AddRootTag r t)
    have "apply_intent i (apply_intent i d) = apply_intent i d"
      by (cases "js_get (ld_assign d) r") (simp_all add: AddRootTag Let_def)
    moreover have "js_wf (ld_assign (apply_intent i d))" using wf_assign by (simp add: AddRootTag Let_def)
    ultimately show ?thesis by (simp only: same)
  next
    case (RemoveRootTag r t)
    have "apply_intent i (apply_intent i d) = apply_intent i d \<and> js_wf (ld_assign (apply_intent i d))"
      using wf_assign by (cases "js_get (ld_assign d) r") (simp_all add: RemoveRootTag Let_def)
    then show ?thesis by (simp only: same)
  next
    case (RenameGroup g name)
    have "apply_intent i (apply_intent i d) = apply_intent i d"
      unfolding RenameGroup apply_intent.simps by (rule edit_group_twice) simp_all
    moreover have "js_wf (ld_assign (apply_intent i d))" using wf_assign by (simp add: RenameGroup edit_group_def)
    ultimately show ?thesis by (simp only: same)
  next
    case (SetGroupColor g color)
    have "apply_intent i (apply_intent i d) = apply_intent i d"
      unfolding SetGroupColor apply_intent.simps by (rule edit_group_twice) simp_all
    moreover have "js_wf (ld_assign (apply_intent i d))" using wf_assign by (simp add: SetGroupColor edit_group_def)
    ultimately show ?thesis by (simp only: same)
  qed (use i wf_assign in \<open>auto intro!: same\<close>)
qed

text \<open>The toggle is the exception: replayed, it undoes itself.\<close>

lemma toggle_twice:
  "apply_intent (ToggleGroupCollapse i) (apply_intent (ToggleGroupCollapse i) d) = d"
proof -
  have "map (\<lambda>g. if lg_id g \<noteq> i then g else g\<lparr>lg_collapsed := \<not> lg_collapsed g\<rparr>)
      (map (\<lambda>g. if lg_id g \<noteq> i then g else g\<lparr>lg_collapsed := \<not> lg_collapsed g\<rparr>) gs) = gs" for gs :: "label_group list"
    by (induction gs) auto
  moreover have "i \<in> lg_id ` (\<lambda>g. if lg_id g \<noteq> i then g else g\<lparr>lg_collapsed := \<not> lg_collapsed g\<rparr>) ` set (ld_groups d)
      \<longleftrightarrow> i \<in> lg_id ` set (ld_groups d)"
    unfolding image_image by (simp add: if_distrib cong: if_cong)
  ultimately show ?thesis by (simp add: edit_group_def)
qed

end
