(* ===== verification/LabelsInv.thy ===== *)
theory LabelsInv
  imports LabelsIntents
begin

text \<open>
  The label facade as a machine: the pending count belongs to the current scope, results of
  a scope that was left change nothing, adoption is monotone within a scope, each mutation
  sends at most two PUTs, and a failed mutation gives back the document it started from.
\<close>

section \<open>Frames\<close>

definition l_calm :: "labels_state \<Rightarrow> labels_state \<Rightarrow> bool" where
  "l_calm s t \<longleftrightarrow> l_pendingCount t = l_pendingCount s \<and> labelsPendingSig t = labelsPendingSig s \<and>
     labelsScopeGen t = labelsScopeGen s \<and> l_revision s \<le> l_revision t"

lemma l_calm_refl [simp, intro]: "l_calm s s"
  by (simp add: l_calm_def)

lemma l_calm_trans: "l_calm s t \<Longrightarrow> l_calm t u \<Longrightarrow> l_calm s u"
  by (simp add: l_calm_def)

lemma l_calm_steps [simp, intro]:
  "l_calm s (l_adoptPutResponse d s)" "l_calm s (applyDoc d s)" "l_calm s (l_setError e s)"
  "l_calm s (clearLabelsError s)" "l_calm s (rollbackDocIfUnchanged b r s)" "l_calm s (dropLabelRoot i s)"
  "l_calm s (applyLabelsUpdated raw s)"
  by (auto simp: l_calm_def l_adoptPutResponse_def l_adoptServerDoc_def applyDoc_def l_setError_def clearLabelsError_def
      rollbackDocIfUnchanged_def dropLabelRoot_def applyLabelsUpdated_def Let_def split: option.split)

lemma l_calm_after: "l_calm s t \<Longrightarrow> l_calm s (l_setError e t)" "l_calm s t \<Longrightarrow> l_calm s (applyDoc d t)"
  by (auto intro: l_calm_trans)

text \<open>A step of the current scope ends in its \<^verbatim>\<open>finally\<close> or waits, in that scope, for a PUT.\<close>

definition l_settles :: "labels_state \<Rightarrow> l_started \<Rightarrow> bool" where
  "l_settles s st \<longleftrightarrow> (\<exists>t. l_calm s t \<and>
     (st = (l_decPending t, None) \<or> (\<exists>r k. st = (t, Some (r, k)) \<and> cont_gen k = labelsScopeGen s)))"

lemma l_settles_finish [intro]: "l_calm s t \<Longrightarrow> l_settles s (l_finish t)"
  by (auto simp: l_settles_def l_finish_def)

lemma l_settles_put [intro]: "l_calm s t \<Longrightarrow> cont_gen k = labelsScopeGen s \<Longrightarrow> l_settles s (l_put b d k t)"
  by (auto simp: l_settles_def l_put_def)

lemma l_resume_settles: "cont_gen k = labelsScopeGen s \<Longrightarrow> l_settles s (l_resume k res s)"
  by (cases k) (auto simp: Let_def l_calm_after split: option.split)

lemma l_resume_dropped: "cont_gen k \<noteq> labelsScopeGen s \<Longrightarrow> l_resume k res s = (s, None)"
  by (cases k) auto

lemma l_incPending_frame [simp]:
  "labelsScopeGen (l_incPending s) = labelsScopeGen s" "l_revision (l_incPending s) = l_revision s"
  "labelsScopeGen (l_decPending s) = labelsScopeGen s" "l_revision (l_decPending s) = l_revision s"
  "currentServerDoc (l_incPending s) = currentServerDoc s" "currentServerDoc (l_decPending s) = currentServerDoc s"
  "labelsErrorSig (l_decPending s) = labelsErrorSig s"
  by (simp_all add: l_incPending_def l_decPending_def currentServerDoc_def)

lemma mutation_settles: "l_settles (l_incPending s) (performMutation i s)"
  by (auto simp: performMutation_def Let_def intro!: l_settles_put l_calm_after)

lemma l_launch_simps [simp]:
  "labels (l_launch ks rs st) = fst st"
  "l_waiting (l_launch ks rs (s, None)) = ks" "l_sent (l_launch ks rs (s, None)) = rs"
  "l_waiting (l_launch ks rs (s, Some (r, k))) = ks @ [k]" "l_sent (l_launch ks rs (s, Some (r, k))) = rs @ [r]"
  by (cases st; cases "snd st"; auto simp: l_launch_def) (simp_all add: l_launch_def)

section \<open>The pending count is the scope's own\<close>

definition in_scope :: "labels_state \<Rightarrow> l_cont list \<Rightarrow> nat" where
  "in_scope s ks = length (filter (\<lambda>k. cont_gen k = labelsScopeGen s) ks)"

definition labels_inv :: "labels_sys \<Rightarrow> bool" where
  "labels_inv y \<longleftrightarrow>
     l_pendingCount (labels y) = in_scope (labels y) (l_waiting y) \<and>
     labelsPendingSig (labels y) = (l_pendingCount (labels y) \<noteq> 0) \<and>
     (\<forall>k \<in> set (l_waiting y). cont_gen k \<le> labelsScopeGen (labels y))"

lemma in_scope_cong: "labelsScopeGen t = labelsScopeGen s \<Longrightarrow> in_scope t ks = in_scope s ks"
  by (simp add: in_scope_def)

lemma in_scope_append [simp]: "in_scope s (ks @ js) = in_scope s ks + in_scope s js"
  by (simp add: in_scope_def)

lemma in_scope_one [simp]: "in_scope s [k] = (if cont_gen k = labelsScopeGen s then 1 else 0)"
  by (simp add: in_scope_def)

lemma l_launch_inv:
  assumes "l_settles s st" and n: "l_pendingCount s = Suc (in_scope s ks)" "labelsPendingSig s"
    and old: "\<forall>k \<in> set ks. cont_gen k \<le> labelsScopeGen s"
  shows "labels_inv (l_launch ks rs st)"
proof -
  obtain t where t: "l_calm s t"
    and st: "st = (l_decPending t, None) \<or> (\<exists>r k. st = (t, Some (r, k)) \<and> cont_gen k = labelsScopeGen s)"
    using assms(1) by (auto simp: l_settles_def)
  have gen: "labelsScopeGen t = labelsScopeGen s" and cnt: "l_pendingCount t = Suc (in_scope t ks)"
    and sig: "labelsPendingSig t"
    using t n in_scope_cong [of t s ks] by (simp_all add: l_calm_def)
  from st show ?thesis
  proof
    assume "st = (l_decPending t, None)"
    then show ?thesis using cnt sig old gen in_scope_cong [of "l_decPending t" t ks]
      by (simp add: labels_inv_def) (auto simp: l_decPending_def)
  next
    assume "\<exists>r k. st = (t, Some (r, k)) \<and> cont_gen k = labelsScopeGen s"
    then show ?thesis using cnt sig old gen by (auto simp: labels_inv_def)
  qed
qed

lemma split_nth: "k < length xs \<Longrightarrow> xs = take k xs @ [xs ! k] @ drop (Suc k) xs"
  by (simp add: id_take_nth_drop)

lemma in_scope_remove:
  "k < length ks \<Longrightarrow> in_scope s ks = in_scope s (take k ks @ drop (Suc k) ks) + in_scope s [ks ! k]"
  by (subst split_nth [of k ks]) (simp_all only: in_scope_append add.assoc add.commute)

lemma labels_inv_calm:
  assumes "labels_inv y" and "l_calm (labels y) s"
  shows "labels_inv (y\<lparr>labels := s\<rparr>)"
  using assms in_scope_cong [of s "labels y" "l_waiting y"] by (simp add: labels_inv_def l_calm_def)

lemma labels_inv_step: "labels_inv y \<Longrightarrow> labels_inv (labels_step y e)"
proof -
  assume inv: "labels_inv y"
  then have cnt: "l_pendingCount (labels y) = in_scope (labels y) (l_waiting y)"
    and sig: "labelsPendingSig (labels y) = (l_pendingCount (labels y) \<noteq> 0)"
    and old: "\<forall>k \<in> set (l_waiting y). cont_gen k \<le> labelsScopeGen (labels y)"
    by (simp_all add: labels_inv_def)
  show ?thesis
  proof (cases e)
    case (Mutate i)
    have "labels_inv (l_launch (l_waiting y) (l_sent y) (performMutation i (labels y)))"
      using cnt old in_scope_cong [of "l_incPending (labels y)" "labels y" "l_waiting y"]
      by (intro l_launch_inv [OF mutation_settles]) (auto simp: l_incPending_def)
    then show ?thesis by (simp add: Mutate)
  next
    case ResetScope
    have "in_scope (resetLabelsScope (labels y)) (l_waiting y) = 0"
      using old by (auto simp: in_scope_def resetLabelsScope_def filter_empty_conv)
    then show ?thesis using old by (auto simp: ResetScope labels_inv_def) (auto simp: resetLabelsScope_def)
  next
    case (LabelsSettle k resp)
    show ?thesis
    proof (cases "k < length (l_waiting y)")
      case True
      let ?k = "l_waiting y ! k" and ?ks = "take k (l_waiting y) @ drop (Suc k) (l_waiting y)"
      have old': "\<forall>k \<in> set ?ks. cont_gen k \<le> labelsScopeGen (labels y)"
        using old by (auto dest: in_set_takeD in_set_dropD)
      note rem = in_scope_remove [OF True, of "labels y"]
      show ?thesis
      proof (cases "cont_gen ?k = labelsScopeGen (labels y)")
        case scope: True
        have n: "l_pendingCount (labels y) = Suc (in_scope (labels y) ?ks)" using cnt rem scope by simp
        then have "labelsPendingSig (labels y)" using sig by simp
        from l_launch_inv [OF l_resume_settles [OF scope] n this old'] show ?thesis
          by (simp add: LabelsSettle True)
      next
        case False
        then have "in_scope (labels y) ?ks = l_pendingCount (labels y)" using cnt rem by simp
        then show ?thesis using l_resume_dropped [OF False] sig old'
          by (simp add: LabelsSettle True labels_inv_def)
      qed
    qed (use inv LabelsSettle in simp)
  next
    case (LabelsSnapshot raw)
    have "labels_inv (y\<lparr>labels := applyLabelsSnapshot raw (labels y)\<rparr>)"
      using inv in_scope_cong [of "applyLabelsSnapshot raw (labels y)" "labels y" "l_waiting y"]
      by (auto simp: labels_inv_def applyLabelsSnapshot_def l_adoptServerDoc_def split: option.splits)
    then show ?thesis by (simp add: LabelsSnapshot)
  qed (use labels_inv_calm [OF inv] in simp_all)
qed

text \<open>The generation of the scope moves with a project switch only, and then forward.\<close>

lemma scope_gen_step:
  "labelsScopeGen (labels (labels_step y e)) = labelsScopeGen (labels y) + (if e = ResetScope then 1 else 0)"
proof (cases e)
  case (Mutate i)
  then show ?thesis using mutation_settles [of "labels y" i] by (auto simp: l_settles_def l_calm_def)
next
  case (LabelsSettle k resp)
  then show ?thesis
    using l_resume_settles [of "l_waiting y ! k" "labels y" "putLabels_result resp"]
      l_resume_dropped [of "l_waiting y ! k" "labels y" "putLabels_result resp"]
    by (cases "cont_gen (l_waiting y ! k) = labelsScopeGen (labels y)") (auto simp: l_settles_def l_calm_def)
next
  case (LabelsUpdated raw)
  have "l_calm (labels y) (applyLabelsUpdated raw (labels y))" by simp
  then show ?thesis by (simp add: LabelsUpdated l_calm_def)
next
  case (DropRoot i)
  have "l_calm (labels y) (dropLabelRoot i (labels y))" by simp
  then show ?thesis by (simp add: DropRoot l_calm_def)
qed (simp_all add: applyLabelsSnapshot_def l_adoptServerDoc_def clearLabelsError_def resetLabelsScope_def split: option.split)

lemma scope_gen_run: "labelsScopeGen (labels y) \<le> labelsScopeGen (labels (foldl labels_step y es))"
proof (induction es arbitrary: y)
  case (Cons e es)
  show ?case using Cons.IH [of "labels_step y e"] scope_gen_step [of y e] by (simp split: if_splits)
qed simp

text \<open>A call that was waiting when its project was left is out of scope ever after.\<close>

lemma left_scope:
  assumes "labels_inv y" and "c \<in> set (l_waiting y)"
  shows "cont_gen c < labelsScopeGen (labels (foldl labels_step (labels_step y ResetScope) es))"
proof -
  have "cont_gen c \<le> labelsScopeGen (labels y)" using assms by (simp add: labels_inv_def)
  also have "\<dots> < labelsScopeGen (labels (labels_step y ResetScope))" by (simp add: resetLabelsScope_def)
  also have "\<dots> \<le> labelsScopeGen (labels (foldl labels_step (labels_step y ResetScope) es))" by (rule scope_gen_run)
  finally show ?thesis .
qed

interpretation labels_machine: invariant_machine labels_step labels_inv
  by unfold_locales (rule labels_inv_step)

lemma init_labels_inv: "labels_inv init_labels_sys"
  by (simp add: labels_inv_def init_labels_sys_def init_labels_def in_scope_def)

interpretation labels_authority: cas_authority l_adoptPutResponse ld_revision l_revision
  "\<lambda>s d. serverGroups s = ld_groups d \<and> serverTags s = ld_tags d \<and> serverTagAssign s = ld_assign d"
  by unfold_locales (simp_all add: l_adoptPutResponse_def l_adoptServerDoc_def)

section \<open>How many PUTs\<close>

fun l_retries :: "l_cont \<Rightarrow> nat" where
  "l_retries (AwaitFirst i d r g) = 1"
| "l_retries (AwaitRetry d r g) = 0"

definition l_budget :: "labels_sys \<Rightarrow> nat" where
  "l_budget y = length (l_sent y) + sum_list (map l_retries (l_waiting y))"

fun is_mutation :: "labels_event \<Rightarrow> bool" where
  "is_mutation (Mutate i) = True"
| "is_mutation e = False"

definition l_next :: "l_started \<Rightarrow> l_cont option" where
  "l_next st = map_option snd (snd st)"

lemma l_next_simps [simp]: "l_next (l_finish s) = None" "l_next (l_put b d k s) = Some k" "l_next (s, None) = None"
  by (simp_all add: l_next_def l_finish_def l_put_def)

lemma l_resume_next: "l_next (l_resume k res s) = Some k' \<Longrightarrow> l_retries k' = 0 \<and> l_retries k = 1"
  by (cases k) (auto simp: Let_def split: option.splits if_splits)

lemma l_launch_budget:
  "l_budget (l_launch ks rs st) = length rs + sum_list (map l_retries ks) + (case l_next st of Some k \<Rightarrow> Suc (l_retries k) | None \<Rightarrow> 0)"
  by (cases st; cases "snd st") (auto simp: l_next_def l_budget_def)

lemma l_budget_step: "l_budget (labels_step y e) \<le> l_budget y + (if is_mutation e then 2 else 0)"
proof (cases e)
  case (Mutate i)
  have "l_next (performMutation i (labels y)) = Some k \<Longrightarrow> l_retries k = 1" for k
    by (auto simp: performMutation_def Let_def split: if_splits)
  then show ?thesis using l_launch_budget [of "l_waiting y" "l_sent y" "performMutation i (labels y)"]
    by (simp add: Mutate l_budget_def [of y] split: option.splits)
next
  case (LabelsSettle k resp)
  show ?thesis
  proof (cases "k < length (l_waiting y)")
    case True
    have "(case l_next (l_resume (l_waiting y ! k) (putLabels_result resp) (labels y)) of Some k' \<Rightarrow> Suc (l_retries k') | None \<Rightarrow> 0)
        \<le> l_retries (l_waiting y ! k)"
      using l_resume_next [of "l_waiting y ! k" "putLabels_result resp" "labels y"] by (simp split: option.split)
    moreover have "sum_list (map l_retries (l_waiting y)) =
        sum_list (map l_retries (take k (l_waiting y) @ drop (Suc k) (l_waiting y))) + l_retries (l_waiting y ! k)"
      by (subst split_nth [OF True]) simp
    ultimately show ?thesis by (simp add: LabelsSettle True l_launch_budget l_budget_def [of y] del: map_append)
  qed (simp add: LabelsSettle)
qed (simp_all add: l_budget_def)

lemma l_budget_run:
  "l_budget (foldl labels_step y es) \<le> l_budget y + 2 * length (filter is_mutation es)"
proof (induction es arbitrary: y)
  case (Cons e es)
  show ?case using Cons.IH [of "labels_step y e"] l_budget_step [of y e] by (cases "is_mutation e") simp_all
qed simp

section \<open>Failures, and results of a scope that was left\<close>

definition l_plain_failure :: "l_result \<Rightarrow> bool" where
  "l_plain_failure res \<longleftrightarrow> l_doc_at [200] res = None \<and> l_doc_at [409, 400] res = None"

lemma doc_of_apply [simp]:
  "currentServerDoc (applyDoc (currentServerDoc s) t) = currentServerDoc s\<lparr>ld_revision := l_revision t\<rparr>"
  by (simp add: currentServerDoc_def applyDoc_def)

lemma l_failed_mutation_restores:
  assumes start: "performMutation i s = (s1, Some (r, k))" and fail: "l_plain_failure res"
  shows "\<exists>t. l_resume k res s1 = (t, None) \<and> currentServerDoc t = currentServerDoc s \<and>
    labelsErrorSig t = Some (l_failure res)"
proof -
  have k: "k = AwaitFirst i (currentServerDoc s) (l_revision s) (labelsScopeGen s)"
    and s1: "l_revision s1 = l_revision s" "labelsScopeGen s1 = labelsScopeGen s"
    using start
    by (auto simp: performMutation_def Let_def l_finish_def l_put_def applyDoc_def clearLabelsError_def split: if_splits)
  have no: "l_doc_at [200] res = None" "l_doc_at [409, 400] res = None" using fail by (simp_all add: l_plain_failure_def)
  show ?thesis
    using s1 by (simp add: k no l_finish_def rollbackDocIfUnchanged_def)
      (simp add: l_setError_def currentServerDoc_def applyDoc_def)
qed

lemma contentEqual_iff:
  assumes "js_wf (ld_assign a)" and "js_wf (ld_assign b)"
  shows "contentEqual a b \<longleftrightarrow> ld_groups a = ld_groups b \<and> ld_tags a = ld_tags b \<and> js_get (ld_assign a) = js_get (ld_assign b)"
proof -
  let ?A = "ld_assign a" and ?B = "ld_assign b"
  have "length (js_keys ?A) = length (js_keys ?B) \<and>
      list_all (\<lambda>k. js_get ?B k \<noteq> None \<and> js_get ?A k = js_get ?B k) (js_keys ?A) \<longleftrightarrow> js_get ?A = js_get ?B"
  proof
    assume eq: "length (js_keys ?A) = length (js_keys ?B) \<and>
      list_all (\<lambda>k. js_get ?B k \<noteq> None \<and> js_get ?A k = js_get ?B k) (js_keys ?A)"
    have "set (js_keys ?A) \<subseteq> set (js_keys ?B)" using eq by (auto simp: list_all_iff js_keys_iff)
    moreover have "card (set (js_keys ?A)) = card (set (js_keys ?B))"
      using eq assms by (simp add: js_wf_keys distinct_card)
    ultimately have keys: "set (js_keys ?A) = set (js_keys ?B)" by (simp add: card_subset_eq)
    show "js_get ?A = js_get ?B"
    proof
      fix k
      show "js_get ?A k = js_get ?B k"
      proof (cases "k \<in> set (js_keys ?A)")
        case True
        then show ?thesis using eq by (simp add: list_all_iff)
      next
        case False
        moreover from this have "k \<notin> set (js_keys ?B)" using keys by simp
        ultimately show ?thesis unfolding js_keys_iff by simp
      qed
    qed
  next
    assume eq: "js_get ?A = js_get ?B"
    then have "set (js_keys ?A) = set (js_keys ?B)" by (auto simp: js_keys_iff)
    then have "length (js_keys ?A) = length (js_keys ?B)" using assms by (metis distinct_card js_wf_keys)
    then show "length (js_keys ?A) = length (js_keys ?B) \<and>
      list_all (\<lambda>k. js_get ?B k \<noteq> None \<and> js_get ?A k = js_get ?B k) (js_keys ?A)"
      using eq by (simp add: list_all_iff js_keys_iff)
  qed
  then show ?thesis by (simp only: contentEqual_def)
qed

lemma dropLabelRoot_spec:
  assumes "connectedSig s" and "js_wf (serverTagAssign s)"
  shows "in_group (currentServerDoc (dropLabelRoot i s)) r g \<longleftrightarrow> r \<noteq> i \<and> in_group (currentServerDoc s) r g"
    and "has_tag (currentServerDoc (dropLabelRoot i s)) r t \<longleftrightarrow> r \<noteq> i \<and> has_tag (currentServerDoc s) r t"
proof -
  have roots: "lg_roots (drop_root i h) = filter (\<lambda>r. r \<noteq> i) (lg_roots h)" "lg_id (drop_root i h) = lg_id h" for h
    using filter_same_length [of "\<lambda>r. r \<noteq> i" "lg_roots h"] by (auto simp: drop_root_def Let_def)
  let ?assign = "if js_has (serverTagAssign s) i then js_delete i (serverTagAssign s) else serverTagAssign s"
  let ?changed = "(\<exists>g \<in> set (serverGroups s). length (filter (\<lambda>r. r \<noteq> i) (lg_roots g)) \<noteq> length (lg_roots g))
      \<or> js_has (serverTagAssign s) i"
  have d: "dropLabelRoot i s = (if \<not> ?changed then s
      else applyDoc ((currentServerDoc s)\<lparr>ld_groups := map (drop_root i) (serverGroups s), ld_assign := ?assign\<rparr>) s)"
    using assms(1) by (simp add: dropLabelRoot_def Let_def currentServerDoc_def)
  have none: "i \<notin> set (lg_roots g)" if "\<not> ?changed" "g \<in> set (serverGroups s)" for g
    using that filter_same_length [of "\<lambda>r. r \<noteq> i" "lg_roots g"] by (auto simp: filter_id_conv)
  show "in_group (currentServerDoc (dropLabelRoot i s)) r g \<longleftrightarrow> r \<noteq> i \<and> in_group (currentServerDoc s) r g"
  proof (cases ?changed)
    case True
    then show ?thesis unfolding d by (simp add: in_group_def currentServerDoc_def applyDoc_def roots) blast
  next
    case False
    then show ?thesis using none [OF False] unfolding d by (auto simp: in_group_def currentServerDoc_def)
  qed
  show "has_tag (currentServerDoc (dropLabelRoot i s)) r t \<longleftrightarrow> r \<noteq> i \<and> has_tag (currentServerDoc s) r t"
    unfolding d by (auto simp: has_tag_def currentServerDoc_def applyDoc_def split: option.split)
qed

end
