(* ===== verification/LabelProps.thy ===== *)
theory LabelProps
  imports LabelsInv DragReorder
begin

text \<open>
  The properties of the label facade and of the
  drag reordering, each with a use on a concrete document.
\<close>

section \<open>A concrete document\<close>

definition demo_labels :: labels_doc where
  "demo_labels = \<lparr>ld_revision = 4,
     ld_groups = [\<lparr>lg_id = ''g'', lg_name = ''G'', lg_color = ''red'', lg_collapsed = False, lg_roots = [''r'']\<rparr>,
       \<lparr>lg_id = ''h'', lg_name = ''H'', lg_color = ''blue'', lg_collapsed = True, lg_roots = [''q'']\<rparr>],
     ld_tags = [\<lparr>lt_id = ''t'', lt_name = ''T'', lt_color = ''red''\<rparr>],
     ld_assign = [(''r'', [''t''])]\<rparr>"

lemma demo_labels_wf: "ldoc_wf demo_labels"
  by (simp add: demo_labels_def ldoc_wf_def groups_wf_def tags_wf_def assign_wf_def js_wf_def)

definition demo_facade :: labels_state where
  "demo_facade = l_adoptServerDoc demo_labels init_labels"

section \<open>Documents\<close>

text \<open>C16: Whatever JSON a frame or a response carries, the document the client takes from it is well formed:
  group and tag ids unique and non-empty, every root in at most one group and once, assignments without
  duplicates or dangling tags; only a value that is no object yields none.\<close>

theorem coercion_repairs:
  "case coerceLabelsDoc j of None \<Rightarrow> \<not> is_object j | Some d \<Rightarrow> ldoc_wf d"
  using coerce_wf [of j] by (cases "coerceLabelsDoc j") (auto simp: coerceLabelsDoc_def Let_def split: if_splits)

text \<open>C37: A well-formed document survives the wire unchanged: the repairs of the coercion never touch it.\<close>

theorem coercion_roundtrip:
  assumes "ldoc_wf d"
  shows "coerceLabelsDoc (labels_json d) = Some d"
  using assms by (rule coerce_labels_json)

theorem coercion_roundtrip_witness: "coerceLabelsDoc (labels_json demo_labels) = Some demo_labels"
  by (rule coercion_roundtrip [OF demo_labels_wf])

text \<open>C33: Every label action keeps the document well formed, given a fresh id for what it creates and a
  non-empty root.\<close>

theorem actions_keep_wf:
  assumes "ldoc_wf d" and "intent_ok i d"
  shows "ldoc_wf (apply_intent i d)"
  using assms by (rule intent_wf)

theorem actions_keep_wf_witness:
  "ldoc_wf (apply_intent (MoveRootToGroup ''r'' (Some ''h'')) demo_labels)"
  by (rule actions_keep_wf [OF demo_labels_wf]) simp

text \<open>C34: Moving a root to a group puts it in that group and in no other, takes it out of all when the
  target is none or unknown, and leaves the groups of every other root alone.\<close>

theorem move_is_exclusive:
  assumes "ldoc_wf d" and "r \<noteq> []"
  shows "(in_group (apply_intent (MoveRootToGroup r target) d) x i \<longleftrightarrow>
      (if x = r then target = Some i \<and> i \<in> lg_id ` set (ld_groups d) else in_group d x i)) \<and>
    (in_group (apply_intent (MoveRootToGroup r target) d) x i \<and>
     in_group (apply_intent (MoveRootToGroup r target) d) x j \<longrightarrow> i = j)"
  using move_root_membership [of r target d x i] groups_exclusive [OF intent_wf [OF assms(1)], of "MoveRootToGroup r target" x i j] assms(2)
  by simp

theorem move_is_exclusive_witness:
  "in_group (apply_intent (MoveRootToGroup ''r'' (Some ''h'')) demo_labels) ''r'' ''h'' \<and>
   \<not> in_group (apply_intent (MoveRootToGroup ''r'' (Some ''h'')) demo_labels) ''r'' ''g''"
  using move_is_exclusive [OF demo_labels_wf, of "''r''" "Some ''h''" "''r''" "''h''"]
    move_is_exclusive [OF demo_labels_wf, of "''r''" "Some ''h''" "''r''" "''g''"]
  by (simp add: demo_labels_def)

text \<open>C35: Replaying an action on its own result, as a rebase does when the first PUT had already taken
  effect, changes nothing for every action that names its outcome.\<close>

theorem rebase_is_harmless:
  assumes "ldoc_wf d" and "declarative i"
  shows "contentEqual (apply_intent i (apply_intent i d)) (apply_intent i d)"
  using assms by (rule replay_harmless)

theorem rebase_is_harmless_witness:
  "contentEqual (apply_intent (ReorderGroup ''h'' 0) (apply_intent (ReorderGroup ''h'' 0) demo_labels))
     (apply_intent (ReorderGroup ''h'' 0) demo_labels)"
  by (rule rebase_is_harmless [OF demo_labels_wf]) simp

section \<open>The facade\<close>

text \<open>C15: Over every interleaving, project switches included, the pending count is the number of unanswered
  PUTs of the current project, and no PUT of a project that was left counts.\<close>

theorem pending_is_scoped:
  "l_pendingCount (labels (foldl labels_step init_labels_sys es)) =
     length (filter (\<lambda>k. cont_gen k = labelsScopeGen (labels (foldl labels_step init_labels_sys es)))
       (l_waiting (foldl labels_step init_labels_sys es))) \<and>
   labelsPendingSig (labels (foldl labels_step init_labels_sys es)) =
     (l_pendingCount (labels (foldl labels_step init_labels_sys es)) \<noteq> 0)"
  using labels_machine.run_preserves [OF init_labels_inv, of es] by (simp add: labels_inv_def in_scope_def)

text \<open>C14: A label PUT that was waiting when its project was left stays silent for good: whenever its answer
  comes, after any events of the new project (its snapshot, its own actions and their answers, further
  switches, other late answers), and whatever the answer is, nothing happens but that the call stops
  waiting: no label, no revision, no pending count and no error changes and no PUT is sent.\<close>

theorem left_scope_is_silent:
  assumes "z = foldl labels_step (labels_step (foldl labels_step init_labels_sys es) ResetScope) es'"
    and "k < length (l_waiting z)" and "l_waiting z ! k \<in> set (l_waiting (foldl labels_step init_labels_sys es))"
  shows "labels_step z (LabelsSettle k resp) = z\<lparr>l_waiting := take k (l_waiting z) @ drop (Suc k) (l_waiting z)\<rparr>"
proof -
  have "labels_inv (foldl labels_step init_labels_sys es)" using labels_machine.run_preserves [OF init_labels_inv] .
  from left_scope [OF this assms(3), of es'] have "cont_gen (l_waiting z ! k) \<noteq> labelsScopeGen (labels z)"
    unfolding assms(1) by (rule less_imp_neq)
  from l_resume_dropped [OF this] show ?thesis using assms(2) by (simp add: l_launch_def)
qed

text \<open>A rename is in flight when the project is left; its conflict answer comes after the snapshot of the
  new project and a rename there, and changes neither.\<close>

definition left_run :: "labels_event list" where
  "left_run = [LabelsSnapshot (labels_json demo_labels), Mutate (RenameGroup ''g'' ''X'')]"

definition new_run :: "labels_event list" where
  "new_run = [LabelsSnapshot (labels_json demo_labels), Mutate (RenameGroup ''h'' ''Y'')]"

lemma demo_snapshot:
  "labels_step y (LabelsSnapshot (labels_json demo_labels)) = y\<lparr>labels := l_adoptServerDoc demo_labels (labels y)\<rparr>"
  by (simp add: applyLabelsSnapshot_def coerce_labels_json [OF demo_labels_wf])

lemma demo_rename:
  assumes "i = ''g'' \<and> nm = ''X'' \<or> i = ''h'' \<and> nm = ''Y''"
  shows "performMutation (RenameGroup i nm) (l_adoptServerDoc demo_labels s) =
    l_put 4 (apply_intent (RenameGroup i nm) demo_labels) (AwaitFirst (RenameGroup i nm) demo_labels 4 (labelsScopeGen s))
      (applyDoc (apply_intent (RenameGroup i nm) demo_labels) (clearLabelsError (l_incPending (l_adoptServerDoc demo_labels s))))"
proof -
  have "currentServerDoc (l_incPending (l_adoptServerDoc demo_labels s)) = demo_labels"
    "l_revision (l_incPending (l_adoptServerDoc demo_labels s)) = 4"
    by (simp_all add: currentServerDoc_def l_incPending_def l_adoptServerDoc_def demo_labels_def)
  moreover have "\<not> contentEqual (apply_intent (RenameGroup i nm) demo_labels) demo_labels"
    using assms by (auto simp: contentEqual_def edit_group_def demo_labels_def)
  ultimately show ?thesis by (simp add: performMutation_def l_adoptServerDoc_def Let_def del: apply_intent.simps)
qed

lemma left_run_state:
  "l_waiting (foldl labels_step init_labels_sys left_run) = [AwaitFirst (RenameGroup ''g'' ''X'') demo_labels 4 0]"
  "l_waiting (foldl labels_step (labels_step (foldl labels_step init_labels_sys left_run) ResetScope) new_run) =
     [AwaitFirst (RenameGroup ''g'' ''X'') demo_labels 4 0, AwaitFirst (RenameGroup ''h'' ''Y'') demo_labels 4 1]"
  "map lg_name (serverGroups (labels (foldl labels_step (labels_step (foldl labels_step init_labels_sys left_run) ResetScope) new_run))) = [''G'', ''Y'']"
proof -
  have gen: "labelsScopeGen (resetLabelsScope (applyDoc d (clearLabelsError (l_incPending (l_adoptServerDoc e init_labels))))) = 1" for d e
    by (simp add: resetLabelsScope_def applyDoc_def clearLabelsError_def l_incPending_def l_adoptServerDoc_def init_labels_def)
  have names: "map lg_name (ld_groups (apply_intent (RenameGroup ''h'' ''Y'') demo_labels)) = [''G'', ''Y'']"
    by (simp add: edit_group_def demo_labels_def)
  have start: "labels init_labels_sys = init_labels" "l_waiting init_labels_sys = []" "labelsScopeGen init_labels = 0"
    by (simp_all add: init_labels_sys_def init_labels_def)
  note run = left_run_def new_run_def demo_snapshot demo_rename l_put_def gen start
  show "l_waiting (foldl labels_step init_labels_sys left_run) = [AwaitFirst (RenameGroup ''g'' ''X'') demo_labels 4 0]"
    by (simp add: run del: apply_intent.simps labels_step.simps(1))
  show "l_waiting (foldl labels_step (labels_step (foldl labels_step init_labels_sys left_run) ResetScope) new_run) =
     [AwaitFirst (RenameGroup ''g'' ''X'') demo_labels 4 0, AwaitFirst (RenameGroup ''h'' ''Y'') demo_labels 4 1]"
    by (simp add: run del: apply_intent.simps labels_step.simps(1))
  show "map lg_name (serverGroups (labels (foldl labels_step (labels_step (foldl labels_step init_labels_sys left_run) ResetScope) new_run))) = [''G'', ''Y'']"
    by (simp add: run applyDoc_def names del: apply_intent.simps labels_step.simps(1))
qed

theorem left_scope_is_silent_witness:
  "map lg_name (serverGroups (labels (labels_step (foldl labels_step (labels_step (foldl labels_step init_labels_sys left_run) ResetScope) new_run)
     (LabelsSettle 0 (L_Http 409 (labels_json demo_labels)))))) = [''G'', ''Y'']"
proof -
  let ?z = "foldl labels_step (labels_step (foldl labels_step init_labels_sys left_run) ResetScope) new_run"
  have "labels_step ?z (LabelsSettle 0 (L_Http 409 (labels_json demo_labels))) =
      ?z\<lparr>l_waiting := take 0 (l_waiting ?z) @ drop (Suc 0) (l_waiting ?z)\<rparr>"
    by (rule left_scope_is_silent [OF refl]) (simp_all only: left_run_state length_Cons zero_less_Suc nth_Cons_0 list.set insertI1)
  then show ?thesis by (simp add: left_run_state(3) del: labels_step.simps)
qed

text \<open>C36: An action whose PUT fails with nothing in between gives back the whole document it started from
  and shows the error.\<close>

theorem failed_label_action_restores:
  assumes "performMutation i s = (s1, Some (r, k))" and "l_plain_failure res"
  shows "\<exists>t. l_resume k res s1 = (t, None) \<and> currentServerDoc t = currentServerDoc s \<and>
    labelsErrorSig t = Some (l_failure res)"
  using assms by (rule l_failed_mutation_restores)

theorem failed_label_action_restores_witness:
  "\<exists>s1 r k t. performMutation (DeleteGroup ''g'') demo_facade = (s1, Some (r, k)) \<and>
    l_resume k \<lparr>lr_status = 0, lr_doc = None\<rparr> s1 = (t, None) \<and> currentServerDoc t = currentServerDoc demo_facade"
proof -
  have "\<exists>s1 r k. performMutation (DeleteGroup ''g'') demo_facade = (s1, Some (r, k))"
    by (simp add: performMutation_def demo_facade_def demo_labels_def l_adoptServerDoc_def currentServerDoc_def
        l_incPending_def contentEqual_def l_put_def Let_def)
  then obtain s1 r k where st: "performMutation (DeleteGroup ''g'') demo_facade = (s1, Some (r, k))" by blast
  have "l_plain_failure \<lparr>lr_status = 0, lr_doc = None\<rparr>" by (simp add: l_plain_failure_def l_doc_at_def)
  from failed_label_action_restores [OF st this] st show ?thesis by blast
qed

section \<open>Reordering by drag\<close>



end
