(* ===== verification/LabelSelectors.thy ===== *)
theory LabelSelectors
  imports TreeSelectors LabelsDoc
begin

text \<open>
  The label selectors of \<^verbatim>\<open>web/src/sync/treeSelectors.ts\<close>: the group and the tags of a root,
  the AND filter, and the partition of the tree into the pinned, grouped and ungrouped
  sections the session list renders.
\<close>

record pinned_hint =
  ph_node :: tree_node
  ph_group :: "label_group option"

record section_group =
  sg_group :: label_group
  sg_roots :: "tree_node list"

record labeled_sections =
  ls_pinned :: "pinned_hint list"
  ls_groups :: "section_group list"
  ls_ungrouped :: "tree_node list"

definition groupOfRoot :: "label_group list \<Rightarrow> string \<Rightarrow> label_group option" where
  "groupOfRoot groups r = List.find (\<lambda>g. r \<in> set (lg_roots g)) groups"

definition tagsOfRoot :: "tag_assign \<Rightarrow> string \<Rightarrow> string list" where
  "tagsOfRoot assign r = (case js_get assign r of Some ids \<Rightarrow> ids | None \<Rightarrow> [])"

definition matchesAllTags :: "tag_assign \<Rightarrow> string \<Rightarrow> string list \<Rightarrow> bool" where
  "matchesAllTags assign r selected =
     (if length selected = 0 then True else list_all (\<lambda>t. t \<in> set (tagsOfRoot assign r)) selected)"

definition effectiveExpanded :: "label_group \<Rightarrow> bool \<Rightarrow> bool" where
  "effectiveExpanded g filterActive \<longleftrightarrow> filterActive \<or> \<not> lg_collapsed g"

definition pinnedRootsWithGroupHintFrom :: "tree_flat_map \<Rightarrow> string list \<Rightarrow> label_group list \<Rightarrow> pinned_hint list" where
  "pinnedRootsWithGroupHintFrom m pinnedOrder groups =
     map (\<lambda>n. \<lparr>ph_node = n, ph_group = groupOfRoot groups (nid n)\<rparr>) (selectPinnedNodes m pinnedOrder)"

text \<open>
  One id of a group's ordered list: the roots collected for the group and the ids placed so
  far, as the inner loop updates them.
\<close>

definition place_root ::
  "tree_flat_map \<Rightarrow> string list \<Rightarrow> tag_assign \<Rightarrow> string list \<Rightarrow> string \<Rightarrow>
     tree_node list \<times> string list \<Rightarrow> tree_node list \<times> string list" where
  "place_root m pinnedIds assign selected i = (\<lambda>(roots, placed).
     if i \<in> set placed then (roots, placed)
     else if i \<in> set pinnedIds then (roots, placed)
     else case js_get m i of
            None \<Rightarrow> (roots, placed)
          | Some n \<Rightarrow>
              if parentId n \<noteq> None then (roots, placed)
              else if \<not> matchesAllTags assign i selected then (roots, placed)
              else (roots @ [n], placed @ [i]))"

definition place_group ::
  "tree_flat_map \<Rightarrow> string list \<Rightarrow> tag_assign \<Rightarrow> string list \<Rightarrow> label_group \<Rightarrow>
     section_group list \<times> string list \<Rightarrow> section_group list \<times> string list" where
  "place_group m pinnedIds assign selected g = (\<lambda>(sections, placed).
     let (roots, placed') = fold (place_root m pinnedIds assign selected) (lg_roots g) ([], placed)
     in if length selected > 0 \<and> length roots = 0 then (sections, placed')
        else (sections @ [\<lparr>sg_group = g, sg_roots = roots\<rparr>], placed'))"

definition selectLabeledSections ::
  "tree_flat_map \<Rightarrow> tree_node list \<Rightarrow> string list \<Rightarrow> labels_doc \<Rightarrow> string list \<Rightarrow> labeled_sections" where
  "selectLabeledSections m rankedRoots pinnedOrder doc selected =
     (let filterActive = length selected > 0;
          groups = ld_groups doc;
          assign = ld_assign doc;
          pinnedForest = selectPinnedNodes m pinnedOrder;
          pinnedIds = map nid pinnedForest;
          pinned = map (\<lambda>n. \<lparr>ph_node = n, ph_group = groupOfRoot groups (nid n)\<rparr>)
            (filter (\<lambda>n. \<not> filterActive \<or> (parentId n = None \<and> matchesAllTags assign (nid n) selected)) pinnedForest);
          sections = fst (fold (place_group m pinnedIds assign selected) groups ([], []));
          groupedIds = concat (map lg_roots groups);
          ungrouped = filter (\<lambda>n. parentId n = None \<and> nid n \<notin> set pinnedIds \<and> nid n \<notin> set groupedIds \<and>
            matchesAllTags assign (nid n) selected) rankedRoots
      in \<lparr>ls_pinned = pinned, ls_groups = sections, ls_ungrouped = ungrouped\<rparr>)"

section \<open>The partition\<close>

text \<open>The ids a section puts on screen.\<close>

definition pinned_ids :: "labeled_sections \<Rightarrow> string list" where
  "pinned_ids x = map (\<lambda>h. nid (ph_node h)) (ls_pinned x)"

definition grouped_ids :: "labeled_sections \<Rightarrow> string list" where
  "grouped_ids x = concat (map (\<lambda>sg. map nid (sg_roots sg)) (ls_groups x))"

definition ungrouped_ids :: "labeled_sections \<Rightarrow> string list" where
  "ungrouped_ids x = map nid (ls_ungrouped x)"

text \<open>A resident root that is not rendered as pinned and passes the filter.\<close>

definition placeable :: "tree_flat_map \<Rightarrow> string list \<Rightarrow> tag_assign \<Rightarrow> string list \<Rightarrow> string \<Rightarrow> bool" where
  "placeable m pinnedIds assign selected i \<longleftrightarrow> i \<notin> set pinnedIds \<and> matchesAllTags assign i selected \<and>
     (case js_get m i of Some n \<Rightarrow> parentId n = None | None \<Rightarrow> False)"

lemma place_root_cases:
  "place_root m P a sel i (roots, placed) =
     (if i \<notin> set placed \<and> placeable m P a sel i then (roots @ [the (js_get m i)], placed @ [i]) else (roots, placed))"
  by (auto simp: place_root_def placeable_def split: option.splits)

lemma place_roots:
  assumes wf: "tm_wf m" and "distinct placed"
    and "fold (place_root m P a sel) ids (roots, placed) = (roots', placed')"
  shows "\<exists>new. placed' = placed @ map nid new \<and> roots' = roots @ new \<and> distinct placed' \<and>
    set placed' = set placed \<union> {i \<in> set ids. placeable m P a sel i}"
  using assms(2,3)
proof (induction ids arbitrary: roots placed)
  case Nil
  then show ?case by simp
next
  case (Cons i ids)
  show ?case
  proof (cases "i \<notin> set placed \<and> placeable m P a sel i")
    case False
    have "place_root m P a sel i (roots, placed) = (roots, placed)"
      unfolding place_root_cases by (rule if_not_P [OF False])
    then have "fold (place_root m P a sel) ids (roots, placed) = (roots', placed')"
      using Cons.prems(2) by simp
    from Cons.IH [OF Cons.prems(1) this] False show ?thesis by auto
  next
    case True
    then obtain n where n: "js_get m i = Some n" by (auto simp: placeable_def split: option.splits)
    have "nid n = i" using wf n by auto
    have "fold (place_root m P a sel) ids (roots @ [n], placed @ [i]) = (roots', placed')"
      using Cons.prems(2) True n by (simp add: place_root_cases)
    from Cons.IH [OF _ this] Cons.prems(1) True obtain new where
      new: "placed' = placed @ [i] @ map nid new" "roots' = roots @ [n] @ new" "distinct placed'"
        "set placed' = set (placed @ [i]) \<union> {i \<in> set ids. placeable m P a sel i}"
      by auto
    show ?thesis
      by (rule exI [of _ "n # new"]) (use new \<open>nid n = i\<close> True in auto)
  qed
qed

lemma place_groups:
  assumes wf: "tm_wf m" and "distinct placed"
    and "fold (place_group m P a sel) gs (secs, placed) = (secs', placed')"
    and "placed = concat (map (\<lambda>sg. map nid (sg_roots sg)) secs)"
  shows "placed' = concat (map (\<lambda>sg. map nid (sg_roots sg)) secs') \<and> distinct placed' \<and>
    set placed' = set placed \<union> {i \<in> set (concat (map lg_roots gs)). placeable m P a sel i}"
  using assms(2-4)
proof (induction gs arbitrary: secs placed)
  case Nil
  have s: "secs' = secs" and p: "placed' = placed" using Nil.prems(2) by simp_all
  show ?case unfolding s p using Nil.prems(1,3) by simp
next
  case (Cons g gs)
  obtain roots pl where f: "fold (place_root m P a sel) (lg_roots g) ([], placed) = (roots, pl)"
    by (metis prod.exhaust)
  from place_roots [OF wf Cons.prems(1) f] obtain new where
    new: "pl = placed @ map nid new" "roots = [] @ new" "distinct pl"
    "set pl = set placed \<union> {i \<in> set (lg_roots g). placeable m P a sel i}"
    by blast
  then have pl: "pl = placed @ map nid roots" "distinct pl"
    "set pl = set placed \<union> {i \<in> set (lg_roots g). placeable m P a sel i}"
    by (simp_all only: append_Nil)
  let ?secs = "if length sel > 0 \<and> length roots = 0 then secs else secs @ [\<lparr>sg_group = g, sg_roots = roots\<rparr>]"
  have "place_group m P a sel g (secs, placed) = (?secs, pl)"
    by (simp add: place_group_def f)
  then have "fold (place_group m P a sel) gs (?secs, pl) = (secs', placed')"
    using Cons.prems(2) by simp
  moreover have "pl = concat (map (\<lambda>sg. map nid (sg_roots sg)) ?secs)"
    using pl(1) Cons.prems(3) by simp
  ultimately have "placed' = concat (map (\<lambda>sg. map nid (sg_roots sg)) secs') \<and> distinct placed' \<and>
    set placed' = set pl \<union> {i \<in> set (concat (map lg_roots gs)). placeable m P a sel i}"
    by (rule Cons.IH [OF pl(2)])
  then have ord: "placed' = concat (map (\<lambda>sg. map nid (sg_roots sg)) secs')" "distinct placed'"
    and cover: "set placed' = set pl \<union> {i \<in> set (concat (map lg_roots gs)). placeable m P a sel i}"
    by blast+
  have "set placed' = set placed \<union> {i \<in> set (concat (map lg_roots (g # gs))). placeable m P a sel i}"
    unfolding cover pl(3) by auto
  then show ?case using ord by blast
qed

lemma grouped_ids_eq:
  fixes m :: tree_flat_map and rr :: "tree_node list" and po sel :: "string list" and doc :: labels_doc
  assumes "tm_wf m"
  defines "x \<equiv> selectLabeledSections m rr po doc sel"
  shows "distinct (grouped_ids x)"
    and "set (grouped_ids x) = {i \<in> set (concat (map lg_roots (ld_groups doc))).
      placeable m (map nid (selectPinnedNodes m po)) (ld_assign doc) sel i}"
proof -
  let ?P = "map nid (selectPinnedNodes m po)"
  obtain secs placed where f: "fold (place_group m ?P (ld_assign doc) sel) (ld_groups doc) ([], []) = (secs, placed)"
    by (metis prod.exhaust)
  have x: "ls_groups x = secs" by (simp add: x_def selectLabeledSections_def Let_def f)
  have c: "placed = grouped_ids x \<and> distinct placed \<and>
    set placed = set [] \<union> {i \<in> set (concat (map lg_roots (ld_groups doc))). placeable m ?P (ld_assign doc) sel i}"
    unfolding grouped_ids_def x by (rule place_groups [OF assms(1) _ f]) simp_all
  have g: "grouped_ids x = placed" using c by (rule conjunct1 [THEN sym])
  show "distinct (grouped_ids x)" unfolding g using c by blast
  have "set placed = set [] \<union> {i \<in> set (concat (map lg_roots (ld_groups doc))). placeable m ?P (ld_assign doc) sel i}"
    using c by blast
  then show "set (grouped_ids x) = {i \<in> set (concat (map lg_roots (ld_groups doc))). placeable m ?P (ld_assign doc) sel i}"
    unfolding g by (simp only: list.set Un_empty_left)
qed

text \<open>
  The three sections are disjoint and, for the resident roots handed in, complete: a root
  that passes the filter is on screen exactly once, and one that does not is nowhere.
\<close>

lemma sections_disjoint:
  fixes m :: tree_flat_map and rr :: "tree_node list" and po sel :: "string list" and doc :: labels_doc
  assumes "tm_wf m"
  defines "x \<equiv> selectLabeledSections m rr po doc sel"
  shows "set (pinned_ids x) \<inter> set (grouped_ids x) = {}" "set (pinned_ids x) \<inter> set (ungrouped_ids x) = {}"
    "set (grouped_ids x) \<inter> set (ungrouped_ids x) = {}"
proof -
  have "set (pinned_ids x) \<subseteq> nid ` set (selectPinnedNodes m po)"
    by (auto simp: x_def selectLabeledSections_def Let_def pinned_ids_def)
  then show "set (pinned_ids x) \<inter> set (grouped_ids x) = {}" "set (pinned_ids x) \<inter> set (ungrouped_ids x) = {}"
    using grouped_ids_eq(2) [OF assms(1), of rr po doc sel]
    by (auto simp: x_def placeable_def) (auto simp: selectLabeledSections_def Let_def ungrouped_ids_def)
  show "set (grouped_ids x) \<inter> set (ungrouped_ids x) = {}"
    using grouped_ids_eq(2) [OF assms(1), of rr po doc sel]
    by (auto simp: x_def) (auto simp: selectLabeledSections_def Let_def ungrouped_ids_def)
qed

lemma sections_complete:
  fixes m :: tree_flat_map and rr :: "tree_node list" and po sel :: "string list" and doc :: labels_doc
  assumes wf: "tm_wf m" and n: "n \<in> set rr" "js_get m (nid n) = Some n" "parentId n = None"
  defines "x \<equiv> selectLabeledSections m rr po doc sel"
  shows "nid n \<in> set (pinned_ids x) \<union> set (grouped_ids x) \<union> set (ungrouped_ids x)
    \<longleftrightarrow> matchesAllTags (ld_assign doc) (nid n) sel"
proof -
  have pin: "nid n \<in> set (pinned_ids x) \<longleftrightarrow> nid n \<in> nid ` set (selectPinnedNodes m po) \<and>
      matchesAllTags (ld_assign doc) (nid n) sel"
  proof -
    have same: "p = n" if "p \<in> set (selectPinnedNodes m po)" "nid p = nid n" for p
      using that n(2) selectPinnedNodes_mem [OF wf, of p po] by simp
    show ?thesis
      using n(3) same
      by (auto simp: x_def selectLabeledSections_def Let_def pinned_ids_def matchesAllTags_def image_iff)
  qed
  have "nid n \<in> set (ungrouped_ids x) \<longleftrightarrow> nid n \<notin> nid ` set (selectPinnedNodes m po) \<and>
      nid n \<notin> set (concat (map lg_roots (ld_groups doc))) \<and> matchesAllTags (ld_assign doc) (nid n) sel"
    using n by (auto simp: x_def selectLabeledSections_def Let_def ungrouped_ids_def image_iff)
  moreover have "nid n \<in> set (grouped_ids x) \<longleftrightarrow> nid n \<notin> nid ` set (selectPinnedNodes m po) \<and>
      nid n \<in> set (concat (map lg_roots (ld_groups doc))) \<and> matchesAllTags (ld_assign doc) (nid n) sel"
    unfolding x_def grouped_ids_eq(2) [OF wf] using n by (auto simp: placeable_def)
  ultimately show ?thesis using pin by blast
qed

lemma groupOfRoot_iff:
  assumes "ldoc_wf d"
  shows "groupOfRoot (ld_groups d) r = Some g \<longleftrightarrow> g \<in> set (ld_groups d) \<and> r \<in> set (lg_roots g)"
proof -
  have "distinct (concat (map lg_roots gs)) \<Longrightarrow>
    List.find (\<lambda>g. r \<in> set (lg_roots g)) gs = Some g \<longleftrightarrow> g \<in> set gs \<and> r \<in> set (lg_roots g)" for gs
    by (induction gs) auto
  then show ?thesis using assms by (simp add: groupOfRoot_def ldoc_wf_def groups_wf_def)
qed

section \<open>Lookups on the facade\<close>

definition groupOf :: "labels_state \<Rightarrow> string \<Rightarrow> label_group option" where
  "groupOf s r = groupOfRoot (serverGroups s) r"

definition tagsOf :: "labels_state \<Rightarrow> string \<Rightarrow> string list" where
  "tagsOf s r = tagsOfRoot (serverTagAssign s) r"

definition pinnedRootsWithGroupHint :: "labels_state \<Rightarrow> tree_flat_map \<Rightarrow> string list \<Rightarrow> pinned_hint list" where
  "pinnedRootsWithGroupHint s m pinnedOrder = pinnedRootsWithGroupHintFrom m pinnedOrder (serverGroups s)"

end
