(* ===== verification/Messages.thy ===== *)
theory Messages
  imports JsMap "HOL-Library.Word"
begin

text \<open>
  \<^verbatim>\<open>web/src/lib/reduce.ts\<close>: the reducers of one session's messages. A message is resident
  when it is in \<open>byId\<close> and rendered when it is also in \<open>order\<close>; a resident one outside
  \<open>order\<close> is a keyless shadow, parts held for a message not seen yet. The reducers mutate
  the draft they are given; here they return it. Texts a byte offset is measured on are
  lists of UTF-16 code units.

  The comparator of \<^verbatim>\<open>sortMessages\<close> reads \<^verbatim>\<open>sm.byId[a].info\<close>: on an ordered id with no entry it
  would throw. The invariant \<open>msgs_inv\<close>, kept by every reducer, excludes such an id.
\<close>

section \<open>Types\<close>

type_synonym utf16 = "16 word list"

datatype part_value = Text utf16 | Data json

text \<open>\<^verbatim>\<open>time.created\<close> and \<^verbatim>\<open>time.completed\<close> with a missing \<^verbatim>\<open>time\<close> read as both missing.\<close>

record msg_info =
  mi_id :: string
  mi_created :: "int option"
  mi_completed :: "int option"
  mi_rest :: "(string, json) jsmap"

record part =
  pt_id :: string
  pt_messageID :: string
  pt_sessionID :: string
  pt_fields :: "(string, part_value) jsmap"

record message_view =
  mv_id :: string
  mv_info :: msg_info
  mv_partOrder :: "string list"
  mv_parts :: "(string, part) jsmap"

record session_messages =
  order :: "string list"
  byId :: "(string, message_view) jsmap"

text \<open>One item of a page, snapshot or batch.\<close>

record msg_item =
  it_info :: "msg_info option"
  it_parts :: "part list"

text \<open>\<^verbatim>\<open>if (x)\<close> on a number field that may be missing: zero is falsy.\<close>

definition set_number :: "int option \<Rightarrow> bool" where
  "set_number x = (case x of Some n \<Rightarrow> n \<noteq> 0 | None \<Rightarrow> False)"

section \<open>Order\<close>

definition created_key :: "session_messages \<Rightarrow> string \<Rightarrow> ext_num" where
  "created_key sm i = (case js_get (byId sm) i of
      Some v \<Rightarrow> (case mi_created (mv_info v) of Some t \<Rightarrow> Fin t | None \<Rightarrow> PosInf)
    | None \<Rightarrow> PosInf)"

definition sortMessages :: "session_messages \<Rightarrow> session_messages" where
  "sortMessages sm = sm\<lparr>order := js_sort (\<lambda>a b. cmp_num (created_key sm a) (created_key sm b)) (order sm)\<rparr>"

section \<open>Messages and parts\<close>

definition push_order :: "string \<Rightarrow> session_messages \<Rightarrow> session_messages" where
  "push_order i sm = sm\<lparr>order := order sm @ [i]\<rparr>"

definition put_view :: "message_view \<Rightarrow> session_messages \<Rightarrow> session_messages" where
  "put_view v sm = sm\<lparr>byId := js_set (mv_id v) v (byId sm)\<rparr>"

definition upsertMessage :: "msg_info \<Rightarrow> session_messages \<Rightarrow> session_messages" where
  "upsertMessage info sm =
     (case js_get (byId sm) (mi_id info) of
        Some existing \<Rightarrow>
          (let sm1 = sm\<lparr>byId := js_set (mi_id info) (existing\<lparr>mv_info := info\<rparr>) (byId sm)\<rparr>
           in if mi_id info \<notin> set (order sm1) \<and> set_number (mi_created info)
              then sortMessages (push_order (mi_id info) sm1) else sm1)
      | None \<Rightarrow>
          sortMessages (push_order (mi_id info)
            (put_view \<lparr>mv_id = mi_id info, mv_info = info, mv_partOrder = [], mv_parts = []\<rparr> sm)))"

definition deleteMessage :: "string \<Rightarrow> session_messages \<Rightarrow> session_messages" where
  "deleteMessage i sm =
     (if \<not> js_has (byId sm) i then sm
      else sm\<lparr>byId := js_delete i (byId sm), order := filter (\<lambda>x. x \<noteq> i) (order sm)\<rparr>)"

text \<open>\<^verbatim>\<open>Object.assign(held, p)\<close>\<close>

definition assign_part :: "part \<Rightarrow> part \<Rightarrow> part" where
  "assign_part held p = p\<lparr>pt_fields := js_set_all (pt_fields p) (pt_fields held)\<rparr>"

definition shadow_view :: "part \<Rightarrow> message_view" where
  "shadow_view p = \<lparr>mv_id = pt_messageID p,
     mv_info = \<lparr>mi_id = pt_messageID p, mi_created = None, mi_completed = None,
       mi_rest = [(''sessionID'', JStr (pt_sessionID p)), (''role'', JStr ''assistant'')]\<rparr>,
     mv_partOrder = [], mv_parts = []\<rparr>"

definition upsertPart :: "part \<Rightarrow> session_messages \<Rightarrow> session_messages" where
  "upsertPart p sm =
     (let msg = (case js_get (byId sm) (pt_messageID p) of Some v \<Rightarrow> v | None \<Rightarrow> shadow_view p);
          msg' = (case js_get (mv_parts msg) (pt_id p) of
                    None \<Rightarrow> msg\<lparr>mv_partOrder := mv_partOrder msg @ [pt_id p], mv_parts := js_set (pt_id p) p (mv_parts msg)\<rparr>
                  | Some held \<Rightarrow> msg\<lparr>mv_parts := js_set (pt_id p) (assign_part held p) (mv_parts msg)\<rparr>)
      in sm\<lparr>byId := js_set (pt_messageID p) msg' (byId sm)\<rparr>)"

definition deletePart :: "string \<Rightarrow> string \<Rightarrow> session_messages \<Rightarrow> session_messages" where
  "deletePart mid pid sm =
     (case js_get (byId sm) mid of
        None \<Rightarrow> sm
      | Some v \<Rightarrow>
          if \<not> js_has (mv_parts v) pid then sm
          else sm\<lparr>byId := js_set mid (v\<lparr>mv_parts := js_delete pid (mv_parts v),
                   mv_partOrder := filter (\<lambda>x. x \<noteq> pid) (mv_partOrder v)\<rparr>) (byId sm)\<rparr>)"

section \<open>Pages\<close>

definition item_view :: "msg_info \<Rightarrow> part list \<Rightarrow> message_view" where
  "item_view info ps = \<lparr>mv_id = mi_id info, mv_info = info, mv_partOrder = map pt_id ps,
     mv_parts = fold (\<lambda>p. js_set (pt_id p) p) ps []\<rparr>"

text \<open>\<^verbatim>\<open>buildMessages\<close> reads \<^verbatim>\<open>info\<close> without a test, so its items are pairs.\<close>

definition buildMessages :: "(msg_info \<times> part list) list \<Rightarrow> session_messages" where
  "buildMessages items =
     sortMessages (fold (\<lambda>(info, ps) sm. push_order (mi_id info) (put_view (item_view info ps) sm)) items
       \<lparr>order = [], byId = []\<rparr>)"

definition mergePartsOrdered :: "part list \<Rightarrow> bool \<Rightarrow> message_view \<Rightarrow> message_view" where
  "mergePartsOrdered incoming assignPresent resident =
     (if length incoming = 0 then resident
      else let (ps, nxt) = fold (\<lambda>p (ps, nxt).
                 (case js_get ps (pt_id p) of
                    Some held \<Rightarrow> if assignPresent then js_set (pt_id p) (assign_part held p) ps else ps
                  | None \<Rightarrow> js_set (pt_id p) p ps, nxt @ [pt_id p])) incoming (mv_parts resident, []);
               seen = map pt_id incoming
           in resident\<lparr>mv_parts := ps, mv_partOrder := nxt @ filter (\<lambda>i. i \<notin> set seen) (mv_partOrder resident)\<rparr>)"

text \<open>One item of \<^verbatim>\<open>prependMessagesIfAbsent\<close>: the draft, the count of insertions, and \<^verbatim>\<open>upgraded\<close>.\<close>

definition merge_item :: "msg_item \<Rightarrow> session_messages \<times> nat \<times> bool \<Rightarrow> session_messages \<times> nat \<times> bool" where
  "merge_item it = (\<lambda>(sm, added, upgraded).
     case it_info it of
       None \<Rightarrow> (sm, added, upgraded)
     | Some info \<Rightarrow>
         (case js_get (byId sm) (mi_id info) of
            Some resident \<Rightarrow>
              (let isShadow = (mi_id info \<notin> set (order sm));
                   adopt = (\<lambda>assign. sm\<lparr>byId := js_set (mi_id info)
                     (mergePartsOrdered (it_parts it) assign (resident\<lparr>mv_info := info\<rparr>)) (byId sm)\<rparr>)
               in if set_number (mi_completed info)
                  then (if isShadow then push_order (mi_id info) (adopt True) else adopt True, added, True)
                  else if isShadow \<and> set_number (mi_created info)
                  then (push_order (mi_id info) (adopt False), added, True)
                  else (sm, added, upgraded))
          | None \<Rightarrow> (push_order (mi_id info) (put_view (item_view info (it_parts it)) sm), added + 1, upgraded)))"

definition prependMessagesIfAbsent :: "msg_item list \<Rightarrow> session_messages \<Rightarrow> session_messages \<times> nat" where
  "prependMessagesIfAbsent items sm =
     (let (sm', added, upgraded) = fold merge_item items (sm, 0, False)
      in (if added \<noteq> 0 \<or> upgraded then sortMessages sm' else sm', added))"

section \<open>Eviction\<close>

definition deleteMessagesFromTop :: "int \<Rightarrow> int \<Rightarrow> session_messages \<Rightarrow> session_messages \<times> int" where
  "deleteMessagesFromTop count protectTail sm =
     (if count \<le> 0 then (sm, 0)
      else let removable = int (length (order sm)) - protectTail
           in if removable \<le> 0 then (sm, 0)
              else let n = min count removable;
                       removed = take (nat n) (order sm)
                   in (sm\<lparr>order := drop (nat n) (order sm), byId := js_delete_all removed (byId sm)\<rparr>, n))"

definition reapKeylessShadows :: "session_messages \<Rightarrow> session_messages \<times> nat" where
  "reapKeylessShadows sm =
     (let (m, reaped) = fold (\<lambda>i (m, r). if i \<in> set (order sm) then (m, r) else (js_delete i m, r + 1))
            (js_keys (byId sm)) (byId sm, 0)
      in (sm\<lparr>byId := m\<rparr>, reaped))"

text \<open>The lengths of \<^verbatim>\<open>JSON.stringify\<close> on an info and on a part are arguments.\<close>

definition approxResidentBytes :: "(msg_info \<Rightarrow> nat) \<Rightarrow> (part \<Rightarrow> nat) \<Rightarrow> session_messages \<Rightarrow> nat" where
  "approxResidentBytes info_len part_len sm =
     fold (\<lambda>i total. case js_get (byId sm) i of
             None \<Rightarrow> total
           | Some v \<Rightarrow> fold (\<lambda>pid t. case js_get (mv_parts v) pid of Some p \<Rightarrow> t + part_len p | None \<Rightarrow> t)
                        (mv_partOrder v) (total + info_len (mv_info v)))
       (js_keys (byId sm)) 0"

section \<open>Suffix streaming\<close>

definition high_surrogate :: "16 word \<Rightarrow> bool" where
  "high_surrogate u \<longleftrightarrow> 0xD800 \<le> u \<and> u < 0xDC00"

definition low_surrogate :: "16 word \<Rightarrow> bool" where
  "low_surrogate u \<longleftrightarrow> 0xDC00 \<le> u \<and> u < 0xE000"

text \<open>
  The length of what \<^verbatim>\<open>TextEncoder\<close> writes: a surrogate pair takes four bytes, and an unpaired
  surrogate is replaced by U+FFFD, three bytes like every other unit from 0x800 on.
\<close>

fun utf8ByteLength :: "utf16 \<Rightarrow> nat" where
  "utf8ByteLength [] = 0"
| "utf8ByteLength (u # us) =
     (if u < 0x80 then Suc (utf8ByteLength us)
      else if u < 0x800 then 2 + utf8ByteLength us
      else if high_surrogate u then
        (case us of
           v # vs \<Rightarrow> if low_surrogate v then 4 + utf8ByteLength vs else 3 + utf8ByteLength us
         | [] \<Rightarrow> 3)
      else 3 + utf8ByteLength us)"

record append_payload =
  ap_messageID :: string
  ap_partID :: string
  ap_field :: string
  ap_start :: int
  ap_text :: utf16

datatype append_result = Applied | Mismatch | Skipped

definition current_text :: "part \<Rightarrow> string \<Rightarrow> utf16" where
  "current_text p f = (case js_get (pt_fields p) f of Some (Text t) \<Rightarrow> t | _ \<Rightarrow> [])"

definition appendPartSuffix :: "append_payload \<Rightarrow> session_messages \<Rightarrow> session_messages \<times> append_result" where
  "appendPartSuffix pl sm =
     (case js_get (byId sm) (ap_messageID pl) of
        None \<Rightarrow> (sm, Mismatch)
      | Some msg \<Rightarrow>
          if set_number (mi_completed (mv_info msg)) then (sm, Skipped)
          else (case js_get (mv_parts msg) (ap_partID pl) of
                  None \<Rightarrow> (sm, Mismatch)
                | Some p \<Rightarrow>
                    (let current = current_text p (ap_field pl)
                     in if ap_start pl \<noteq> int (utf8ByteLength current) then (sm, Mismatch)
                        else (sm\<lparr>byId := js_set (ap_messageID pl)
                                (msg\<lparr>mv_parts := js_set (ap_partID pl)
                                   (p\<lparr>pt_fields := js_set (ap_field pl) (Text (current @ ap_text pl)) (pt_fields p)\<rparr>)
                                   (mv_parts msg)\<rparr>) (byId sm)\<rparr>, Applied))))"

section \<open>The reducers as a machine\<close>

datatype msg_event =
    UpsertMessage msg_info
  | DeleteMessage string
  | UpsertPart part
  | DeletePart string string
  | MergePage "msg_item list"
  | EvictTop int int
  | ReapShadows
  | AppendPart append_payload

fun msg_step :: "session_messages \<Rightarrow> msg_event \<Rightarrow> session_messages" where
  "msg_step sm (UpsertMessage info) = upsertMessage info sm"
| "msg_step sm (DeleteMessage i) = deleteMessage i sm"
| "msg_step sm (UpsertPart p) = upsertPart p sm"
| "msg_step sm (DeletePart mid pid) = deletePart mid pid sm"
| "msg_step sm (MergePage items) = fst (prependMessagesIfAbsent items sm)"
| "msg_step sm (EvictTop n keep) = fst (deleteMessagesFromTop n keep sm)"
| "msg_step sm ReapShadows = fst (reapKeylessShadows sm)"
| "msg_step sm (AppendPart pl) = fst (appendPartSuffix pl sm)"

end
