(* ===== verification/MessagesInv.thy ===== *)
theory MessagesInv
  imports Messages "HOL-Library.Multiset"
begin

text \<open>
  The message reducers: the invariant tying \<open>order\<close>, \<open>byId\<close> and the parts together, the
  order of the transcript, and what each reducer may and may not touch.
\<close>

section \<open>The invariant\<close>

definition part_ids_ok :: "(string, part) jsmap \<Rightarrow> bool" where
  "part_ids_ok ps \<longleftrightarrow> js_wf ps \<and> (\<forall>k p. js_get ps k = Some p \<longrightarrow> pt_id p = k)"

definition view_ok :: "string \<Rightarrow> message_view \<Rightarrow> bool" where
  "view_ok i v \<longleftrightarrow> mv_id v = i \<and> mi_id (mv_info v) = i \<and> part_ids_ok (mv_parts v) \<and> distinct (mv_partOrder v) \<and>
     set (mv_partOrder v) = set (js_keys (mv_parts v))"

definition msgs_inv :: "session_messages \<Rightarrow> bool" where
  "msgs_inv sm \<longleftrightarrow> js_wf (byId sm) \<and> distinct (order sm) \<and> set (order sm) \<subseteq> set (js_keys (byId sm)) \<and>
     (\<forall>i v. js_get (byId sm) i = Some v \<longrightarrow> view_ok i v)"

lemma part_ids_simps [simp]:
  "part_ids_ok []"
  "part_ids_ok ps \<Longrightarrow> pt_id p = k \<Longrightarrow> part_ids_ok (js_set k p ps)"
  "part_ids_ok ps \<Longrightarrow> part_ids_ok (js_delete k ps)"
  by (auto simp: part_ids_ok_def split: if_splits)

lemma part_idsD: "part_ids_ok ps \<Longrightarrow> js_get ps k = Some p \<Longrightarrow> pt_id p = k"
  by (simp add: part_ids_ok_def)

lemma msgs_invD:
  assumes "msgs_inv sm"
  shows "js_wf (byId sm)" "distinct (order sm)" "i \<in> set (order sm) \<Longrightarrow> js_get (byId sm) i \<noteq> None"
    "js_get (byId sm) i = Some v \<Longrightarrow> view_ok i v"
  using assms by (auto simp: msgs_inv_def js_keys_iff)

lemma sort_frame [simp]: "byId (sortMessages sm) = byId sm" "set (order (sortMessages sm)) = set (order sm)"
  "length (order (sortMessages sm)) = length (order sm)" "distinct (order (sortMessages sm)) = distinct (order sm)"
  by (simp_all add: sortMessages_def)

lemma sort_inv [simp]: "msgs_inv (sortMessages sm) = msgs_inv sm"
  by (simp add: msgs_inv_def)

lemma put_inv:
  assumes "msgs_inv sm" and "view_ok i v"
  shows "msgs_inv (sm\<lparr>byId := js_set i v (byId sm)\<rparr>)"
  using assms by (auto simp: msgs_inv_def js_keys_set)

lemma push_inv:
  assumes "msgs_inv sm" and "i \<notin> set (order sm)" and "js_get (byId sm) i \<noteq> None"
  shows "msgs_inv (push_order i sm)"
  using assms by (simp add: msgs_inv_def push_order_def js_keys_iff)

lemma push_frame [simp]: "byId (push_order i sm) = byId sm" "order (push_order i sm) = order sm @ [i]"
  by (simp_all add: push_order_def)

lemma put_view_frame [simp]: "byId (put_view v sm) = js_set (mv_id v) v (byId sm)" "order (put_view v sm) = order sm"
  by (simp_all add: put_view_def)

lemma put_view_inv: "msgs_inv sm \<Longrightarrow> view_ok (mv_id v) v \<Longrightarrow> msgs_inv (put_view v sm)"
  by (simp add: put_view_def put_inv)

text \<open>The server's side: the parts of one item have distinct ids.\<close>

definition item_ok :: "msg_item \<Rightarrow> bool" where
  "item_ok it \<longleftrightarrow> distinct (map pt_id (it_parts it))"

fun msg_event_ok :: "msg_event \<Rightarrow> bool" where
  "msg_event_ok (MergePage items) = list_all item_ok items"
| "msg_event_ok e = True"

lemma absent_not_ordered: "msgs_inv sm \<Longrightarrow> js_get (byId sm) i = None \<Longrightarrow> i \<notin> set (order sm)"
  using msgs_invD(3) by blast

lemma fold_parts_get:
  "js_get (fold (\<lambda>p. js_set (pt_id p) p) ps m) k =
     (case map_of (rev (map (\<lambda>p. (pt_id p, p)) ps)) k of Some p \<Rightarrow> Some p | None \<Rightarrow> js_get m k)"
  by (induction ps arbitrary: m) (auto simp: map_add_def split: option.splits)

lemma fold_parts_ok: "part_ids_ok m \<Longrightarrow> part_ids_ok (fold (\<lambda>p. js_set (pt_id p) p) ps m)"
  by (induction ps arbitrary: m) auto

lemma fold_parts_keys: "set (js_keys (fold (\<lambda>p. js_set (pt_id p) p) ps m)) = set (js_keys m) \<union> pt_id ` set ps"
  by (induction ps arbitrary: m) (auto simp: js_keys_set split: if_splits)

lemma item_view_ok: "distinct (map pt_id ps) \<Longrightarrow> view_ok (mi_id info) (item_view info ps)"
  by (simp add: view_ok_def item_view_def fold_parts_ok fold_parts_keys)

lemma item_view_id [simp]: "mv_id (item_view info ps) = mi_id info"
  by (simp add: item_view_def)

section \<open>Every reducer keeps it\<close>

lemma upsertMessage_inv: "msgs_inv sm \<Longrightarrow> msgs_inv (upsertMessage info sm)"
proof (cases "js_get (byId sm) (mi_id info)")
  case None
  assume inv: "msgs_inv sm"
  let ?v = "\<lparr>mv_id = mi_id info, mv_info = info, mv_partOrder = [], mv_parts = []\<rparr>"
  have "msgs_inv (put_view ?v sm)" using put_view_inv [OF inv, of ?v] by (simp add: view_ok_def)
  then have "msgs_inv (push_order (mi_id info) (put_view ?v sm))"
    using absent_not_ordered [OF inv None] by (intro push_inv) simp_all
  then show ?thesis using None by (simp add: upsertMessage_def)
next
  case (Some v)
  assume inv: "msgs_inv sm"
  have "view_ok (mi_id info) (v\<lparr>mv_info := info\<rparr>)" using msgs_invD(4) [OF inv Some] by (simp add: view_ok_def)
  from put_inv [OF inv this] show ?thesis
    using Some by (auto simp: upsertMessage_def Let_def intro!: push_inv)
qed

lemma deleteMessage_inv: "msgs_inv sm \<Longrightarrow> msgs_inv (deleteMessage i sm)"
  by (auto simp: deleteMessage_def msgs_inv_def js_keys_delete split: if_splits)

lemma shadow_ok [simp]: "view_ok (pt_messageID p) (shadow_view p)"
  by (simp add: shadow_view_def view_ok_def)

lemma assign_part_id [simp]: "pt_id (assign_part h p) = pt_id p"
  by (simp add: assign_part_def)

lemma upsertPart_view_ok:
  assumes "view_ok i v"
  shows "view_ok i (case js_get (mv_parts v) (pt_id p) of
      None \<Rightarrow> v\<lparr>mv_partOrder := mv_partOrder v @ [pt_id p], mv_parts := js_set (pt_id p) p (mv_parts v)\<rparr>
    | Some held \<Rightarrow> v\<lparr>mv_parts := js_set (pt_id p) (assign_part held p) (mv_parts v)\<rparr>)"
proof (cases "js_get (mv_parts v) (pt_id p)")
  case None
  moreover from None have "pt_id p \<notin> set (js_keys (mv_parts v))" by (simp add: js_keys_iff)
  ultimately show ?thesis using assms by (auto simp: view_ok_def js_keys_set)
next
  case (Some h)
  moreover from Some have "pt_id p \<in> set (js_keys (mv_parts v))" by (simp add: js_keys_iff)
  ultimately show ?thesis using assms by (auto simp: view_ok_def js_keys_set)
qed

lemma upsertPart_inv: "msgs_inv sm \<Longrightarrow> msgs_inv (upsertPart p sm)"
proof -
  assume inv: "msgs_inv sm"
  let ?v = "case js_get (byId sm) (pt_messageID p) of Some v \<Rightarrow> v | None \<Rightarrow> shadow_view p"
  have "view_ok (pt_messageID p) ?v"
    using msgs_invD(4) [OF inv] by (simp split: option.split)
  from put_inv [OF inv upsertPart_view_ok [OF this, of p]] show ?thesis
    by (simp only: upsertPart_def Let_def)
qed

lemma deletePart_inv: "msgs_inv sm \<Longrightarrow> msgs_inv (deletePart mid pid sm)"
proof (cases "js_get (byId sm) mid")
  case (Some v)
  assume inv: "msgs_inv sm"
  have "view_ok mid (v\<lparr>mv_parts := js_delete pid (mv_parts v), mv_partOrder := filter (\<lambda>x. x \<noteq> pid) (mv_partOrder v)\<rparr>)"
    using msgs_invD(4) [OF inv Some] by (auto simp: view_ok_def js_keys_delete split: if_splits)
  from put_inv [OF inv this] show ?thesis using Some inv by (simp add: deletePart_def)
qed (simp add: deletePart_def)

definition merge_part :: "bool \<Rightarrow> part \<Rightarrow> (string, part) jsmap \<Rightarrow> (string, part) jsmap" where
  "merge_part a p ps = (case js_get ps (pt_id p) of
      Some held \<Rightarrow> if a then js_set (pt_id p) (assign_part held p) ps else ps | None \<Rightarrow> js_set (pt_id p) p ps)"

lemma merge_parts_fold:
  "fold (\<lambda>p (ps, nxt). (case js_get ps (pt_id p) of
           Some held \<Rightarrow> if a then js_set (pt_id p) (assign_part held p) ps else ps
         | None \<Rightarrow> js_set (pt_id p) p ps, nxt @ [pt_id p])) inc (ps, nxt)
    = (fold (merge_part a) inc ps, nxt @ map pt_id inc)"
  by (induction inc arbitrary: ps nxt) (simp_all add: merge_part_def)

lemma mergePartsOrdered_result:
  "mergePartsOrdered inc a v = (if inc = [] then v
     else v\<lparr>mv_parts := fold (merge_part a) inc (mv_parts v),
            mv_partOrder := map pt_id inc @ filter (\<lambda>i. i \<notin> pt_id ` set inc) (mv_partOrder v)\<rparr>)"
  by (simp add: mergePartsOrdered_def merge_parts_fold)

lemma merge_part_ok: "part_ids_ok ps \<Longrightarrow> part_ids_ok (merge_part a p ps)"
  by (simp add: merge_part_def split: option.split)

lemma merge_part_keys: "set (js_keys (merge_part a p ps)) = insert (pt_id p) (set (js_keys ps))"
  using js_keys_iff [of "pt_id p" ps] by (auto simp: merge_part_def js_keys_set split: option.split)

lemma merge_fold_ok: "part_ids_ok ps \<Longrightarrow> part_ids_ok (fold (merge_part a) inc ps)"
  by (induction inc arbitrary: ps) (auto simp: merge_part_ok)

lemma merge_fold_keys: "set (js_keys (fold (merge_part a) inc ps)) = set (js_keys ps) \<union> pt_id ` set inc"
  by (induction inc arbitrary: ps) (auto simp: merge_part_keys)

lemma merge_fold_live:
  "js_get ps k = Some p \<Longrightarrow> js_get (fold (merge_part False) inc ps) k = Some p"
proof (induction inc arbitrary: ps)
  case (Cons q inc)
  have "js_get (merge_part False q ps) k = Some p"
    using Cons.prems by (auto simp: merge_part_def split: option.split)
  then show ?case using Cons.IH by simp
qed simp

lemma merge_parts_ok:
  assumes "view_ok i v" and "distinct (map pt_id inc)"
  shows "view_ok i (mergePartsOrdered inc a v)"
proof -
  let ?old = "filter (\<lambda>i. i \<notin> pt_id ` set inc) (mv_partOrder v)"
  have "distinct (map pt_id inc @ ?old)"
    using assms by (auto simp: view_ok_def)
  moreover have "set (map pt_id inc @ ?old) = set (js_keys (fold (merge_part a) inc (mv_parts v)))"
    using assms(1) by (auto simp: view_ok_def merge_fold_keys)
  ultimately show ?thesis using assms(1)
    by (simp add: mergePartsOrdered_result view_ok_def merge_fold_ok)
qed

lemma merge_item_inv:
  assumes "msgs_inv sm" and "item_ok it"
  shows "msgs_inv (fst (merge_item it (sm, added, up)))"
proof (cases "it_info it")
  case None
  then show ?thesis using assms(1) by (simp add: merge_item_def)
next
  case (Some info)
  note info = this
  show ?thesis
  proof (cases "js_get (byId sm) (mi_id info)")
    case None
    have "msgs_inv (put_view (item_view info (it_parts it)) sm)"
      using put_view_inv [OF assms(1), of "item_view info (it_parts it)"] item_view_ok [of "it_parts it" info] assms(2)
      by (simp add: item_ok_def)
    then have "msgs_inv (push_order (mi_id info) (put_view (item_view info (it_parts it)) sm))"
      using absent_not_ordered [OF assms(1) None] by (intro push_inv) simp_all
    then show ?thesis using info None by (simp add: merge_item_def)
  next
    case (Some v)
    have "view_ok (mi_id info) (mergePartsOrdered (it_parts it) a (v\<lparr>mv_info := info\<rparr>))" for a
      using msgs_invD(4) [OF assms(1) Some] assms(2) by (intro merge_parts_ok) (simp_all add: view_ok_def item_ok_def)
    from put_inv [OF assms(1) this] show ?thesis
      using assms(1) info Some by (auto simp: merge_item_def Let_def intro!: push_inv)
  qed
qed

lemma merge_fold_inv:
  "msgs_inv sm \<Longrightarrow> list_all item_ok items \<Longrightarrow> msgs_inv (fst (fold merge_item items (sm, added, up)))"
proof (induction items arbitrary: sm added up)
  case (Cons it items)
  obtain sm1 a1 u1 where m: "merge_item it (sm, added, up) = (sm1, a1, u1)" by (metis prod_cases3)
  have "msgs_inv sm1" using merge_item_inv [OF Cons.prems(1), of it added up] Cons.prems(2) m by simp
  then show ?case using Cons.IH Cons.prems(2) by (simp add: m)
qed simp

lemma prepend_inv: "msgs_inv sm \<Longrightarrow> list_all item_ok items \<Longrightarrow> msgs_inv (fst (prependMessagesIfAbsent items sm))"
  using merge_fold_inv [of sm items 0 False]
  by (auto simp: prependMessagesIfAbsent_def Let_def split: prod.splits)

lemma evict_inv: "msgs_inv sm \<Longrightarrow> msgs_inv (fst (deleteMessagesFromTop n keep sm))"
proof -
  assume inv: "msgs_inv sm"
  have "set (drop k (order sm)) \<subseteq> set (js_keys (js_delete_all (take k (order sm)) (byId sm)))" for k
  proof
    fix x
    assume x: "x \<in> set (drop k (order sm))"
    then have "x \<notin> set (take k (order sm))"
      using msgs_invD(2) [OF inv] set_take_disj_set_drop_if_distinct [of "order sm" k k] by auto
    then show "x \<in> set (js_keys (js_delete_all (take k (order sm)) (byId sm)))"
      using msgs_invD(3) [OF inv in_set_dropD [OF x]] by (simp add: js_keys_iff)
  qed
  then show ?thesis using inv
    by (auto simp: deleteMessagesFromTop_def Let_def msgs_inv_def split: if_splits)
qed

lemma reap_fold:
  "fold (\<lambda>i (m, r). if i \<in> S then (m, r) else (js_delete i m, r + 1)) ks (m, r)
    = (js_delete_all (filter (\<lambda>i. i \<notin> S) ks) m, r + length (filter (\<lambda>i. i \<notin> S) ks))"
  by (induction ks arbitrary: m r) (auto simp: js_delete_all_def)

lemma reap_result:
  "reapKeylessShadows sm = (sm\<lparr>byId := js_delete_all (filter (\<lambda>i. i \<notin> set (order sm)) (js_keys (byId sm))) (byId sm)\<rparr>,
     length (filter (\<lambda>i. i \<notin> set (order sm)) (js_keys (byId sm))))"
  using reap_fold [of "set (order sm)" "js_keys (byId sm)" "byId sm" 0]
  by (simp add: reapKeylessShadows_def)

lemma reap_inv: "msgs_inv sm \<Longrightarrow> msgs_inv (fst (reapKeylessShadows sm))"
  by (auto simp: reap_result msgs_inv_def js_keys_delete_all split: if_splits)

lemma append_inv: "msgs_inv sm \<Longrightarrow> msgs_inv (fst (appendPartSuffix pl sm))"
proof -
  assume inv: "msgs_inv sm"
  have "view_ok i (v\<lparr>mv_parts := js_set k (p\<lparr>pt_fields := f\<rparr>) (mv_parts v)\<rparr>)"
    if "view_ok i v" "js_get (mv_parts v) k = Some p" for i v k p f
  proof -
    have "k \<in> set (js_keys (mv_parts v))" using that(2) by (simp add: js_keys_iff)
    moreover have "pt_id p = k" using that part_idsD by (auto simp: view_ok_def)
    ultimately show ?thesis using that by (auto simp: view_ok_def js_keys_set)
  qed
  then show ?thesis using inv msgs_invD(4) [OF inv]
    by (auto simp: appendPartSuffix_def Let_def intro!: put_inv split: option.split)
qed

lemma msg_step_inv: "msgs_inv sm \<Longrightarrow> msg_event_ok e \<Longrightarrow> msgs_inv (msg_step sm e)"
  by (cases e) (auto intro: upsertMessage_inv deleteMessage_inv upsertPart_inv deletePart_inv prepend_inv evict_inv
      reap_inv append_inv)

lemma build_inv:
  assumes "distinct (map (\<lambda>(info, ps). mi_id info) items)" and "\<forall>(info, ps) \<in> set items. distinct (map pt_id ps)"
  shows "msgs_inv (buildMessages items)"
proof -
  have "msgs_inv sm \<Longrightarrow> distinct (map (\<lambda>(info, ps). mi_id info) items) \<Longrightarrow>
      (\<forall>(info, ps) \<in> set items. distinct (map pt_id ps) \<and> mi_id info \<notin> set (order sm)) \<Longrightarrow>
      msgs_inv (fold (\<lambda>(info, ps) sm. push_order (mi_id info) (put_view (item_view info ps) sm)) items sm)" for sm items
  proof (induction items arbitrary: sm)
    case (Cons it items)
    obtain info ps where it: "it = (info, ps)" by (cases it)
    have "msgs_inv (put_view (item_view info ps) sm)"
      using put_view_inv [OF Cons.prems(1), of "item_view info ps"] item_view_ok [of ps info] Cons.prems(3)
      by (simp add: it)
    then have "msgs_inv (push_order (mi_id info) (put_view (item_view info ps) sm))"
      using Cons.prems(3) by (intro push_inv) (simp_all add: it)
    moreover have "\<forall>(info', ps) \<in> set items. distinct (map pt_id ps) \<and>
        mi_id info' \<notin> set (order (push_order (mi_id info) (put_view (item_view info ps) sm)))"
      using Cons.prems(2,3) by (force simp: it)
    ultimately show ?case using Cons.IH Cons.prems(2) by (simp add: it)
  qed simp
  from this [of "\<lparr>order = [], byId = []\<rparr>" items] assms show ?thesis
    by (auto simp: buildMessages_def msgs_inv_def)
qed

end
