(* ===== verification/MessagesThms.thy ===== *)
theory MessagesThms
  imports MessagesInv
begin

text \<open>
  The message reducers, continued: the transcript stays in creation order, a page never
  overrides the live copy, its count is the number of new residents, eviction takes the
  oldest, and a suffix stream rebuilds exactly the text that was cut up.
\<close>

section \<open>Creation order\<close>

definition in_creation_order :: "session_messages \<Rightarrow> bool" where
  "in_creation_order sm \<longleftrightarrow> sorted (map (created_key sm) (order sm))"

lemma created_key_sort [simp]: "created_key (sortMessages sm) = created_key sm"
  by (simp add: created_key_def [abs_def])

lemma sortMessages_sorted [simp]: "in_creation_order (sortMessages sm)"
proof -
  have "js_sort (\<lambda>a b. cmp_num (created_key sm a) (created_key sm b)) (order sm) = sort_key (created_key sm) (order sm)"
    by (rule js_sort_sort_key) simp
  then have "order (sortMessages sm) = sort_key (created_key sm) (order sm)" by (simp add: sortMessages_def)
  then show ?thesis by (simp add: in_creation_order_def)
qed

text \<open>An order whose ids keep their creation keys stays sorted; so does any part of it.\<close>

lemma creation_order_cong:
  assumes "in_creation_order sm" and "\<And>i. i \<in> set (order t) \<Longrightarrow> created_key t i = created_key sm i"
    and "order t = order sm \<or> (\<exists>P. order t = filter P (order sm)) \<or> (\<exists>n. order t = drop n (order sm))"
  shows "in_creation_order t"
proof -
  have "map (created_key t) (order t) = map (created_key sm) (order t)" using assms(2) by (intro map_cong) simp_all
  moreover have "sorted (map (created_key sm) (order t))"
    using assms(1,3) sorted_filter [of "created_key sm" "order sm"]
    by (auto simp: in_creation_order_def drop_map [symmetric] sorted_wrt_drop)
  ultimately show ?thesis unfolding in_creation_order_def by metis
qed

text \<open>The server's contract: an id in the transcript keeps its creation time.\<close>

fun created_stable :: "session_messages \<Rightarrow> msg_event \<Rightarrow> bool" where
  "created_stable sm (UpsertMessage info) \<longleftrightarrow>
     (case js_get (byId sm) (mi_id info) of
        Some v \<Rightarrow> mi_id info \<in> set (order sm) \<longrightarrow> mi_created info = mi_created (mv_info v)
      | None \<Rightarrow> True)"
| "created_stable sm e \<longleftrightarrow> True"

lemma merge_item_flag:
  "merge_item it (sm, added, up) = (sm', added', up') \<Longrightarrow>
    (added \<le> added' \<and> (up \<longrightarrow> up')) \<and> (added' = added \<and> \<not> up' \<longrightarrow> sm' = sm)"
  by (auto simp: merge_item_def Let_def split: option.splits if_splits)

lemma merge_fold_flag:
  "fold merge_item items (sm, added, up) = (sm', added', up') \<Longrightarrow>
    (added \<le> added' \<and> (up \<longrightarrow> up')) \<and> (added' = added \<and> \<not> up' \<longrightarrow> sm' = sm)"
proof (induction items arbitrary: sm added up)
  case (Cons it items)
  obtain sm1 a1 u1 where m: "merge_item it (sm, added, up) = (sm1, a1, u1)" by (metis prod_cases3)
  then have "fold merge_item items (sm1, a1, u1) = (sm', added', up')" using Cons.prems by simp
  from Cons.IH [OF this] merge_item_flag [OF m] show ?case by (metis le_antisym order_trans)
qed simp

lemma prepend_sorted: "in_creation_order sm \<Longrightarrow> in_creation_order (fst (prependMessagesIfAbsent items sm))"
proof -
  assume ok: "in_creation_order sm"
  obtain sm' a u where f: "fold merge_item items (sm, 0, False) = (sm', a, u)" by (metis prod_cases3)
  have "in_creation_order sm'" if "a = 0" "\<not> u"
    using merge_fold_flag [OF f] that ok by simp
  then show ?thesis by (auto simp: prependMessagesIfAbsent_def f Let_def)
qed

lemma part_change_key:
  assumes "js_get (byId sm) i = Some v" and "mv_info v' = mv_info v"
  shows "created_key (sm\<lparr>byId := js_set i v' (byId sm)\<rparr>) = created_key sm"
  using assms by (auto simp: created_key_def fun_eq_iff)

lemma creation_order_step:
  assumes inv: "msgs_inv sm" and ok: "in_creation_order sm" and stable: "created_stable sm e"
  shows "in_creation_order (msg_step sm e)"
proof (cases e)
  case (UpsertMessage info)
  show ?thesis
  proof (cases "js_get (byId sm) (mi_id info)")
    case None
    then show ?thesis by (simp add: UpsertMessage upsertMessage_def)
  next
    case (Some v)
    have "in_creation_order (sm\<lparr>byId := js_set (mi_id info) (v\<lparr>mv_info := info\<rparr>) (byId sm)\<rparr>)"
      by (rule creation_order_cong [OF ok])
        (use stable Some in \<open>auto simp: UpsertMessage created_key_def\<close>)
    then show ?thesis using Some by (simp add: UpsertMessage upsertMessage_def Let_def)
  qed
next
  case (DeleteMessage i)
  show ?thesis
    by (rule creation_order_cong [OF ok]) (auto simp: DeleteMessage deleteMessage_def created_key_def split: if_splits)
next
  case (UpsertPart p)
  let ?i = "pt_messageID p"
  have keep: "created_key (upsertPart p sm) i = created_key sm i" for i
    by (cases "js_get (byId sm) ?i")
      (auto simp: upsertPart_def Let_def created_key_def shadow_view_def split: option.split)
  show ?thesis
    by (rule creation_order_cong [OF ok]) (simp_all add: UpsertPart keep, simp add: upsertPart_def Let_def)
next
  case (DeletePart mid pid)
  have keep: "created_key (deletePart mid pid sm) i = created_key sm i" for i
    by (auto simp: deletePart_def created_key_def split: option.split)
  show ?thesis
    by (rule creation_order_cong [OF ok])
      (simp_all add: DeletePart keep, simp add: deletePart_def split: option.split)
next
  case (MergePage items)
  then show ?thesis using prepend_sorted [OF ok] by simp
next
  case (EvictTop n keep)
  have "created_key (fst (deleteMessagesFromTop n keep sm)) i = created_key sm i"
    if "i \<in> set (order (fst (deleteMessagesFromTop n keep sm)))" for i
    using that set_take_disj_set_drop_if_distinct [OF msgs_invD(2) [OF inv], of k k for k]
    by (fastforce simp: deleteMessagesFromTop_def Let_def created_key_def split: if_splits)
  then show ?thesis
    by (intro creation_order_cong [OF ok]) (auto simp: EvictTop deleteMessagesFromTop_def Let_def)
next
  case ReapShadows
  show ?thesis
    by (rule creation_order_cong [OF ok]) (auto simp: ReapShadows reap_result created_key_def)
next
  case (AppendPart pl)
  have keep: "created_key (fst (appendPartSuffix pl sm)) i = created_key sm i" for i
    by (auto simp: appendPartSuffix_def Let_def created_key_def split: option.split)
  show ?thesis
    by (rule creation_order_cong [OF ok])
      (simp_all add: AppendPart keep, simp add: appendPartSuffix_def Let_def split: option.split)
qed

section \<open>Pages: live wins, and the count\<close>

definition completes :: "msg_item list \<Rightarrow> string \<Rightarrow> bool" where
  "completes items i \<longleftrightarrow> (\<exists>it \<in> set items. \<exists>info. it_info it = Some info \<and> mi_id info = i \<and> set_number (mi_completed info))"

lemma merge_item_live:
  assumes "i \<in> set (order sm)" and "js_get (byId sm) i \<noteq> None" and "\<not> completes [it] i"
    and "merge_item it (sm, added, up) = (sm', added', up')"
  shows "js_get (byId sm') i = js_get (byId sm) i \<and> i \<in> set (order sm')"
proof (cases "it_info it")
  case (Some info)
  show ?thesis
  proof (cases "mi_id info = i")
    case True
    then have "\<not> set_number (mi_completed info)" using assms(3) Some by (auto simp: completes_def)
    then show ?thesis using assms(1,2,4) Some True by (auto simp: merge_item_def Let_def)
  next
    case False
    then show ?thesis using assms(1,4) Some
      by (auto simp: merge_item_def Let_def split: option.splits if_splits)
  qed
qed (use assms in \<open>simp add: merge_item_def\<close>)

lemma merge_fold_live':
  "i \<in> set (order sm) \<Longrightarrow> js_get (byId sm) i \<noteq> None \<Longrightarrow> \<not> completes items i \<Longrightarrow>
    fold merge_item items (sm, added, up) = (sm', added', up') \<Longrightarrow> js_get (byId sm') i = js_get (byId sm) i"
proof (induction items arbitrary: sm added up)
  case (Cons it items)
  obtain sm1 a1 u1 where m: "merge_item it (sm, added, up) = (sm1, a1, u1)" by (metis prod_cases3)
  have c: "\<not> completes [it] i" "\<not> completes items i" using Cons.prems(3) by (auto simp: completes_def)
  from merge_item_live [OF Cons.prems(1,2) c(1) m] have s1: "js_get (byId sm1) i = js_get (byId sm) i" "i \<in> set (order sm1)"
    by simp_all
  have "fold merge_item items (sm1, a1, u1) = (sm', added', up')" using Cons.prems(4) m by simp
  then show ?case using Cons.IH [OF s1(2) _ c(2)] s1(1) Cons.prems(2) by simp
qed simp

lemma prepend_live:
  assumes "msgs_inv sm" and "i \<in> set (order sm)" and "\<not> completes items i"
  shows "js_get (byId (fst (prependMessagesIfAbsent items sm))) i = js_get (byId sm) i"
proof -
  obtain sm' a u where f: "fold merge_item items (sm, 0, False) = (sm', a, u)" by (metis prod_cases3)
  from merge_fold_live' [OF assms(2) msgs_invD(3) [OF assms(1,2)] assms(3) f]
  show ?thesis by (simp add: prependMessagesIfAbsent_def f)
qed

lemma merge_item_count:
  "merge_item it (sm, added, up) = (sm', added', up') \<Longrightarrow>
    length (js_keys (byId sm')) + added = length (js_keys (byId sm)) + added'"
  by (auto simp: merge_item_def Let_def js_keys_set js_keys_iff split: option.splits if_splits)

lemma merge_fold_count:
  "fold merge_item items (sm, added, up) = (sm', added', up') \<Longrightarrow>
    length (js_keys (byId sm')) + added = length (js_keys (byId sm)) + added'"
proof (induction items arbitrary: sm added up)
  case (Cons it items)
  obtain sm1 a1 u1 where m: "merge_item it (sm, added, up) = (sm1, a1, u1)" by (metis prod_cases3)
  then have "fold merge_item items (sm1, a1, u1) = (sm', added', up')" using Cons.prems by simp
  from Cons.IH [OF this] merge_item_count [OF m] show ?case by simp
qed simp

lemma prepend_count:
  "length (js_keys (byId (fst (prependMessagesIfAbsent items sm)))) = length (js_keys (byId sm)) + snd (prependMessagesIfAbsent items sm)"
proof -
  obtain sm' a u where f: "fold merge_item items (sm, 0, False) = (sm', a, u)" by (metis prod_cases3)
  from merge_fold_count [OF f] show ?thesis by (simp add: prependMessagesIfAbsent_def f)
qed

section \<open>Suffix streaming\<close>

text \<open>Text with no unpaired surrogate, as every JSON text from the server is.\<close>

fun wf_utf16 :: "utf16 \<Rightarrow> bool" where
  "wf_utf16 [] = True"
| "wf_utf16 (u # us) =
     (if high_surrogate u then (case us of v # vs \<Rightarrow> low_surrogate v \<and> wf_utf16 vs | [] \<Rightarrow> False)
      else \<not> low_surrogate u \<and> wf_utf16 us)"

lemma surrogate_not_small: "high_surrogate u \<Longrightarrow> \<not> u < 0x80 \<and> \<not> u < 0x800"
  by (auto simp: high_surrogate_def not_less intro: order_trans [of _ "0xD800 :: 16 word"])

lemma utf8_append: "wf_utf16 a \<Longrightarrow> utf8ByteLength (a @ b) = utf8ByteLength a + utf8ByteLength b"
proof (induction a rule: wf_utf16.induct)
  case (2 u us)
  show ?case
  proof (cases "high_surrogate u")
    case True
    with 2(3) obtain v vs where us: "us = v # vs" "low_surrogate v" "wf_utf16 vs"
      by (auto split: list.splits)
    have "utf8ByteLength (vs @ b) = utf8ByteLength vs + utf8ByteLength b"
      using 2(1) [OF True us(1)] us(3) by simp
    then show ?thesis using surrogate_not_small [OF True] True us by simp
  next
    case False
    then have "utf8ByteLength (us @ b) = utf8ByteLength us + utf8ByteLength b"
      using 2(2,3) by simp
    then show ?thesis using False by simp
  qed
qed simp

lemma wf_append: "wf_utf16 a \<Longrightarrow> wf_utf16 b \<Longrightarrow> wf_utf16 (a @ b)"
proof (induction a rule: wf_utf16.induct)
  case (2 u us)
  then show ?case by (cases "high_surrogate u") (auto split: list.splits)
qed simp

text \<open>The frames that carry a text cut into pieces, each at its byte offset.\<close>

fun suffix_frames :: "string \<Rightarrow> string \<Rightarrow> string \<Rightarrow> nat \<Rightarrow> utf16 list \<Rightarrow> append_payload list" where
  "suffix_frames mid pid f start [] = []"
| "suffix_frames mid pid f start (t # ts) =
     \<lparr>ap_messageID = mid, ap_partID = pid, ap_field = f, ap_start = int start, ap_text = t\<rparr>
       # suffix_frames mid pid f (start + utf8ByteLength t) ts"

definition field_text :: "session_messages \<Rightarrow> string \<Rightarrow> string \<Rightarrow> string \<Rightarrow> utf16 option" where
  "field_text sm mid pid f = (case js_get (byId sm) mid of
      None \<Rightarrow> None
    | Some v \<Rightarrow> (case js_get (mv_parts v) pid of None \<Rightarrow> None | Some p \<Rightarrow> Some (current_text p f)))"

definition streaming :: "session_messages \<Rightarrow> string \<Rightarrow> bool" where
  "streaming sm mid \<longleftrightarrow> (\<exists>v. js_get (byId sm) mid = Some v \<and> \<not> set_number (mi_completed (mv_info v)))"

lemma append_applied:
  fixes sm :: session_messages and mid pid f :: string and t u :: utf16
  assumes "streaming sm mid" and "field_text sm mid pid f = Some t"
  defines "r \<equiv> appendPartSuffix \<lparr>ap_messageID = mid, ap_partID = pid, ap_field = f, ap_start = int (utf8ByteLength t), ap_text = u\<rparr> sm"
  shows "snd r = Applied" "streaming (fst r) mid" "field_text (fst r) mid pid f = Some (t @ u)" "order (fst r) = order sm"
  using assms(1,2)
  by (auto simp: r_def appendPartSuffix_def streaming_def field_text_def Let_def current_text_def split: option.splits)

lemma append_mismatch:
  assumes "field_text sm (ap_messageID pl) (ap_partID pl) (ap_field pl) = Some t"
    and "ap_start pl \<noteq> int (utf8ByteLength t)"
  shows "fst (appendPartSuffix pl sm) = sm \<and> snd (appendPartSuffix pl sm) \<noteq> Applied"
  using assms by (auto simp: appendPartSuffix_def field_text_def Let_def split: option.splits)

lemma stream_rebuilds:
  assumes "streaming sm mid" and "field_text sm mid pid f = Some t" and "wf_utf16 t" and "list_all wf_utf16 ts"
  shows "field_text (fold (\<lambda>pl s. fst (appendPartSuffix pl s)) (suffix_frames mid pid f (utf8ByteLength t) ts) sm) mid pid f
    = Some (t @ concat ts)"
  using assms
proof (induction ts arbitrary: sm t)
  case (Cons u ts)
  let ?pl = "\<lparr>ap_messageID = mid, ap_partID = pid, ap_field = f, ap_start = int (utf8ByteLength t), ap_text = u\<rparr>"
  note a = append_applied [OF Cons.prems(1,2), of u]
  have "utf8ByteLength (t @ u) = utf8ByteLength t + utf8ByteLength u" by (rule utf8_append [OF Cons.prems(3)])
  moreover have "wf_utf16 (t @ u)" "list_all wf_utf16 ts" using wf_append [OF Cons.prems(3)] Cons.prems(4) by simp_all
  ultimately show ?case using Cons.IH [OF a(2,3)] by simp
qed simp

section \<open>Eviction and shadows\<close>

lemma evict_result:
  assumes "msgs_inv sm" and "0 < n" and "0 \<le> keep" and "keep < int (length (order sm))"
  defines "k \<equiv> nat (min n (int (length (order sm)) - keep))"
  shows "order (fst (deleteMessagesFromTop n keep sm)) = drop k (order sm)"
    and "snd (deleteMessagesFromTop n keep sm) = int k"
    and "js_get (byId (fst (deleteMessagesFromTop n keep sm))) i = (if i \<in> set (take k (order sm)) then None else js_get (byId sm) i)"
    and "keep \<le> int (length (order (fst (deleteMessagesFromTop n keep sm))))"
  using assms by (auto simp: deleteMessagesFromTop_def Let_def)

lemma reap_exact:
  assumes "msgs_inv sm"
  shows "set (js_keys (byId (fst (reapKeylessShadows sm)))) = set (order sm)"
    and "order (fst (reapKeylessShadows sm)) = order sm"
    and "i \<in> set (order sm) \<Longrightarrow> js_get (byId (fst (reapKeylessShadows sm))) i = js_get (byId sm) i"
  using assms by (auto simp: reap_result js_keys_delete_all msgs_inv_def)

lemma shadow_promotion:
  assumes "js_get (byId sm) (pt_messageID p) = None" and "msgs_inv sm"
    and info: "mi_id info = pt_messageID p" "set_number (mi_created info)"
  shows "order (upsertPart p sm) = order sm"
    and "mi_id info \<in> set (order (upsertMessage info (upsertPart p sm)))"
    and "js_get (byId (upsertMessage info (upsertPart p sm))) (mi_id info) =
      Some \<lparr>mv_id = mi_id info, mv_info = info, mv_partOrder = [pt_id p], mv_parts = [(pt_id p, p)]\<rparr>"
proof -
  have up: "upsertPart p sm = sm\<lparr>byId := js_set (pt_messageID p)
      ((shadow_view p)\<lparr>mv_partOrder := [pt_id p], mv_parts := [(pt_id p, p)]\<rparr>) (byId sm)\<rparr>"
    using assms(1) by (simp add: upsertPart_def shadow_view_def js_set_def)
  have new: "pt_messageID p \<notin> set (order sm)" using absent_not_ordered [OF assms(2,1)] .
  show "order (upsertPart p sm) = order sm" by (simp add: up)
  show "mi_id info \<in> set (order (upsertMessage info (upsertPart p sm)))"
    using info new by (simp add: up upsertMessage_def Let_def)
  show "js_get (byId (upsertMessage info (upsertPart p sm))) (mi_id info) =
      Some \<lparr>mv_id = mi_id info, mv_info = info, mv_partOrder = [pt_id p], mv_parts = [(pt_id p, p)]\<rparr>"
    using info new by (simp add: up upsertMessage_def Let_def shadow_view_def)
qed

lemma bytes_sum:
  assumes "msgs_inv sm"
  shows "approxResidentBytes il pl sm =
    (\<Sum>(i, v) \<leftarrow> byId sm. il (mv_info v) + (\<Sum>pid \<leftarrow> mv_partOrder v. pl (the (js_get (mv_parts v) pid))))"
proof -
  let ?step = "\<lambda>i total. case js_get (byId sm) i of
             None \<Rightarrow> total
           | Some v \<Rightarrow> fold (\<lambda>pid t. case js_get (mv_parts v) pid of Some p \<Rightarrow> t + pl p | None \<Rightarrow> t)
                        (mv_partOrder v) (total + il (mv_info v))"
  let ?size = "\<lambda>v. il (mv_info v) + (\<Sum>pid \<leftarrow> mv_partOrder v. pl (the (js_get (mv_parts v) pid)))"
  have parts: "fold (\<lambda>pid t. case js_get ps pid of Some p \<Rightarrow> t + pl p | None \<Rightarrow> t) ids t
      = t + (\<Sum>pid \<leftarrow> ids. pl (the (js_get ps pid)))" if "set ids \<subseteq> set (js_keys ps)" for ps ids t
    using that by (induction ids arbitrary: t) (auto simp: js_keys_iff)
  have one: "?step i t = t + ?size v" if "(i, v) \<in> set (byId sm)" for i v t
  proof -
    have get: "js_get (byId sm) i = Some v" using that js_entry_iff [OF msgs_invD(1) [OF assms]] by simp
    have "set (mv_partOrder v) \<subseteq> set (js_keys (mv_parts v))"
      using msgs_invD(4) [OF assms get] by (simp add: view_ok_def)
    then show ?thesis by (simp add: get parts)
  qed
  have "set es \<subseteq> set (byId sm) \<Longrightarrow> fold ?step (map fst es) t = t + (\<Sum>(i, v) \<leftarrow> es. ?size v)" for es t
  proof (induction es arbitrary: t)
    case (Cons e es)
    obtain i v where e: "e = (i, v)" by (cases e)
    have "?step i t = t + ?size v" using Cons.prems by (intro one) (simp add: e)
    then show ?case using Cons.IH [of "t + ?size v"] Cons.prems by (simp add: e)
  qed simp
  from this [of "byId sm" 0] show ?thesis by (simp add: approxResidentBytes_def js_keys_def)
qed

end
