(* ===== verification/MessageProps.thy ===== *)
theory MessageProps
  imports MessagesThms
begin

text \<open>
  The properties of the message reducers, each with a use on a concrete transcript.
\<close>

section \<open>A concrete transcript\<close>

definition demo_info :: "string \<Rightarrow> int option \<Rightarrow> int option \<Rightarrow> msg_info" where
  "demo_info i c d = \<lparr>mi_id = i, mi_created = c, mi_completed = d, mi_rest = []\<rparr>"

definition demo_part :: "string \<Rightarrow> string \<Rightarrow> utf16 \<Rightarrow> part" where
  "demo_part mid i t = \<lparr>pt_id = i, pt_messageID = mid, pt_sessionID = ''s'', pt_fields = [(''text'', Text t)]\<rparr>"

text \<open>Two messages, the second one streaming.\<close>

definition demo_msgs :: session_messages where
  "demo_msgs = \<lparr>order = [''m1'', ''m2''],
     byId = [(''m1'', \<lparr>mv_id = ''m1'', mv_info = demo_info ''m1'' (Some 1) (Some 2), mv_partOrder = [], mv_parts = []\<rparr>),
       (''m2'', \<lparr>mv_id = ''m2'', mv_info = demo_info ''m2'' (Some 5) None, mv_partOrder = [''p''],
          mv_parts = [(''p'', demo_part ''m2'' ''p'' [104, 105])]\<rparr>)]\<rparr>"

lemma demo_msgs_fields:
  "order demo_msgs = [''m1'', ''m2'']"
  "js_get (byId demo_msgs) i = (if i = ''m1'' then Some \<lparr>mv_id = ''m1'', mv_info = demo_info ''m1'' (Some 1) (Some 2), mv_partOrder = [], mv_parts = []\<rparr>
     else if i = ''m2'' then Some \<lparr>mv_id = ''m2'', mv_info = demo_info ''m2'' (Some 5) None, mv_partOrder = [''p''],
          mv_parts = [(''p'', demo_part ''m2'' ''p'' [104, 105])]\<rparr> else None)"
  by (simp_all add: demo_msgs_def)

lemma demo_msgs_inv: "msgs_inv demo_msgs"
proof -
  have "js_wf (byId demo_msgs)" "set (js_keys (byId demo_msgs)) = {''m1'', ''m2''}"
    by (simp_all add: demo_msgs_def js_wf_def js_keys_def)
  moreover have "view_ok i v" if "js_get (byId demo_msgs) i = Some v" for i v
    using that by (auto simp: demo_msgs_fields view_ok_def demo_info_def demo_part_def part_ids_ok_def js_wf_def js_keys_def
        split: if_splits)
  ultimately show ?thesis by (simp add: msgs_inv_def demo_msgs_fields)
qed

section \<open>The transcript\<close>

text \<open>C17: Over every sequence of reducer calls whose pages have distinct part ids, the transcript stays
  consistent: every ordered id is resident and ordered once, every entry sits under its own id, and a
  message's part order lists exactly its parts, each once.\<close>

theorem transcript_invariant:
  assumes "list_all msg_event_ok es"
  shows "msgs_inv (foldl msg_step \<lparr>order = [], byId = []\<rparr> es)"
proof -
  have "msgs_inv sm \<Longrightarrow> list_all msg_event_ok es \<Longrightarrow> msgs_inv (foldl msg_step sm es)" for sm
    by (induction es arbitrary: sm) (auto intro: msg_step_inv)
  moreover have "msgs_inv \<lparr>order = [], byId = []\<rparr>" by (simp add: msgs_inv_def)
  ultimately show ?thesis using assms by blast
qed

theorem transcript_invariant_witness:
  "msgs_inv (foldl msg_step \<lparr>order = [], byId = []\<rparr>
     [UpsertPart (demo_part ''m'' ''p'' []), MergePage [\<lparr>it_info = Some (demo_info ''m'' (Some 3) None), it_parts = [demo_part ''m'' ''p'' []]\<rparr>],
      EvictTop 1 0])"
  by (rule transcript_invariant) (simp add: item_ok_def)

text \<open>C18: The rendered transcript stays in creation order, messages without a creation time last, under every
  reducer call in which an ordered message keeps its creation time.\<close>

theorem transcript_in_creation_order:
  assumes "msgs_inv sm" and "in_creation_order sm" and "created_stable sm e"
  shows "in_creation_order (msg_step sm e)"
  using assms by (rule creation_order_step)

lemma demo_in_order: "in_creation_order demo_msgs"
  by (simp add: in_creation_order_def demo_msgs_fields created_key_def demo_info_def)

theorem transcript_in_creation_order_witness:
  "in_creation_order (msg_step demo_msgs (UpsertMessage (demo_info ''m0'' (Some 3) None)))"
  by (rule transcript_in_creation_order [OF demo_msgs_inv demo_in_order]) (simp add: demo_msgs_fields demo_info_def)

text \<open>The proviso is needed: an ordered message that first has no creation time and then gets one keeps
  its old slot.\<close>

lemma late_key_keeps_slot:
  "\<not> in_creation_order (foldl msg_step \<lparr>order = [], byId = []\<rparr>
     [UpsertMessage (demo_info ''b'' (Some 5) None), UpsertMessage (demo_info ''a'' None None),
      UpsertMessage (demo_info ''a'' (Some 3) None)])"
  by (simp add: upsertMessage_def demo_info_def push_order_def put_view_def sortMessages_def created_key_def
      cmp_num_def in_creation_order_def js_set_def set_number_def Let_def)

section \<open>Pages\<close>

text \<open>C20: A page, snapshot or batch never changes a rendered message that it does not complete, and the
  count it returns is exactly the number of messages that became resident.\<close>

theorem live_copy_wins:
  assumes "msgs_inv sm" and "i \<in> set (order sm)" and "\<not> completes items i"
  shows "js_get (byId (fst (prependMessagesIfAbsent items sm))) i = js_get (byId sm) i \<and>
    length (js_keys (byId (fst (prependMessagesIfAbsent items sm)))) =
      length (js_keys (byId sm)) + snd (prependMessagesIfAbsent items sm)"
  using prepend_live [OF assms] prepend_count by simp

theorem live_copy_wins_witness:
  "js_get (byId (fst (prependMessagesIfAbsent
     [\<lparr>it_info = Some (demo_info ''m2'' (Some 5) None), it_parts = []\<rparr>] demo_msgs))) ''m2'' = js_get (byId demo_msgs) ''m2''"
  by (rule live_copy_wins [OF demo_msgs_inv, THEN conjunct1])
    (simp_all add: demo_msgs_fields completes_def demo_info_def set_number_def)

section \<open>Streaming\<close>

text \<open>C19: The suffix frames of a text cut anywhere between characters rebuild exactly that text in the
  streaming part, although their offsets are UTF-8 bytes and the text is UTF-16.\<close>

theorem suffixes_rebuild_text:
  assumes "streaming sm mid" and "field_text sm mid pid f = Some t" and "wf_utf16 t" and "list_all wf_utf16 ts"
  shows "field_text (fold (\<lambda>pl s. fst (appendPartSuffix pl s)) (suffix_frames mid pid f (utf8ByteLength t) ts) sm) mid pid f
    = Some (t @ concat ts)"
  using assms by (rule stream_rebuilds)

theorem suffixes_rebuild_text_witness:
  "field_text (fold (\<lambda>pl s. fst (appendPartSuffix pl s))
      (suffix_frames ''m2'' ''p'' ''text'' 2 [[0xE9], [0xD83D, 0xDE00], [33]]) demo_msgs) ''m2'' ''p'' ''text''
    = Some [104, 105, 0xE9, 0xD83D, 0xDE00, 33]"
  using suffixes_rebuild_text [of demo_msgs "''m2''" "''p''" "''text''" "[104, 105]" "[[0xE9], [0xD83D, 0xDE00], [33]]"]
  by (simp add: streaming_def demo_msgs_fields demo_info_def set_number_def field_text_def demo_part_def current_text_def
      high_surrogate_def low_surrogate_def)

section \<open>Eviction and shadows\<close>

text \<open>C39: Eviction removes exactly the oldest messages, as many as asked for without going below the
  protected tail, from the order and from memory alike, and reports that number.\<close>

theorem eviction_takes_oldest:
  assumes "msgs_inv sm" and "0 < n" and "0 \<le> keep" and "keep < int (length (order sm))"
  shows "order (fst (deleteMessagesFromTop n keep sm)) = drop (nat (min n (int (length (order sm)) - keep))) (order sm) \<and>
    snd (deleteMessagesFromTop n keep sm) = min n (int (length (order sm)) - keep) \<and>
    js_get (byId (fst (deleteMessagesFromTop n keep sm))) i =
      (if i \<in> set (take (nat (min n (int (length (order sm)) - keep))) (order sm)) then None else js_get (byId sm) i) \<and>
    keep \<le> int (length (order (fst (deleteMessagesFromTop n keep sm))))"
  using evict_result [OF assms] assms(2,4) by simp

theorem eviction_takes_oldest_witness:
  "order (fst (deleteMessagesFromTop 5 1 demo_msgs)) = [''m2''] \<and> snd (deleteMessagesFromTop 5 1 demo_msgs) = 1"
  using eviction_takes_oldest [OF demo_msgs_inv, of 5 1] by (simp add: demo_msgs_fields)

text \<open>C40: A part that arrives before its message is held without being rendered; when the message comes with
  a creation time it is rendered with that part.\<close>

theorem shadow_is_promoted:
  assumes "msgs_inv sm" and "js_get (byId sm) (pt_messageID p) = None"
    and "mi_id info = pt_messageID p" and "set_number (mi_created info)"
  shows "order (upsertPart p sm) = order sm \<and>
    mi_id info \<in> set (order (upsertMessage info (upsertPart p sm))) \<and>
    js_get (byId (upsertMessage info (upsertPart p sm))) (mi_id info) =
      Some \<lparr>mv_id = mi_id info, mv_info = info, mv_partOrder = [pt_id p], mv_parts = [(pt_id p, p)]\<rparr>"
  using shadow_promotion [OF assms(2,1,3,4)] by simp

theorem shadow_is_promoted_witness:
  "order (upsertPart (demo_part ''m9'' ''x'' []) demo_msgs) = [''m1'', ''m2''] \<and>
   ''m9'' \<in> set (order (upsertMessage (demo_info ''m9'' (Some 4) None) (upsertPart (demo_part ''m9'' ''x'' []) demo_msgs)))"
  using shadow_is_promoted [OF demo_msgs_inv, of "demo_part ''m9'' ''x'' []" "demo_info ''m9'' (Some 4) None"]
  by (simp add: demo_msgs_fields demo_part_def demo_info_def set_number_def)

end
