(* ===== verification/Spec2Isabelle.thy ===== *)
theory Spec2Isabelle
  imports TreeProps PinProps LabelProps LabelSelectors MessageProps
begin

text \<open>
  A verification library for the web client of vh-solara, the SolidJS single-page application
  under \<^verbatim>\<open>web/src\<close>. The client shows the sessions of a coding-agent server as a tree, lets the
  user pin and label them, and renders their transcripts. The server owns all of that state; the
  client holds copies that arrive as snapshots, incremental frames and HTTP answers, in an order it
  does not control, and changes them optimistically. The library models the parts that carry this
  logic and proves what makes them correct.

  \<^bold>\<open>Parts and theories\<close>

  \<^item> \<open>Prelude\<close>, \<open>JsMap\<close>: what the source takes from its language. Comparator sorts, array
    indices, strings, JSON values; the \<^verbatim>\<open>Map\<close> and the dictionary object as association lists in
    insertion order. The interfaces \<open>keyed_store\<close>, \<open>invariant_machine\<close> and \<open>partial_machine\<close>.
  \<^item> \<open>VersionedStore\<close>: \<^verbatim>\<open>lib/store.ts\<close>, values in \<^verbatim>\<open>localStorage\<close> in a versioned envelope, and the
    signal synchronised between documents.
  \<^item> \<open>TreeMap\<close>: \<^verbatim>\<open>sync/treeMap.ts\<close>, the flat map of tree nodes, the five server operations, the
    breadth-first walk of the loaded subtree, the collapse; the abstract contract \<open>spec_op\<close> and the
    refinement. \<open>TreeOps\<close>: \<^verbatim>\<open>sync/treeOps.ts\<close>, the decoders of the wire and the paginated fetch.
  \<^item> \<open>TreeSelectors\<close>, \<open>LabelSelectors\<close>: \<^verbatim>\<open>sync/treeSelectors.ts\<close>, the pinned group, search, the
    selected path, the mode transitions; the partition into pinned, grouped and ungrouped sections.
  \<^item> \<open>TreeState\<close>: \<^verbatim>\<open>sync/treeState.ts\<close>, the store around the map. The record \<open>tree_state\<close> has the
    module's variables (map, version, mode map, clicked set, promotion queue with its generation,
    ranks) and the storage; one definition per exported function; \<open>tree_step\<close> is one event.
    \<open>TreeStateInv\<close>, \<open>TreeStore\<close>: the store invariant and the automatic modes. \<open>TreeOrder\<close>: the
    order siblings are shown in. \<open>TreePersist\<close>: persisted modes and their migrations.
  \<^item> \<open>DragReorder\<close>: \<^verbatim>\<open>lib/dragReorder.ts\<close>.
  \<^item> \<open>Authority\<close>: the interface \<open>cas_authority\<close>, a document with a revision adopted under a
    monotonicity guard, which the pin and the label facade both provide.
  \<^item> \<open>Pins\<close>, \<open>PinsInv\<close>, \<open>PinsThms\<close>: \<^verbatim>\<open>pins.ts\<close>. An asynchronous action runs to its first \<^verbatim>\<open>await\<close> or
    return; at an \<^verbatim>\<open>await\<close> it leaves a request and a continuation (\<open>put_cont\<close>) with the variables
    the rest of the function captured. \<open>pins_sys\<close> is the facade with the requests sent and the
    calls waiting; an answer settles any waiting call, so a run is any interleaving.
  \<^item> \<open>Labels\<close>, \<open>LabelsDoc\<close>, \<open>LabelsIntents\<close>, \<open>LabelsInv\<close>: \<^verbatim>\<open>labels.ts\<close> in the same way, with the
    intents as a datatype and the project scope a continuation was started in.
  \<^item> \<open>Messages\<close>, \<open>MessagesInv\<close>, \<open>MessagesThms\<close>: \<^verbatim>\<open>lib/reduce.ts\<close>, the reducers of a transcript.
  \<^item> \<open>TreeProps\<close>, \<open>PinProps\<close>, \<open>LabelProps\<close>, \<open>MessageProps\<close>: the properties of each part with
    a concrete use of each; this theory has the one that spans the tree, the pins and the labels.

  \<^bold>\<open>How the parts meet\<close>

  Frames are decoded (\<open>decodeTreeOp\<close>, \<open>decodeTreeSnapshot\<close>, \<open>coercePinDoc\<close>, \<open>coerceLabelsDoc\<close>) and
  applied to the stores. The session list is \<open>selectLabeledSections\<close> of the tree's map and ranked
  roots, the pin facade's order and the label facade's document. Each store persists through
  \<open>VersionedStore\<close>. The server, the network and other documents are the arguments of events.

  \<^bold>\<open>What the properties show\<close>

  The flat map does what the protocol promises, and a removal or collapse returns exactly off the
  parent cycles. The tree store keeps its invariant over every run; without user choices no idle
  node stays in filtered mode, and automatic changes are the two the design names, besides the reset
  at a project switch, which drops every mode. A collapsed node that starts working, by any
  operation, is opened by the next flush if it still works then. Siblings are ordered by recency at
  a snapshot and only promoted nodes move afterwards. Modes survive a reload. The fetch of children
  ends when the server stops promising pages; when the server declares a cursor stale, the fetch
  removes exactly the children of the pages it abandons before it starts again. Both facades count
  their pending calls exactly, bound the requests they send and roll back exactly what they wrote.
  The pin facade holds, in whatever order they arrive, the newest of the documents confirmed since
  the last snapshot; a snapshot itself is adopted whatever its revision. The answers of a project
  that was left change nothing in the label facade, however late they come. Coerced label documents
  are well formed, intents keep them so and groups exclusive. The transcript stays consistent and
  in creation order, pages never override live messages, and streamed suffixes rebuild their text.
  The session list shows the resident roots that carry the selected tags, and none twice as long
  as the pin lists of the server have no duplicates (the client does not remove them).

  \<^bold>\<open>Bounds and loops\<close>

  The walk of the subtree and the fetch loop are \<open>partial_function (option)\<close>: \<open>None\<close> is a call that
  never returns. A property of the walk says exactly when that happens, one of the fetch gives a
  condition under which it does not. The upward
  walks have the code's cap of 10000 steps; properties that need the cap not to be reached assume
  at most 10000 resident nodes (a longer chain is possible and then cut, as in the code). The
  version and generation counters are 30-bit words, as the code masks them.

  \<^bold>\<open>Conventions\<close>

  JSON numbers are integers. Ids are strings that are not integer-like, so an object keeps its keys
  in insertion order. \<^verbatim>\<open>toLowerCase\<close> and \<^verbatim>\<open>trim\<close> are those of ASCII text. Optional node fields the
  guard does not check are read as absent when their type is wrong, flags through truthiness, and an
  activity outside the known ones is \<open>ActOther\<close>. Persisted pin arrays with entries of other types
  drop them, and persisted pin data of the current version that is no array is read as empty, where
  the code keeps the entries or throws; it writes arrays of strings only. The random bytes of a new id and the lengths of \<^verbatim>\<open>JSON.stringify\<close> in the memory estimate
  are arguments. \<open>ls_writes\<close> counts the calls of \<^verbatim>\<open>setItem\<close>, whether or not they throw. The
  comparator of \<^verbatim>\<open>sortMessages\<close> would throw on an ordered id that is not resident; the
  invariant excludes one.

  \<^bold>\<open>Not modelled\<close>

  Solid's notification of signals, logging, object identity and in-place mutation (a part keeps its
  identity in the code so that its row is not recreated), rendering, timers and transports, and the
  rest of the client and the host shell: the outgoing queue and outbox, the send pipeline, the
  connection health machines and the dock layout are the next parts.
\<close>

section \<open>The session list\<close>

lemma shown_roots:
  assumes "ts_inv s"
  shows "distinct (map nid (treeRoots s))"
    and "n \<in> set (treeRoots s) \<longleftrightarrow> js_get (ts_map s) (nid n) = Some n \<and> parentId n = None"
proof -
  have "shown s None = treeRoots s" by (simp add: shown_def)
  then show "distinct (map nid (treeRoots s))" using shown_old(2) [OF assms, of None] by simp
  have "tm_wf (ts_map s)" using assms by (simp add: ts_inv_def)
  then show "n \<in> set (treeRoots s) \<longleftrightarrow> js_get (ts_map s) (nid n) = Some n \<and> parentId n = None"
    by (auto simp: treeRoots_def rootNodes_def tm_values_iff)
qed

lemma reachable_pin_order:
  assumes "list_all server_ok ps"
  shows "distinct (reconciledPinnedOrder (pins (foldl pins_step (init_sys ls) ps)))"
  using orders_distinct_run [OF orders_distinct_init assms, of ls]
  by (simp add: reconciledPinnedOrder_def orders_distinct_def)

lemma pinned_ids_filter:
  "\<exists>P. pinned_ids (selectLabeledSections m rr po doc sel) = map nid (filter P (selectPinnedNodes m po))"
  by (auto simp: pinned_ids_def selectLabeledSections_def Let_def comp_def)

lemma ungrouped_ids_filter:
  "\<exists>P. ungrouped_ids (selectLabeledSections m rr po doc sel) = map nid (filter P rr)"
  by (auto simp: ungrouped_ids_def selectLabeledSections_def Let_def)

lemma distinct_map_filter: "distinct (map f xs) \<Longrightarrow> distinct (map f (filter P xs))"
  by (simp add: distinct_map inj_on_def)

lemma count_list_map_filter: "count_list (map f (filter P xs)) k \<le> count_list (map f xs) k"
  by (induction xs) auto

lemma count_list_filter: "count_list (filter P xs) k \<le> count_list xs k"
  by (induction xs) auto

lemma pinned_ids_count:
  assumes "tm_wf m"
  shows "count_list (pinned_ids (selectLabeledSections m rr po doc sel)) k \<le> count_list po k"
proof -
  obtain P where "pinned_ids (selectLabeledSections m rr po doc sel) = map nid (filter P (selectPinnedNodes m po))"
    using pinned_ids_filter by blast
  then have "count_list (pinned_ids (selectLabeledSections m rr po doc sel)) k \<le> count_list (map nid (selectPinnedNodes m po)) k"
    by (simp add: count_list_map_filter)
  also have "\<dots> \<le> count_list po k" unfolding selectPinnedNodes_ids [OF assms] by (rule count_list_filter)
  finally show ?thesis .
qed

text \<open>C1: The session list, put together from the tree store, the pin facade and the label facade after any
  events whatever: no session is in two of the three sections (pinned, grouped, ungrouped), the grouped and
  the ungrouped section repeat none, and the pinned section shows a session at most as often as the pin
  order names it. So when the pin lists the server sends have no duplicates, as its contract promises and
  the client does not check, no session is shown twice. A resident root is shown exactly when it carries
  every selected tag.\<close>

theorem session_list_shows_once:
  assumes "run_opt tree_step (init_tree_state ls) es = Some s"
  shows "let po = reconciledPinnedOrder (pins (foldl pins_step (init_sys ls') ps));
      x = selectLabeledSections (ts_map s) (treeRoots s) po
            (currentServerDoc (labels (foldl labels_step init_labels_sys qs))) sel
    in distinct (grouped_ids x @ ungrouped_ids x) \<and>
      set (pinned_ids x) \<inter> set (grouped_ids x @ ungrouped_ids x) = {} \<and>
      (\<forall>k. count_list (pinned_ids x) k \<le> count_list po k) \<and>
      (list_all server_ok ps \<longrightarrow> distinct (pinned_ids x @ grouped_ids x @ ungrouped_ids x)) \<and>
      (\<forall>n. js_get (ts_map s) (nid n) = Some n \<and> parentId n = None \<longrightarrow>
         (nid n \<in> set (pinned_ids x @ grouped_ids x @ ungrouped_ids x) \<longleftrightarrow>
          matchesAllTags (serverTagAssign (labels (foldl labels_step init_labels_sys qs))) (nid n) sel))"
proof -
  let ?po = "reconciledPinnedOrder (pins (foldl pins_step (init_sys ls') ps))"
  let ?l = "labels (foldl labels_step init_labels_sys qs)"
  let ?x = "selectLabeledSections (ts_map s) (treeRoots s) ?po (currentServerDoc ?l) sel"
  have inv: "ts_inv s" by (rule tree_store.run_preserves [OF init_inv assms])
  then have wf: "tm_wf (ts_map s)" by (simp add: ts_inv_def)
  have "distinct (ungrouped_ids ?x)"
    using ungrouped_ids_filter distinct_map_filter shown_roots(1) [OF inv] by metis
  with grouped_ids_eq(1) [OF wf] sections_disjoint [OF wf]
  have once: "distinct (grouped_ids ?x @ ungrouped_ids ?x)" "set (pinned_ids ?x) \<inter> set (grouped_ids ?x @ ungrouped_ids ?x) = {}"
    by (simp_all add: Int_Un_distrib)
  moreover have "distinct (pinned_ids ?x @ grouped_ids ?x @ ungrouped_ids ?x)" if "list_all server_ok ps"
  proof -
    have "distinct (pinned_ids ?x)"
      using pinned_ids_filter distinct_map_filter distinct_selectPinnedNodes [OF wf reachable_pin_order [OF that]] by metis
    then show ?thesis using once by simp
  qed
  moreover have "nid n \<in> set (pinned_ids ?x @ grouped_ids ?x @ ungrouped_ids ?x) \<longleftrightarrow> matchesAllTags (serverTagAssign ?l) (nid n) sel"
    if "js_get (ts_map s) (nid n) = Some n" "parentId n = None" for n
    using sections_complete [OF wf _ that, of "treeRoots s" ?po "currentServerDoc ?l" sel] shown_roots(2) [OF inv, of n] that
    by (simp add: currentServerDoc_def)
  ultimately show ?thesis using pinned_ids_count [OF wf] unfolding Let_def by blast
qed

theorem session_list_shows_once_witness:
  "let x = selectLabeledSections (ts_map demo_store) (treeRoots demo_store)
       (reconciledPinnedOrder (pins (foldl pins_step (init_sys empty_storage) [TogglePin ''a'', TogglePin ''b''])))
       (currentServerDoc (labels (foldl labels_step init_labels_sys [LabelsSnapshot (labels_json demo_labels)]))) []
   in distinct (pinned_ids x @ grouped_ids x @ ungrouped_ids x) \<and>
     ''a'' \<in> set (pinned_ids x @ grouped_ids x @ ungrouped_ids x)"
proof -
  have "run_opt tree_step (init_tree_state demo_storage) [Seed [demo_node ''a'' None ActIdle 1,
      demo_node ''b'' (Some ''a'') ActIdle 2, demo_node ''c'' (Some ''a'') ActBusy 3]] = Some demo_store"
    by (simp add: demo_store_def)
  note t = session_list_shows_once [OF this, of empty_storage "[TogglePin ''a'', TogglePin ''b'']"
      "[LabelsSnapshot (labels_json demo_labels)]" "[]", unfolded Let_def]
  have "list_all server_ok [TogglePin ''a'', TogglePin ''b'']" by simp
  moreover have "js_get (ts_map demo_store) (nid (demo_node ''a'' None ActIdle 1)) = Some (demo_node ''a'' None ActIdle 1)"
    "nid (demo_node ''a'' None ActIdle 1) = ''a''" "parentId (demo_node ''a'' None ActIdle 1) = None"
    by (simp_all add: demo_store_def seedTree_def demo_node_def)
  ultimately show ?thesis using t unfolding Let_def by (metis matchesAllTags_def list.size(3))
qed

text \<open>The condition on the server's lists is needed: a snapshot that names a session twice is taken as it
  is, and the pinned section shows the session twice.\<close>

lemma duplicate_pin_shown_twice:
  "pinned_ids (selectLabeledSections (ts_map demo_store) (treeRoots demo_store)
     (reconciledPinnedOrder (pins (foldl pins_step (init_sys empty_storage) [PinsSnapshot (JObj
       [(''revision'', JNum 1), (''initialized'', JBool True), (''orderedSessionIds'', JArr [JStr ''a'', JStr ''a''])])])))
     (currentServerDoc init_labels) []) = [''a'', ''a'']"
proof -
  let ?raw = "JObj [(''revision'', JNum 1), (''initialized'', JBool True), (''orderedSessionIds'', JArr [JStr ''a'', JStr ''a''])]"
  have "coercePinDoc ?raw = Some \<lparr>pd_revision = 1, pd_initialized = True, pd_order = [''a'', ''a'']\<rparr>"
    by (simp add: coercePinDoc_def is_object_def string_array_def)
  then have po: "reconciledPinnedOrder (pins (foldl pins_step (init_sys empty_storage) [PinsSnapshot ?raw])) = [''a'', ''a'']"
    by (simp add: applyPinsSnapshot_def reconciledPinnedOrder_def Let_def)
  have wf: "tm_wf (ts_map demo_store)" using demo_store_inv(1) by (simp add: ts_inv_def)
  have get: "js_get (ts_map demo_store) ''a'' = Some (demo_node ''a'' None ActIdle 1)"
    by (simp add: demo_store_def seedTree_def demo_node_def)
  have "hasPinnedAncestor (ts_map demo_store) ''a'' pins = False" for pins
    by (simp add: hasPinnedAncestor_def up_def get pinned_walk.simps) (simp add: demo_node_def)
  then have "selectPinnedNodes (ts_map demo_store) [''a'', ''a''] = [demo_node ''a'' None ActIdle 1, demo_node ''a'' None ActIdle 1]"
    by (simp add: selectPinnedNodes_def List.map_filter_simps get)
  then show ?thesis
    unfolding po by (simp add: selectLabeledSections_def pinned_ids_def Let_def) (simp add: demo_node_def)
qed

end
